(* ===== verification/Py_Float.thy ===== *)
theory Py_Float
  imports Complex_Main "HOL-Library.Log_Nat"
begin

text \<open>
  Python's \<open>float\<close>: IEEE 754 binary64 with round-half-even, over exact rationals.

  A value is a finite rational, one of the infinities, or NaN; the sign of zero is not
  represented, because no code modelled here observes it. The result of an arithmetic operation
  is the exact result rounded by \<open>round_double\<close>. Deadlines, delays, priorities and clock
  readings of the queue strategies and of the circuit breaker are such values, so a theorem
  about them speaks of what the code computes and not of real arithmetic.

  The lemmas show that rounding is monotone, that it is the identity on the values it produces
  and on the integers up to $2^{53}$, which is what the ordering and round-trip theorems of the
  components need.
\<close>

section \<open>Values and rounding\<close>

datatype pyfloat = Fin rat | PInf | NInf | NaN

text \<open>Round a rational to the nearest integer, ties to even.\<close>

definition round_half_even :: "rat \<Rightarrow> int" where
  "round_half_even x =
     (let f = \<lfloor>x\<rfloor>; d = x - of_int f in
      if d < 1 / 2 then f else if 1 / 2 < d then f + 1 else if even f then f else f + 1)"

text \<open>
  Round a non-negative rational to a 53-bit significand. The unit in the last place is
  $2^{e-53}$ for a value of $e$ bits, counted in multiples of the least subnormal $2^{-1074}$;
  the truncated subtraction gives the subnormals their fixed unit.
\<close>

definition ulp_exp :: "rat \<Rightarrow> nat" where
  "ulp_exp s = floorlog 2 (nat \<lfloor>s\<rfloor>) - 53"

definition round_scaled :: "rat \<Rightarrow> rat" where
  "round_scaled s = of_int (round_half_even (s / 2 ^ ulp_exp s)) * 2 ^ ulp_exp s"

definition round_mag :: "rat \<Rightarrow> rat" where
  "round_mag x = round_scaled (x * 2 ^ 1074) / 2 ^ 1074"

definition round_double :: "rat \<Rightarrow> pyfloat" where
  "round_double x =
     (if 0 \<le> x then (if round_mag x < 2 ^ 1024 then Fin (round_mag x) else PInf)
      else (if round_mag (- x) < 2 ^ 1024 then Fin (- round_mag (- x)) else NInf))"

definition is_double :: "rat \<Rightarrow> bool" where
  "is_double x \<longleftrightarrow> round_double x = Fin x"

text \<open>The operations on finite operands that the code uses.\<close>

definition fadd :: "rat \<Rightarrow> rat \<Rightarrow> pyfloat" where
  "fadd a b = round_double (a + b)"

definition fsub :: "rat \<Rightarrow> rat \<Rightarrow> pyfloat" where
  "fsub a b = round_double (a - b)"

definition fmul :: "rat \<Rightarrow> rat \<Rightarrow> pyfloat" where
  "fmul a b = round_double (a * b)"

definition fdiv :: "rat \<Rightarrow> rat \<Rightarrow> pyfloat" where
  "fdiv a b = round_double (a / b)"

text \<open>
  Comparison and the mixed operations where an operand may already be infinite: comparisons with
  NaN are false, and \<open>max\<close> and \<open>min\<close> return their first argument unless the second one is strictly
  better, as Python's do.
\<close>

fun fless :: "pyfloat \<Rightarrow> pyfloat \<Rightarrow> bool" where
  "fless NaN _ = False"
| "fless _ NaN = False"
| "fless (Fin a) (Fin b) = (a < b)"
| "fless NInf x = (x \<noteq> NInf)"
| "fless x PInf = (x \<noteq> PInf)"
| "fless _ _ = False"

fun fminus :: "pyfloat \<Rightarrow> rat \<Rightarrow> pyfloat" where
  "fminus (Fin a) b = fsub a b"
| "fminus x b = x"

definition fmax :: "pyfloat \<Rightarrow> pyfloat \<Rightarrow> pyfloat" where
  "fmax a b = (if fless a b then b else a)"

definition fmin :: "pyfloat \<Rightarrow> pyfloat \<Rightarrow> pyfloat" where
  "fmin a b = (if fless b a then b else a)"

section \<open>Round-half-even\<close>

lemma round_half_even_of_int [simp]: "round_half_even (of_int n) = n"
  by (simp add: round_half_even_def)

lemma round_half_even_lower: "\<lfloor>x\<rfloor> \<le> round_half_even x"
  by (simp add: round_half_even_def Let_def)

lemma round_half_even_upper: "round_half_even x \<le> \<lfloor>x\<rfloor> + 1"
  by (simp add: round_half_even_def Let_def)

lemma round_half_even_mono:
  assumes "x \<le> y"
  shows "round_half_even x \<le> round_half_even y"
proof (cases "\<lfloor>x\<rfloor> = \<lfloor>y\<rfloor>")
  case True
  with assms show ?thesis
    by (auto simp: round_half_even_def Let_def)
next
  case False
  with floor_mono [OF assms] have "\<lfloor>x\<rfloor> + 1 \<le> \<lfloor>y\<rfloor>" by linarith
  with round_half_even_upper [of x] round_half_even_lower [of y] show ?thesis by linarith
qed

lemma round_half_even_nonneg: "0 \<le> x \<Longrightarrow> 0 \<le> round_half_even x"
  using round_half_even_lower [of x] by (meson order_trans zero_le_floor)

lemma round_half_even_le_of_int: "x \<le> of_int n \<Longrightarrow> round_half_even x \<le> n"
  using round_half_even_mono [of x "of_int n"] by simp

lemma round_half_even_ge_of_int: "of_int n \<le> x \<Longrightarrow> n \<le> round_half_even x"
  using round_half_even_mono [of "of_int n" x] by simp

section \<open>Rounding scaled magnitudes\<close>

lemma ulp_exp_mono: "s \<le> t \<Longrightarrow> ulp_exp s \<le> ulp_exp t"
proof -
  assume "s \<le> t"
  then have "nat \<lfloor>s\<rfloor> \<le> nat \<lfloor>t\<rfloor>" by (intro nat_mono floor_mono)
  then have "floorlog 2 (nat \<lfloor>s\<rfloor>) \<le> floorlog 2 (nat \<lfloor>t\<rfloor>)" by (rule floorlog_mono)
  then show ?thesis by (simp add: ulp_exp_def diff_le_mono)
qed

lemma floor_less_bitlen:
  fixes s :: rat
  assumes "0 \<le> s"
  shows "s < 2 ^ floorlog 2 (nat \<lfloor>s\<rfloor>)"
proof -
  let ?n = "nat \<lfloor>s\<rfloor>"
  have "?n < 2 ^ floorlog 2 ?n"
  proof (cases "?n = 0")
    case False
    then have "0 < ?n" by simp
    then show ?thesis using floorlog_bounds [of ?n 2] by simp
  qed simp
  then have "int ?n < 2 ^ floorlog 2 ?n" by (metis of_nat_less_iff of_nat_numeral of_nat_power)
  then have "\<lfloor>s\<rfloor> < 2 ^ floorlog 2 ?n" using assms by simp
  then have "\<lfloor>s\<rfloor> + 1 \<le> 2 ^ floorlog 2 ?n" by simp
  then have "of_int (\<lfloor>s\<rfloor> + 1) \<le> (of_int (2 ^ floorlog 2 ?n) :: rat)" by (rule of_int_le_iff [THEN iffD2])
  moreover have "s < of_int (\<lfloor>s\<rfloor> + 1)" by linarith
  ultimately show ?thesis by simp
qed

lemma round_scaled_upper:
  assumes "0 \<le> s" and "s \<le> 2 ^ 53 * 2 ^ ulp_exp s"
  shows "round_scaled s \<le> 2 ^ 53 * 2 ^ ulp_exp s"
proof -
  have "s / 2 ^ ulp_exp s \<le> of_int (2 ^ 53)"
    using assms(2) by (simp add: field_simps)
  then have "round_half_even (s / 2 ^ ulp_exp s) \<le> 2 ^ 53"
    by (rule round_half_even_le_of_int)
  then have "(of_int (round_half_even (s / 2 ^ ulp_exp s)) :: rat) \<le> of_int (2 ^ 53)"
    by (rule of_int_le_iff [THEN iffD2])
  then show ?thesis
    unfolding round_scaled_def by (intro mult_right_mono) simp_all
qed

lemma scaled_below_53:
  assumes "0 \<le> s"
  shows "s \<le> 2 ^ 53 * 2 ^ ulp_exp s"
proof -
  have "floorlog 2 (nat \<lfloor>s\<rfloor>) \<le> 53 + ulp_exp s" by (simp add: ulp_exp_def)
  then have "(2::rat) ^ floorlog 2 (nat \<lfloor>s\<rfloor>) \<le> 2 ^ (53 + ulp_exp s)"
    by (intro power_increasing) simp_all
  with floor_less_bitlen [OF assms] have "s \<le> 2 ^ (53 + ulp_exp s)" by linarith
  then show ?thesis by (simp add: power_add)
qed

lemma scaled_above_52:
  assumes "0 < ulp_exp s"
  shows "2 ^ 52 * 2 ^ ulp_exp s \<le> s"
proof -
  let ?n = "nat \<lfloor>s\<rfloor>"
  have pos: "0 < ?n" using assms by (cases "?n = 0") (simp_all add: ulp_exp_def floorlog_def)
  have "2 ^ (floorlog 2 ?n - 1) \<le> ?n" using floorlog_bounds [of ?n 2] pos by simp
  moreover have "52 + ulp_exp s = floorlog 2 ?n - 1" using assms by (simp add: ulp_exp_def)
  ultimately have "2 ^ (52 + ulp_exp s) \<le> ?n" by simp
  then have "of_nat (2 ^ (52 + ulp_exp s)) \<le> (of_nat ?n :: rat)" by (rule of_nat_mono)
  also have "\<dots> \<le> s" using pos by (simp add: zero_less_nat_eq)
  finally show ?thesis by (simp add: power_add)
qed

lemma round_scaled_mono:
  assumes "0 \<le> s" and "s \<le> t"
  shows "round_scaled s \<le> round_scaled t"
proof (cases "ulp_exp s = ulp_exp t")
  case True
  have "s / 2 ^ ulp_exp t \<le> t / 2 ^ ulp_exp t"
    using assms(2) by (simp add: divide_right_mono)
  then have "(of_int (round_half_even (s / 2 ^ ulp_exp t)) :: rat)
      \<le> of_int (round_half_even (t / 2 ^ ulp_exp t))"
    by (intro of_int_le_iff [THEN iffD2] round_half_even_mono)
  with True show ?thesis
    unfolding round_scaled_def by (simp add: mult_right_mono)
next
  case False
  with ulp_exp_mono [OF assms(2)] have lt: "Suc (ulp_exp s) \<le> ulp_exp t" by simp
  have "round_scaled s \<le> 2 ^ 53 * 2 ^ ulp_exp s"
    using assms(1) by (intro round_scaled_upper scaled_below_53)
  also have "\<dots> = 2 ^ 52 * (2::rat) ^ Suc (ulp_exp s)" by simp
  also have "\<dots> \<le> 2 ^ 52 * 2 ^ ulp_exp t"
    using lt by (intro mult_left_mono power_increasing) simp_all
  also have "\<dots> \<le> round_scaled t"
  proof -
    have "2 ^ 52 * 2 ^ ulp_exp t \<le> t" using lt by (intro scaled_above_52) simp
    then have "of_int (2 ^ 52) \<le> t / 2 ^ ulp_exp t" by (simp add: field_simps)
    then have "2 ^ 52 \<le> round_half_even (t / 2 ^ ulp_exp t)"
      by (rule round_half_even_ge_of_int)
    then have "(of_int (2 ^ 52) :: rat) \<le> of_int (round_half_even (t / 2 ^ ulp_exp t))"
      by (rule of_int_le_iff [THEN iffD2])
    then show ?thesis unfolding round_scaled_def by (intro mult_right_mono) simp_all
  qed
  finally show ?thesis .
qed

lemma round_scaled_of_multiple:
  assumes "2 ^ ulp_exp (of_int m) dvd m"
  shows "round_scaled (of_int m) = of_int m"
proof -
  from assms obtain k where k: "m = 2 ^ ulp_exp (of_int m) * k" by blast
  then have "(of_int m :: rat) = 2 ^ ulp_exp (of_int m) * of_int k"
    by (metis of_int_mult of_int_numeral of_int_power)
  then have "(of_int m :: rat) / 2 ^ ulp_exp (of_int m) = of_int k"
    by (simp add: field_simps)
  then have "round_scaled (of_int m) = of_int k * 2 ^ ulp_exp (of_int m)"
    by (simp add: round_scaled_def)
  also have "\<dots> = of_int m"
    using \<open>(of_int m :: rat) = 2 ^ ulp_exp (of_int m) * of_int k\<close> by (simp add: mult.commute)
  finally show ?thesis .
qed

lemma round_scaled_nonneg: "0 \<le> s \<Longrightarrow> 0 \<le> round_scaled s"
  by (simp add: round_scaled_def round_half_even_nonneg)

section \<open>Rounding to a double\<close>

lemma ulp_exp_of_int: "0 \<le> m \<Longrightarrow> ulp_exp (of_int m) = floorlog 2 (nat m) - 53"
  by (simp add: ulp_exp_def)

lemma ulp_exp_le:
  assumes "0 \<le> m" and "m < 2 ^ (53 + p)"
  shows "ulp_exp (of_int m) \<le> p"
proof -
  have "nat m < 2 ^ (53 + p)"
    using assms by (metis nat_less_iff of_nat_numeral of_nat_power)
  then have "floorlog 2 (nat m) \<le> 53 + p" by (intro floorlog_leI) simp_all
  then show ?thesis using assms(1) by (simp add: ulp_exp_of_int)
qed

text \<open>A multiple of $2^p$ below $2^{53+p}$, or equal to it, is left as it is.\<close>

lemma round_scaled_significand:
  assumes "0 \<le> k" and "k \<le> 2 ^ 53"
  shows "round_scaled (of_int (k * 2 ^ p)) = of_int (k * 2 ^ p)"
proof (rule round_scaled_of_multiple)
  show "2 ^ ulp_exp (of_int (k * 2 ^ p)) dvd k * 2 ^ p"
  proof (cases "k = 2 ^ 53")
    case False
    with assms have "k * 2 ^ p < 2 ^ (53 + p)" by (simp add: power_add)
    then have "ulp_exp (of_int (k * 2 ^ p)) \<le> p" using assms(1) by (intro ulp_exp_le) simp_all
    then have "(2::int) ^ ulp_exp (of_int (k * 2 ^ p)) dvd 2 ^ p" by (rule le_imp_power_dvd)
    then show ?thesis by (rule dvd_mult)
  next
    case True
    have eq: "k * 2 ^ p = 2 ^ 52 * 2 ^ Suc p" using True by simp
    have "k * 2 ^ p < 2 ^ (53 + Suc p)" using True by (simp add: power_add)
    then have "ulp_exp (of_int (k * 2 ^ p)) \<le> Suc p" using assms(1) by (intro ulp_exp_le) simp_all
    then have "(2::int) ^ ulp_exp (of_int (k * 2 ^ p)) dvd 2 ^ Suc p" by (rule le_imp_power_dvd)
    then show ?thesis unfolding eq by (rule dvd_mult)
  qed
qed

lemma round_scaled_idem:
  assumes "0 \<le> s"
  shows "round_scaled (round_scaled s) = round_scaled s"
proof -
  let ?k = "round_half_even (s / 2 ^ ulp_exp s)"
  have "s / 2 ^ ulp_exp s \<le> of_int (2 ^ 53)"
    using scaled_below_53 [OF assms] by (simp add: field_simps)
  then have "?k \<le> 2 ^ 53" by (rule round_half_even_le_of_int)
  moreover have "0 \<le> ?k" using assms by (intro round_half_even_nonneg) simp
  moreover have "round_scaled s = of_int (?k * 2 ^ ulp_exp s)" by (simp add: round_scaled_def)
  ultimately show ?thesis using round_scaled_significand by presburger
qed

lemma round_mag_idem: "0 \<le> x \<Longrightarrow> round_mag (round_mag x) = round_mag x"
  by (simp add: round_mag_def round_scaled_idem)

lemma round_mag_nonneg: "0 \<le> x \<Longrightarrow> 0 \<le> round_mag x"
  by (simp add: round_mag_def round_scaled_nonneg)

lemma round_mag_mono: "0 \<le> x \<Longrightarrow> x \<le> y \<Longrightarrow> round_mag x \<le> round_mag y"
  unfolding round_mag_def by (intro divide_right_mono round_scaled_mono mult_right_mono) simp_all

lemma round_scaled_zero [simp]: "round_scaled 0 = 0"
  using round_scaled_significand [of 0 0] by simp

lemma round_mag_zero [simp]: "round_mag 0 = 0"
  by (simp add: round_mag_def)

lemma round_double_is_double:
  assumes "round_double x = Fin y"
  shows "is_double y"
proof (cases "0 \<le> x")
  case True
  with assms have y: "y = round_mag x" "round_mag x < 2 ^ 1024"
    by (auto simp: round_double_def split: if_splits)
  with True show ?thesis
    by (simp add: is_double_def round_double_def round_mag_nonneg round_mag_idem)
next
  case False
  with assms have y: "y = - round_mag (- x)" "round_mag (- x) < 2 ^ 1024"
    by (auto simp: round_double_def split: if_splits)
  have "0 \<le> round_mag (- x)" using False by (intro round_mag_nonneg) simp
  with False y show ?thesis
    by (cases "round_mag (- x) = 0") (auto simp: is_double_def round_double_def round_mag_idem)
qed

lemma round_double_mono:
  assumes "x \<le> y" and "round_double x = Fin a" and "round_double y = Fin b"
  shows "a \<le> b"
proof (cases "0 \<le> x")
  case True
  with assms round_mag_mono [of x y] show ?thesis
    by (auto simp: round_double_def split: if_splits)
next
  case False
  then have neg: "a = - round_mag (- x)" using assms(2) by (auto simp: round_double_def split: if_splits)
  show ?thesis
  proof (cases "0 \<le> y")
    case True
    then have "b = round_mag y" using assms(3) by (auto simp: round_double_def split: if_splits)
    with neg False True round_mag_nonneg [of "- x"] round_mag_nonneg [of y] show ?thesis by simp
  next
    case F2: False
    then have "b = - round_mag (- y)" using assms(3) by (auto simp: round_double_def split: if_splits)
    with neg F2 assms(1) round_mag_mono [of "- y" "- x"] show ?thesis by simp
  qed
qed

lemma round_double_of_double [simp]: "is_double x \<Longrightarrow> round_double x = Fin x"
  by (simp add: is_double_def)

lemma round_double_nonneg: "0 \<le> x \<Longrightarrow> round_double x = Fin a \<Longrightarrow> 0 \<le> a"
  by (auto simp: round_double_def round_mag_nonneg split: if_splits)

lemma round_double_below:
  assumes "0 \<le> x" and "x \<le> y" and "is_double y"
  obtains a where "round_double x = Fin a" and "0 \<le> a" and "a \<le> y"
proof -
  have y: "round_mag y = y" "y < 2 ^ 1024" using assms by (auto simp: is_double_def round_double_def split: if_splits)
  then have "round_mag x \<le> y" using round_mag_mono [OF assms(1,2)] by simp
  with y assms(1) show ?thesis by (intro that [of "round_mag x"]) (auto simp: round_double_def round_mag_nonneg)
qed

lemma dyadic_scaled:
  assumes "j \<le> k"
  shows "(of_int n / 2 ^ j) * (2::rat) ^ k = of_int (n * 2 ^ (k - j))"
proof -
  have "(2::rat) ^ k = 2 ^ (k - j) * 2 ^ j"
    using assms by (metis le_add_diff_inverse2 power_add)
  then show ?thesis by simp
qed

lemma round_mag_dyadic:
  assumes "0 \<le> n" and "n \<le> 2 ^ 53" and "j \<le> 1074"
  shows "round_mag (of_int n / 2 ^ j) = of_int n / 2 ^ j"
proof -
  have e: "(of_int n / 2 ^ j) * (2::rat) ^ 1074 = of_int (n * 2 ^ (1074 - j))"
    by (rule dyadic_scaled [OF assms(3)])
  have "round_scaled ((of_int n / 2 ^ j) * 2 ^ 1074) = (of_int n / 2 ^ j) * (2::rat) ^ 1074"
    unfolding e by (rule round_scaled_significand [OF assms(1,2)])
  then show ?thesis unfolding round_mag_def by simp
qed

lemma two_power_53_less: "(2::rat) ^ 53 < 2 ^ 1024"
  by (rule power_strict_increasing) simp_all

lemma dyadic_below_max:
  assumes "m \<le> 2 ^ 53" and "0 \<le> m"
  shows "(of_int m :: rat) / 2 ^ j < 2 ^ 1024"
proof -
  have "(of_int m :: rat) \<le> of_int (2 ^ 53)" using assms(1) by (rule of_int_le_iff [THEN iffD2])
  then have "(of_int m :: rat) < 2 ^ 1024" using two_power_53_less by simp
  moreover have "(of_int m :: rat) / 2 ^ j \<le> of_int m"
    using assms(2) by (simp add: divide_le_eq mult_le_cancel_left1)
  ultimately show ?thesis by linarith
qed

lemma is_double_dyadic:
  assumes "\<bar>n\<bar> \<le> 2 ^ 53" and "j \<le> 1074"
  shows "is_double (of_int n / 2 ^ j)"
proof (cases "0 \<le> n")
  case True
  with assms dyadic_below_max [of n j] round_mag_dyadic [of n j] show ?thesis
    by (simp add: is_double_def round_double_def)
next
  case False
  with assms have "0 \<le> - n" "- n \<le> 2 ^ 53" by simp_all
  moreover have "\<not> 0 \<le> (of_int n :: rat) / 2 ^ j" using False by (simp add: zero_le_divide_iff not_le)
  ultimately show ?thesis
    using round_mag_dyadic [of "- n" j] dyadic_below_max [of "- n" j] assms(2)
    by (simp add: is_double_def round_double_def)
qed

lemma is_double_of_int: "\<bar>n\<bar> \<le> 2 ^ 53 \<Longrightarrow> is_double (of_int n)"
  using is_double_dyadic [of n 0] by simp

lemma is_double_numeral [simp]:
  "is_double 0" "is_double 1"
  "numeral k \<le> (2::int) ^ 53 \<Longrightarrow> is_double (numeral k)"
  "numeral k \<le> (2::int) ^ 53 \<Longrightarrow> is_double (- numeral k)"
  using is_double_of_int [of 0] is_double_of_int [of 1]
    is_double_of_int [of "numeral k"] is_double_of_int [of "- numeral k"] by simp_all

text \<open>Multiplying by one, adding and subtracting zero, and subtracting equals are exact.\<close>

lemma fmul_one [simp]: "is_double x \<Longrightarrow> fmul x 1 = Fin x"
  by (simp add: fmul_def)

lemma fadd_zero [simp]: "is_double x \<Longrightarrow> fadd x 0 = Fin x"
  by (simp add: fadd_def)

lemma fsub_self [simp]: "fsub x x = Fin 0"
  by (simp add: fsub_def)

text \<open>An addend below half a unit in the last place is absorbed.\<close>

lemma ulp_exp_normal:
  assumes "2 ^ 52 * 2 ^ e \<le> s" and "s < 2 ^ 53 * (2 ^ e :: rat)"
  shows "ulp_exp s = e"
proof -
  have "(2::int) ^ (52 + e) \<le> \<lfloor>s\<rfloor>" using assms(1) by (simp add: le_floor_iff power_add)
  then have lo: "2 ^ (52 + e) \<le> nat \<lfloor>s\<rfloor>" by (metis nat_mono nat_numeral nat_power_eq zero_le_numeral)
  have "\<lfloor>s\<rfloor> < (2::int) ^ (53 + e)" using assms(2) by (simp add: floor_less_iff power_add)
  then have hi: "nat \<lfloor>s\<rfloor> < 2 ^ (53 + e)"
    by (metis nat_less_numeral_power_cancel_iff)
  have "floorlog 2 (nat \<lfloor>s\<rfloor>) \<le> 53 + e" using hi by (intro floorlog_leI) simp_all
  moreover have "Suc (52 + e) \<le> floorlog 2 (nat \<lfloor>s\<rfloor>)" using lo by (intro floorlog_ge_SucI) simp_all
  ultimately show ?thesis by (simp add: ulp_exp_def)
qed

lemma round_scaled_absorbs:
  assumes "2 ^ 52 \<le> k" and "k < 2 ^ 53" and "0 \<le> d" and "d < 1 / 2"
  shows "round_scaled ((of_int k + d) * 2 ^ e) = of_int k * 2 ^ e"
proof -
  have lo: "(2::rat) ^ 52 \<le> of_int k" using assms(1) by (metis of_int_le_iff of_int_numeral of_int_power)
  have "of_int k \<le> (of_int (2 ^ 53 - 1) :: rat)" using assms(2) by (intro of_int_le_iff [THEN iffD2]) simp
  then have hi: "of_int k + d < (2::rat) ^ 53" using assms(4) by simp
  have "ulp_exp ((of_int k + d) * 2 ^ e) = e"
    by (rule ulp_exp_normal) (use lo hi assms(3) in \<open>simp_all add: mult_right_mono mult_strict_right_mono\<close>)
  moreover have "round_half_even (of_int k + d) = k"
    using assms(3,4) floor_unique [of k "of_int k + d"] by (simp add: round_half_even_def Let_def)
  ultimately show ?thesis by (simp add: round_scaled_def)
qed

end
