(* ===== verification/Prelude.thy ===== *)
theory Prelude
  imports Py_Float "HOL-Library.Word" "HOL-Library.Multiset"
begin

text \<open>
  The shared vocabulary of the development: Python exceptions as values, the dynamically typed
  values that reach the code from settings and from decoded JSON documents, numeric coercions,
  base64, and the generic list lemmas the components use.

  A method that may raise returns \<open>exn + 'a\<close>, \<open>Inl\<close> for the exception. A method of an object
  with mutable state takes the state and returns it updated; when it raises, the state returned
  beside the exception is the one the object is left in.
\<close>

named_theorems py_simps \<open>evaluation rules of the Python primitives\<close>

section \<open>Exceptions and results\<close>

text \<open>
  One constructor per exception class the modelled code raises or distinguishes.
  \<open>BackendFailure\<close> is any exception a backend call lets through; its argument identifies the
  exception object.
\<close>

datatype exn =
    ValueError
  | TypeError
  | KeyError
  | OverflowError
  | QueueError
  | QueueStrategyRestoreError
  | ConfigurationError
  | FilterFull
  | NotImplementedError
  | BackendError
  | StorageError
  | StorageBackpressureError
  | RuntimeError
  | CircuitBreakerOpenError
  | DurablePushRequired
  | JSONDecodeError
  | UnicodeDecodeError
  | RecursionError
  | SnapshotRepositoryError
  | BackendConnectionError
  | BackendOperationTimeout
  | SecretWrapperSerializationRejected
  | SerializationError
  | EnvelopeIdentityMismatch
  | ProcessSignal
  | BackendFailure nat

type_synonym 'a result = "exn + 'a"
type_synonym ('a, 's) outcome = "'a result \<times> 's"

text \<open>\<open>except Exception\<close> stops everything but a signal to the process.\<close>

definition ordinary :: "exn \<Rightarrow> bool" where
  "ordinary e \<longleftrightarrow> e \<noteq> ProcessSignal"

fun rbind :: "'a result \<Rightarrow> ('a \<Rightarrow> 'b result) \<Rightarrow> 'b result" where
  "rbind (Inl e) f = Inl e"
| "rbind (Inr a) f = f a"

lemma rbind_eq_Inr_iff: "rbind m f = Inr b \<longleftrightarrow> (\<exists>a. m = Inr a \<and> f a = Inr b)"
  by (cases m) auto

lemma rbind_split:
  "P (rbind m f) \<longleftrightarrow> (\<forall>e. m = Inl e \<longrightarrow> P (Inl e)) \<and> (\<forall>a. m = Inr a \<longrightarrow> P (f a))"
  by (cases m) auto

text \<open>A list comprehension whose element expression may raise stops at the first exception.\<close>

fun rmap :: "('a \<Rightarrow> 'b result) \<Rightarrow> 'a list \<Rightarrow> 'b list result" where
  "rmap f [] = Inr []"
| "rmap f (x # xs) = rbind (f x) (\<lambda>y. rbind (rmap f xs) (\<lambda>ys. Inr (y # ys)))"

lemma rmap_cong [fundef_cong]:
  "xs = ys \<Longrightarrow> (\<And>x. x \<in> set ys \<Longrightarrow> f x = g x) \<Longrightarrow> rmap f xs = rmap g ys"
  by (induction xs arbitrary: ys) auto

lemma rmap_Inr:
  assumes "\<And>x. x \<in> set xs \<Longrightarrow> f x = Inr (g x)"
  shows "rmap f xs = Inr (map g xs)"
  using assms by (induction xs) auto

lemma rmap_eq_Inr_length: "rmap f xs = Inr ys \<Longrightarrow> length ys = length xs"
  by (induction xs arbitrary: ys) (auto simp: rbind_eq_Inr_iff)

section \<open>Dynamically typed values\<close>

text \<open>
  The values that arrive from settings and from \<open>json.loads\<close>. Strings are lists of characters;
  \<open>PyDict\<close> lists the entries of a dict in insertion order; \<open>PyOther\<close> is any value of another
  type.
\<close>

datatype pyval =
    PyNone
  | PyBool bool
  | PyInt int
  | PyFloat pyfloat
  | PyStr string
  | PyList "pyval list"
  | PyDict "(string \<times> pyval) list"
  | PyOther

fun py_get :: "pyval \<Rightarrow> string \<Rightarrow> pyval option" where
  "py_get (PyDict kvs) k = map_of kvs k"
| "py_get _ k = None"

text \<open>The checks \<open>isinstance(v, list)\<close> and "a non-negative \<open>int\<close>, not a bool, 0 when absent".\<close>

fun as_list :: "pyval option \<Rightarrow> pyval list result" where
  "as_list (Some (PyList xs)) = Inr xs"
| "as_list _ = Inl ValueError"

fun as_count :: "pyval option \<Rightarrow> nat result" where
  "as_count None = Inr 0"
| "as_count (Some (PyInt n)) = (if n < 0 then Inl ValueError else Inr (nat n))"
| "as_count (Some _) = Inl ValueError"

text \<open>\<open>float(n)\<close> of an integer raises \<open>OverflowError\<close> where the double would be infinite.\<close>

definition float_of_int :: "int \<Rightarrow> rat result" where
  "float_of_int n = (case round_double (of_int n) of Fin x \<Rightarrow> Inr x | _ \<Rightarrow> Inl OverflowError)"

lemma float_of_int_small [simp]: "\<bar>n\<bar> \<le> 2 ^ 53 \<Longrightarrow> float_of_int n = Inr (of_int n)"
  using is_double_of_int [of n] by (simp add: float_of_int_def)

lemma float_of_int_is_double: "float_of_int n = Inr x \<Longrightarrow> is_double x"
  by (auto simp: float_of_int_def intro: round_double_is_double split: pyfloat.splits)

section \<open>Base64\<close>

type_synonym byte = "8 word"
type_synonym bytes = "byte list"

definition b64_alphabet :: string where
  "b64_alphabet = ''ABCDEFGHIJKLMNOPQRSTUVWXYZabcdefghijklmnopqrstuvwxyz0123456789+/''"

definition b64_char :: "nat \<Rightarrow> char" where
  "b64_char n = b64_alphabet ! n"

fun index_of :: "'a \<Rightarrow> 'a list \<Rightarrow> nat option" where
  "index_of x [] = None"
| "index_of x (y # ys) = (if x = y then Some 0 else map_option Suc (index_of x ys))"

definition b64_value :: "char \<Rightarrow> nat option" where
  "b64_value c = index_of c b64_alphabet"

fun b64encode :: "bytes \<Rightarrow> string" where
  "b64encode [] = []"
| "b64encode [a] =
     [b64_char (unat a div 4), b64_char ((unat a mod 4) * 16), CHR ''='', CHR ''='']"
| "b64encode [a, b] =
     [b64_char (unat a div 4), b64_char ((unat a mod 4) * 16 + unat b div 16),
      b64_char ((unat b mod 16) * 4), CHR ''='']"
| "b64encode (a # b # c # r) =
     b64_char (unat a div 4) # b64_char ((unat a mod 4) * 16 + unat b div 16)
     # b64_char ((unat b mod 16) * 4 + unat c div 64) # b64_char (unat c mod 64) # b64encode r"

text \<open>
  \<open>base64.b64decode(s, validate=True)\<close>: only complete groups of four alphabet characters, the
  last one padded; everything else raises, which is \<open>None\<close> here. The unused low bits of a padded
  group are not checked, as in CPython.
\<close>

fun b64decode :: "string \<Rightarrow> bytes option" where
  "b64decode [] = Some []"
| "b64decode (w # x # y # z # r) =
     (case (b64_value w, b64_value x) of
        (Some p, Some q) \<Rightarrow>
          (if y = CHR ''='' then
             (if z = CHR ''='' \<and> r = [] then Some [word_of_nat (p * 4 + q div 16)] else None)
           else case b64_value y of
             None \<Rightarrow> None
           | Some s \<Rightarrow>
               (if z = CHR ''='' then
                  (if r = [] then Some [word_of_nat (p * 4 + q div 16),
                                        word_of_nat ((q mod 16) * 16 + s div 4)] else None)
                else case b64_value z of
                  None \<Rightarrow> None
                | Some t \<Rightarrow>
                    map_option (\<lambda>rest. word_of_nat (p * 4 + q div 16)
                        # word_of_nat ((q mod 16) * 16 + s div 4)
                        # word_of_nat ((s mod 4) * 64 + t) # rest) (b64decode r)))
      | _ \<Rightarrow> None)"
| "b64decode _ = None"

lemma b64_char_value_all:
  "list_all (\<lambda>n. b64_value (b64_char n) = Some n \<and> b64_char n \<noteq> CHR ''='') [0..<64]"
  by code_simp

lemma b64_value_char [simp]: "n < 64 \<Longrightarrow> b64_value (b64_char n) = Some n"
  and b64_char_not_pad [simp]: "n < 64 \<Longrightarrow> b64_char n \<noteq> CHR ''=''"
  using b64_char_value_all by (auto simp: list_all_iff)

lemma unat_byte: "unat (a :: byte) < 256"
  using unsigned_less [of a, where 'a = nat] by simp

lemma byte_recombine:
  fixes a :: byte
  assumes "k < 16"
  shows "word_of_nat (unat a div 4 * 4 + (unat a mod 4 * 16 + k) div 16) = a"
proof -
  have "unat a div 4 * 4 + (unat a mod 4 * 16 + k) div 16 = unat a"
    using assms by (simp add: div_add1_eq [of "unat a mod 4 * 16" k])
  then show ?thesis by simp
qed

lemma byte_recombine_mid:
  fixes b :: byte
  assumes "k < 4"
  shows "word_of_nat ((m * 16 + unat b div 16) mod 16 * 16 + (unat b mod 16 * 4 + k) div 4) = b"
proof -
  have "unat b div 16 < 16" using unat_byte [of b] by simp
  then have "(m * 16 + unat b div 16) mod 16 = unat b div 16" by simp
  moreover have "(unat b mod 16 * 4 + k) div 4 = unat b mod 16" using assms by simp
  ultimately show ?thesis by simp
qed

lemma byte_recombine_last:
  fixes c :: byte
  shows "word_of_nat ((m * 4 + unat c div 64) mod 4 * 64 + unat c mod 64) = c"
proof -
  have "unat c div 64 < 4" using unat_byte [of c] by simp
  then have "(m * 4 + unat c div 64) mod 4 = unat c div 64" by simp
  then show ?thesis by simp
qed

lemma b64decode_b64encode [simp]: "b64decode (b64encode bs) = Some bs"
proof (induction bs rule: b64encode.induct)
  case (2 a)
  have "unat a div 4 < 64" "unat a mod 4 * 16 < 64" using unat_byte [of a] by simp_all
  then show ?case using byte_recombine [of 0 a] by simp
next
  case (3 a b)
  have "unat a div 4 < 64" "unat a mod 4 * 16 + unat b div 16 < 64" "unat b mod 16 * 4 < 64"
    "unat b div 16 < 16"
    using unat_byte [of a] unat_byte [of b] by simp_all
  then show ?case using byte_recombine [of _ a] byte_recombine_mid [of 0 "unat a mod 4" b] by simp
next
  case (4 a b c r)
  have "unat a div 4 < 64" "unat a mod 4 * 16 + unat b div 16 < 64"
    "unat b mod 16 * 4 + unat c div 64 < 64" "unat c mod 64 < 64"
    "unat b div 16 < 16" "unat c div 64 < 4"
    using unat_byte [of a] unat_byte [of b] unat_byte [of c] by simp_all
  then show ?case
    using 4 byte_recombine [of _ a] byte_recombine_mid [of _ "unat a mod 4" b]
      byte_recombine_last [of "unat b mod 16" c] by simp
qed simp

text \<open>\<open>base64.b64decode(v, validate=True)\<close> on a decoded JSON value: a non-string raises \<open>TypeError\<close>.\<close>

fun b64decode_val :: "pyval \<Rightarrow> bytes result" where
  "b64decode_val (PyStr s) = (case b64decode s of Some bs \<Rightarrow> Inr bs | None \<Rightarrow> Inl ValueError)"
| "b64decode_val _ = Inl TypeError"

lemma b64decode_val_encode [simp]: "b64decode_val (PyStr (b64encode bs)) = Inr bs"
  by simp

lemma rmap_b64_encoded [simp]: "rmap b64decode_val (map (\<lambda>x. PyStr (b64encode x)) xs) = Inr xs"
  by (induction xs) simp_all

section \<open>Documents\<close>

text \<open>
  A persisted snapshot is a byte string. What the code observes of it is the value
  \<open>json.loads(state.decode())\<close> yields, or that decoding raises; a document that the code writes
  with \<open>json.dumps\<close> decodes to the value it was made from.
\<close>

datatype blob = JsonBlob pyval | Undecodable

fun json_loads :: "blob \<Rightarrow> pyval result" where
  "json_loads (JsonBlob v) = Inr v"
| "json_loads Undecodable = Inl ValueError"

definition json_dumps :: "pyval \<Rightarrow> blob" where
  "json_dumps v = JsonBlob v"

lemma json_loads_dumps [simp]: "json_loads (json_dumps v) = Inr v"
  by (simp add: json_dumps_def)

section \<open>Lists\<close>

lemma sum_list_zero_iff_nat: "sum_list (xs :: nat list) = 0 \<longleftrightarrow> (\<forall>x \<in> set xs. x = 0)"
  by (induction xs) auto

lemma mset_concat_map: "mset (concat (map f xs)) = sum_list (map (mset \<circ> f) xs)"
  by (induction xs) auto

text \<open>\<open>if len(xs) > n: xs = xs[len(xs) - n:]\<close>\<close>

definition keep_newest :: "nat \<Rightarrow> 'a list \<Rightarrow> 'a list" where
  "keep_newest n xs = (if n < length xs then drop (length xs - n) xs else xs)"

lemma length_keep_newest: "length (keep_newest n xs) = min n (length xs)"
  by (simp add: keep_newest_def)

lemma keep_newest_id [simp]: "length xs \<le> n \<Longrightarrow> keep_newest n xs = xs"
  by (simp add: keep_newest_def)

lemma append_colon_inj:
  assumes "CHR '':'' \<notin> set a" and "CHR '':'' \<notin> set b" and "a @ CHR '':'' # x = b @ CHR '':'' # y"
  shows "a = b \<and> x = y"
  using assms by (induction a arbitrary: b) (auto simp: Cons_eq_append_conv append_eq_Cons_conv)

end
