(* ===== verification/Queue_Base.thy ===== *)
theory Queue_Base
  imports Prelude
begin

text \<open>
  The parts every queue strategy shares: the timeout and key-name validators of
  \<open>core/types.py\<close>, the single-queue binding, the incarnation-bound acknowledgement token and the
  prepared push of \<open>queue/strategies/base.py\<close>, and the \<open>QueueBackend\<close> interface of
  \<open>backends/base.py\<close> the strategies drive.

  The backend itself runs against a broker or a database server, so it is a parameter: a record
  of its methods over a state type that stands for the server, the connection and the clock.
  \<open>conforming_backend\<close> names what the interface's documentation promises of such a record; only
  the theorems that need it assume it.
\<close>

section \<open>Validators\<close>

text \<open>\<open>normalize_pop_timeout\<close>: a finite, non-negative number, never a bool.\<close>

definition normalize_pop_timeout :: "pyval \<Rightarrow> rat result" where
  "normalize_pop_timeout timeout =
     (case timeout of
        PyInt n \<Rightarrow>
          (case float_of_int n of
             Inl _ \<Rightarrow> Inl ValueError
           | Inr x \<Rightarrow> if x < 0 then Inl ValueError else Inr x)
      | PyFloat (Fin x) \<Rightarrow> if x < 0 then Inl ValueError else Inr x
      | _ \<Rightarrow> Inl ValueError)"

definition normalize_queue_timeout :: "pyval \<Rightarrow> rat result" where
  "normalize_queue_timeout timeout = normalize_pop_timeout timeout"

lemma normalize_queue_timeout_nonneg:
  "normalize_queue_timeout v = Inr x \<Longrightarrow> 0 \<le> x"
  by (auto simp: normalize_queue_timeout_def normalize_pop_timeout_def
      split: pyval.splits pyfloat.splits sum.splits if_splits)

lemma normalize_queue_timeout_error:
  "normalize_queue_timeout v = Inl e \<Longrightarrow> e = ValueError"
  by (auto simp: normalize_queue_timeout_def normalize_pop_timeout_def
      split: pyval.splits pyfloat.splits sum.splits if_splits)

lemma normalize_queue_timeout_fin [simp]:
  "0 \<le> x \<Longrightarrow> normalize_queue_timeout (PyFloat (Fin x)) = Inr x"
  by (simp add: normalize_queue_timeout_def normalize_pop_timeout_def)

text \<open>\<open>KEY_NAME_PATTERN\<close> and \<open>validate_key_name\<close>.\<close>

definition key_name_char :: "char \<Rightarrow> bool" where
  "key_name_char c \<longleftrightarrow>
     c \<in> set ''abcdefghijklmnopqrstuvwxyzABCDEFGHIJKLMNOPQRSTUVWXYZ0123456789._:-''"

definition validate_key_name :: "string \<Rightarrow> nat option \<Rightarrow> unit result" where
  "validate_key_name name max_length =
     (if name = [] \<or> \<not> list_all key_name_char name
         \<or> (case max_length of None \<Rightarrow> False | Some m \<Rightarrow> m < length name)
      then Inl ValueError else Inr ())"

section \<open>Binding in-process state to one logical queue\<close>

definition bind_single_queue :: "string \<Rightarrow> string option \<Rightarrow> (unit, string option) outcome" where
  "bind_single_queue queue_name bound =
     (case bound of
        None \<Rightarrow> (Inr (), Some queue_name)
      | Some q \<Rightarrow> if q \<noteq> queue_name then (Inl ValueError, bound) else (Inr (), bound))"

lemma bind_single_queue_cases:
  obtains (ok) "bind_single_queue q b = (Inr (), Some q)" "b = None \<or> b = Some q"
  | (clash) q' where "bind_single_queue q b = (Inl ValueError, b)" "b = Some q'" "q' \<noteq> q"
  by (cases b) (auto simp: bind_single_queue_def)

lemma bind_single_queue_ok_iff:
  "fst (bind_single_queue q b) = Inr () \<longleftrightarrow> b = None \<or> b = Some q"
  by (auto simp: bind_single_queue_def split: option.splits)

lemma bind_single_queue_same [simp]: "bind_single_queue q (Some q) = (Inr (), Some q)"
  by (simp add: bind_single_queue_def)

section \<open>The queue backend interface\<close>

text \<open>
  A raw acknowledgement token is opaque; a bound one carries the identity of the backend object
  and the physical queue it was issued for.
\<close>

datatype 'tok ack_ref = RawToken 'tok | BoundToken nat string 'tok

record ('tok, 's) queue_backend =
  qb_id :: nat
  qb_push_is_durable :: bool
  qb_push :: "string \<Rightarrow> bytes \<Rightarrow> rat \<Rightarrow> 's \<Rightarrow> (unit, 's) outcome"
  qb_pop :: "string \<Rightarrow> pyfloat \<Rightarrow> 's \<Rightarrow> (bytes option, 's) outcome"
  qb_queue_len :: "string \<Rightarrow> 's \<Rightarrow> (nat, 's) outcome"
  qb_clear_queue :: "string \<Rightarrow> 's \<Rightarrow> (unit, 's) outcome"
  qb_pop_with_ack ::
    "(string \<Rightarrow> pyfloat \<Rightarrow> 's \<Rightarrow> (bytes option \<times> 'tok ack_ref option, 's) outcome) option"

text \<open>
  \<open>QueueBackend._push_with_durability\<close>: the durability requirement is refused before the
  backend can mutate anything. The internal \<open>_DurablePushRequired\<close> is a policy rejection; the
  connection manager turns it into a \<open>QueueError\<close>.
\<close>

definition push_with_durability ::
  "('tok, 's) queue_backend \<Rightarrow> string \<Rightarrow> bytes \<Rightarrow> rat \<Rightarrow> bool \<Rightarrow> 's \<Rightarrow> (bool, 's) outcome" where
  "push_with_durability B queue_name item priority require_durable s =
     (let durable = qb_push_is_durable B in
      if require_durable \<and> \<not> durable then (Inl QueueError, s)
      else case qb_push B queue_name item priority s of
        (Inl e, s') \<Rightarrow> (Inl e, s')
      | (Inr _, s') \<Rightarrow> (Inr durable, s'))"

text \<open>
  \<open>QueueStrategy._pop_backend_instance_with_ack\<close> on a \<open>QueueBackend\<close> instance: a backend that
  overrides \<open>pop_with_ack\<close> takes the token path, every other one the plain \<open>pop\<close>; a raw token is
  bound to this backend object and this physical queue, a bound one is passed through.
\<close>

definition pop_backend_instance_with_ack ::
  "('tok, 's) queue_backend \<Rightarrow> string \<Rightarrow> pyfloat \<Rightarrow> 's
    \<Rightarrow> (bytes option \<times> 'tok ack_ref option, 's) outcome" where
  "pop_backend_instance_with_ack B queue_name timeout s =
     (case qb_pop_with_ack B of
        Some f \<Rightarrow>
          (case f queue_name timeout s of
             (Inl e, s') \<Rightarrow> (Inl e, s')
           | (Inr (data, token), s') \<Rightarrow>
               (case token of
                  None \<Rightarrow> (Inr (data, None), s')
                | Some (BoundToken b q t) \<Rightarrow> (Inr (data, Some (BoundToken b q t)), s')
                | Some (RawToken t) \<Rightarrow>
                    (Inr (data, Some (BoundToken (qb_id B) queue_name t)), s')))
      | None \<Rightarrow>
          (case qb_pop B queue_name timeout s of
             (Inl e, s') \<Rightarrow> (Inl e, s')
           | (Inr data, s') \<Rightarrow> (Inr (data, None), s')))"

text \<open>
  \<open>pop\<close> and \<open>pop_with_ack\<close> of a strategy have the same control flow over a different backend
  call. The shared parts take the call as an argument; its result is \<open>None\<close> where the method goes
  on looking. \<open>ack_call\<close> is the token-carrying call, with a token-only tombstone counting as
  found; \<open>ack_result\<close> turns the final answer back into the pair the method returns.
\<close>

type_synonym ('r, 's) popper = "string \<Rightarrow> pyfloat \<Rightarrow> 's \<Rightarrow> ('r option, 's) outcome"

definition ack_call ::
  "('tok, 's) queue_backend \<Rightarrow> (bytes option \<times> 'tok ack_ref option, 's) popper" where
  "ack_call B q t s =
     (case pop_backend_instance_with_ack B q t s of
        (Inl e, s') \<Rightarrow> (Inl e, s')
      | (Inr (None, None), s') \<Rightarrow> (Inr None, s')
      | (Inr found, s') \<Rightarrow> (Inr (Some found), s'))"

fun ack_result :: "('a option \<times> 'b option) option result \<Rightarrow> ('a option \<times> 'b option) result" where
  "ack_result (Inl e) = Inl e"
| "ack_result (Inr None) = Inr (None, None)"
| "ack_result (Inr (Some found)) = Inr found"

text \<open>
  What the interface documentation promises of a backend whose queues are isolated from each
  other: \<open>items\<close> reads the multiset of pending items of each queue off the backend state. Only
  non-blocking pops are constrained, since other workers may push while a blocking one waits.
  Calls may raise; what a raising call leaves behind is unconstrained.
\<close>

definition conforming_backend ::
  "('tok, 's) queue_backend \<Rightarrow> ('s \<Rightarrow> string \<Rightarrow> bytes multiset) \<Rightarrow> bool" where
  "conforming_backend B items \<longleftrightarrow>
     (\<forall>q x p s s'. qb_push B q x p s = (Inr (), s')
        \<longrightarrow> items s' = (items s)(q := add_mset x (items s q)))
   \<and> (\<forall>q s s'. qb_pop B q (Fin 0) s = (Inr None, s') \<longrightarrow> items s' = items s \<and> items s q = {#})
   \<and> (\<forall>q s s' x. qb_pop B q (Fin 0) s = (Inr (Some x), s')
        \<longrightarrow> x \<in># items s q \<and> items s' = (items s)(q := items s q - {#x#}))
   \<and> (\<forall>q s s' n. qb_queue_len B q s = (Inr n, s') \<longrightarrow> items s' = items s \<and> n = size (items s q))
   \<and> (\<forall>q s s'. qb_clear_queue B q s = (Inr (), s') \<longrightarrow> items s' = (items s)(q := {#}))"

lemma conforming_push:
  "conforming_backend B items \<Longrightarrow> qb_push B q x p s = (Inr (), s')
    \<Longrightarrow> items s' = (items s)(q := add_mset x (items s q))"
  unfolding conforming_backend_def by metis

lemma conforming_pop_None:
  "conforming_backend B items \<Longrightarrow> qb_pop B q (Fin 0) s = (Inr None, s')
    \<Longrightarrow> items s' = items s \<and> items s q = {#}"
  unfolding conforming_backend_def by blast

lemma conforming_pop_Some:
  "conforming_backend B items \<Longrightarrow> qb_pop B q (Fin 0) s = (Inr (Some x), s')
    \<Longrightarrow> x \<in># items s q \<and> items s' = (items s)(q := items s q - {#x#})"
  unfolding conforming_backend_def by blast

lemma conforming_len:
  "conforming_backend B items \<Longrightarrow> qb_queue_len B q s = (Inr n, s')
    \<Longrightarrow> items s' = items s \<and> n = size (items s q)"
  unfolding conforming_backend_def by blast

lemma conforming_clear:
  "conforming_backend B items \<Longrightarrow> qb_clear_queue B q s = (Inr (), s')
    \<Longrightarrow> items s' = (items s)(q := {#})"
  unfolding conforming_backend_def by blast

text \<open>
  A concrete conforming backend, used only to instantiate the parameter in witnesses: a map from
  queue names to lists, popped from the head.
\<close>

definition list_backend :: "(nat, string \<Rightarrow> bytes list) queue_backend" where
  "list_backend =
     \<lparr> qb_id = 0, qb_push_is_durable = True,
       qb_push = (\<lambda>q x p s. (Inr (), s(q := s q @ [x]))),
       qb_pop = (\<lambda>q t s. case s q of [] \<Rightarrow> (Inr None, s) | x # xs \<Rightarrow> (Inr (Some x), s(q := xs))),
       qb_queue_len = (\<lambda>q s. (Inr (length (s q)), s)),
       qb_clear_queue = (\<lambda>q s. (Inr (), s(q := []))),
       qb_pop_with_ack = None \<rparr>"

lemma list_backend_conforming: "conforming_backend list_backend (\<lambda>s q. mset (s q))"
  unfolding conforming_backend_def list_backend_def
  by (auto split: list.splits)

section \<open>Prepared pushes\<close>

text \<open>
  \<open>_PreparedQueuePush.local\<close>: a process-local route refuses a durable commit before it
  publishes, and never reports durability.
\<close>

definition local_commit ::
  "(bytes \<Rightarrow> 's \<Rightarrow> (unit, 's) outcome) \<Rightarrow> bytes \<Rightarrow> bool \<Rightarrow> 's \<Rightarrow> (bool, 's) outcome" where
  "local_commit publish item require_durable s =
     (if require_durable then (Inl QueueError, s)
      else case publish item s of
        (Inl e, s') \<Rightarrow> (Inl e, s')
      | (Inr _, s') \<Rightarrow> (Inr False, s'))"

text \<open>\<open>_push_backend_prepared\<close> behind \<open>_prepare_backend_push\<close>: the receipt of the exact push.\<close>

definition push_backend_prepared ::
  "('tok, 's) queue_backend \<Rightarrow> string \<Rightarrow> rat \<Rightarrow> bytes \<Rightarrow> bool \<Rightarrow> 's \<Rightarrow> (bool, 's) outcome" where
  "push_backend_prepared B queue_name priority item require_durable s =
     push_with_durability B queue_name item priority require_durable s"

section \<open>Acknowledgement tokens\<close>

datatype settlement = Pending | Acked | Nacked

record ack_token =
  tk_state :: settlement
  tk_settlement_in_progress :: bool

definition new_ack_token :: ack_token where
  "new_ack_token = \<lparr>tk_state = Pending, tk_settlement_in_progress = False\<rparr>"

text \<open>
  \<open>_settle\<close> takes the state lock twice, around the backend call it makes without the lock. The
  three critical sections are separate steps, so that concurrent and re-entrant calls interleave.
  \<open>settle_reserve\<close> is \<open>None\<close> where the method returns early.
\<close>

definition settle_reserve :: "ack_token \<Rightarrow> ack_token option" where
  "settle_reserve tk =
     (if tk_state tk \<noteq> Pending \<or> tk_settlement_in_progress tk then None
      else Some (tk\<lparr>tk_settlement_in_progress := True\<rparr>))"

definition settle_rollback :: "ack_token \<Rightarrow> ack_token" where
  "settle_rollback tk = tk\<lparr>tk_settlement_in_progress := False\<rparr>"

definition settle_commit :: "settlement \<Rightarrow> ack_token \<Rightarrow> ack_token" where
  "settle_commit terminal tk = tk\<lparr>tk_state := terminal, tk_settlement_in_progress := False\<rparr>"

text \<open>
  The token with the threads inside \<open>_settle\<close> and the history of backend calls: which hook was
  called, and whether it returned normally.
\<close>

record token_sys =
  ts_token :: ack_token
  ts_inside :: "nat \<rightharpoonup> settlement"
  ts_calls :: "(settlement \<times> bool) list"

definition token_init :: token_sys where
  "token_init = \<lparr>ts_token = new_ack_token, ts_inside = Map.empty, ts_calls = []\<rparr>"

inductive token_step :: "token_sys \<Rightarrow> token_sys \<Rightarrow> bool" where
  enter: "ts_inside s i = None \<Longrightarrow> terminal \<in> {Acked, Nacked}
    \<Longrightarrow> settle_reserve (ts_token s) = Some tk
    \<Longrightarrow> token_step s (s\<lparr>ts_token := tk, ts_inside := (ts_inside s)(i \<mapsto> terminal)\<rparr>)"
| early_return: "ts_inside s i = None \<Longrightarrow> settle_reserve (ts_token s) = None
    \<Longrightarrow> token_step s s"
| returned: "ts_inside s i = Some terminal
    \<Longrightarrow> token_step s (s\<lparr>ts_token := settle_commit terminal (ts_token s),
          ts_inside := (ts_inside s)(i := None), ts_calls := ts_calls s @ [(terminal, True)]\<rparr>)"
| raised: "ts_inside s i = Some terminal
    \<Longrightarrow> token_step s (s\<lparr>ts_token := settle_rollback (ts_token s),
          ts_inside := (ts_inside s)(i := None), ts_calls := ts_calls s @ [(terminal, False)]\<rparr>)"

inductive token_reachable :: "token_sys \<Rightarrow> bool" where
  init: "token_reachable token_init"
| step: "token_reachable s \<Longrightarrow> token_step s t \<Longrightarrow> token_reachable t"

text \<open>
  The reservation flag says whether a thread is inside, at most one is, and the state records
  the one call that succeeded.
\<close>

definition token_inv :: "token_sys \<Rightarrow> bool" where
  "token_inv s \<longleftrightarrow>
     (tk_settlement_in_progress (ts_token s) \<longleftrightarrow> (\<exists>i. ts_inside s i \<noteq> None))
   \<and> (\<forall>i j. ts_inside s i \<noteq> None \<longrightarrow> ts_inside s j \<noteq> None \<longrightarrow> i = j)
   \<and> (\<forall>i t. ts_inside s i = Some t \<longrightarrow> t \<noteq> Pending)
   \<and> (tk_settlement_in_progress (ts_token s) \<longrightarrow> tk_state (ts_token s) = Pending)
   \<and> filter snd (ts_calls s)
       = (if tk_state (ts_token s) = Pending then [] else [(tk_state (ts_token s), True)])"

lemma token_inv_init: "token_inv token_init"
  by (simp add: token_inv_def token_init_def new_ack_token_def)

lemma token_inv_step: "token_step s t \<Longrightarrow> token_inv s \<Longrightarrow> token_inv t"
proof (induction rule: token_step.induct)
  case (enter s i terminal tk)
  then have "tk_state (ts_token s) = Pending" "\<not> tk_settlement_in_progress (ts_token s)"
    "tk = (ts_token s)\<lparr>tk_settlement_in_progress := True\<rparr>" "terminal \<noteq> Pending"
    by (auto simp: settle_reserve_def split: if_splits)
  moreover from this enter.prems have "\<forall>j. ts_inside s j = None"
    by (simp add: token_inv_def)
  ultimately show ?case using enter.prems by (simp add: token_inv_def)
next
  case (early_return s i)
  then show ?case by simp
next
  case (returned s i terminal)
  then have "tk_settlement_in_progress (ts_token s)" "tk_state (ts_token s) = Pending"
    "terminal \<noteq> Pending" "\<forall>j. j \<noteq> i \<longrightarrow> ts_inside s j = None"
    by (auto simp: token_inv_def)
  with returned.prems show ?case by (simp add: token_inv_def settle_commit_def)
next
  case (raised s i terminal)
  then have "tk_settlement_in_progress (ts_token s)" "tk_state (ts_token s) = Pending"
    "\<forall>j. j \<noteq> i \<longrightarrow> ts_inside s j = None"
    by (auto simp: token_inv_def)
  with raised.prems show ?case by (simp add: token_inv_def settle_rollback_def)
qed

lemma token_reachable_inv: "token_reachable s \<Longrightarrow> token_inv s"
  by (induction rule: token_reachable.induct) (auto intro: token_inv_init token_inv_step)

section \<open>Properties\<close>


lemma token_demo_reachable:
  "token_reachable (token_init\<lparr>ts_token := \<lparr>tk_state = Nacked, tk_settlement_in_progress = False\<rparr>,
     ts_calls := [(Nacked, True)]\<rparr>)"
proof -
  let ?s1 = "token_init\<lparr>ts_token := \<lparr>tk_state = Pending, tk_settlement_in_progress = True\<rparr>,
    ts_inside := [3 \<mapsto> Nacked]\<rparr>"
  have "token_step token_init ?s1"
    using token_step.enter [of token_init 3 Nacked "\<lparr>tk_state = Pending, tk_settlement_in_progress = True\<rparr>"]
    by (simp add: token_init_def new_ack_token_def settle_reserve_def)
  with token_reachable.init have "token_reachable ?s1" by (rule token_reachable.step)
  moreover have "token_step ?s1 (token_init\<lparr>ts_token := \<lparr>tk_state = Nacked, tk_settlement_in_progress = False\<rparr>,
     ts_calls := [(Nacked, True)]\<rparr>)"
    using token_step.returned [of ?s1 3 Nacked] by (simp add: token_init_def settle_commit_def)
  ultimately show ?thesis by (rule token_reachable.step)
qed


text \<open>
  A retry after a failed backend call stays possible: when the call raises, the token returns
  to the state in which the next settlement is admitted.
\<close>

lemma ack_token_retry_after_failure:
  assumes "token_reachable s" and "ts_inside s i = Some terminal"
  shows "\<exists>t. token_step s t \<and> ts_calls t = ts_calls s @ [(terminal, False)]
    \<and> settle_reserve (ts_token t) \<noteq> None"
proof -
  let ?t = "s\<lparr>ts_token := settle_rollback (ts_token s), ts_inside := (ts_inside s)(i := None),
    ts_calls := ts_calls s @ [(terminal, False)]\<rparr>"
  have "token_step s ?t" by (rule token_step.raised [OF assms(2)])
  moreover have "tk_state (ts_token s) = Pending"
    using token_reachable_inv [OF assms(1)] assms(2) by (auto simp: token_inv_def)
  ultimately show ?thesis
    by (intro exI [of _ ?t]) (simp add: settle_rollback_def settle_reserve_def)
qed

lemma token_demo_inside:
  "token_reachable (token_init\<lparr>ts_token := \<lparr>tk_state = Pending, tk_settlement_in_progress = True\<rparr>,
    ts_inside := [3 \<mapsto> Acked]\<rparr>)"
  using token_reachable.step [OF token_reachable.init
      token_step.enter [of token_init 3 Acked "\<lparr>tk_state = Pending, tk_settlement_in_progress = True\<rparr>"]]
  by (simp add: token_init_def new_ack_token_def settle_reserve_def)

end
