(* ===== verification/Strategy_Spec.thy ===== *)
theory Strategy_Spec
  imports Queue_Base
begin

text \<open>
  The contract a queue strategy that keeps its items in the process offers to \<open>BackendQueue\<close>: a
  bag of items with a non-blocking pop. \<open>ask_*\<close> name the strategy's methods on one logical queue;
  the source tag is passed to every push, as \<open>BackendQueue\<close> does, and a strategy may ignore it.

  The client lemmas hold for every strategy that meets the contract: no sequence of pushes and
  pops loses, invents or duplicates an item, and popping until the queue is empty returns
  everything it held.
\<close>

datatype qop = OpPush bytes string | OpPop

text \<open>Run a sequence of calls; collect the items whose push returned and the items popped.\<close>

fun run_ops ::
  "(bytes \<Rightarrow> string \<Rightarrow> 's \<Rightarrow> (unit, 's) outcome) \<Rightarrow> ('s \<Rightarrow> (bytes option, 's) outcome)
    \<Rightarrow> qop list \<Rightarrow> 's \<Rightarrow> bytes list \<times> bytes list \<times> 's" where
  "run_ops ask_push ask_pop [] s = ([], [], s)"
| "run_ops ask_push ask_pop (OpPush x src # ops) s =
     (case ask_push x src s of
        (Inl e, s') \<Rightarrow> run_ops ask_push ask_pop ops s'
      | (Inr _, s') \<Rightarrow> (case run_ops ask_push ask_pop ops s' of (a, p, t) \<Rightarrow> (x # a, p, t)))"
| "run_ops ask_push ask_pop (OpPop # ops) s =
     (case ask_pop s of
        (Inr (Some x), s') \<Rightarrow> (case run_ops ask_push ask_pop ops s' of (a, p, t) \<Rightarrow> (a, x # p, t))
      | (_, s') \<Rightarrow> run_ops ask_push ask_pop ops s')"

text \<open>Pop until the strategy answers \<open>None\<close>; the fuel is the reported length and is enough.\<close>

fun drain :: "('s \<Rightarrow> (bytes option, 's) outcome) \<Rightarrow> nat \<Rightarrow> 's \<Rightarrow> bytes list \<times> 's" where
  "drain ask_pop 0 s = ([], s)"
| "drain ask_pop (Suc n) s =
     (case ask_pop s of
        (Inr (Some x), s') \<Rightarrow> (case drain ask_pop n s' of (xs, t) \<Rightarrow> (x # xs, t))
      | (_, s') \<Rightarrow> ([], s'))"

locale bag_strategy =
  fixes ask_push :: "bytes \<Rightarrow> string \<Rightarrow> 's \<Rightarrow> (unit, 's) outcome"
    and ask_pop :: "'s \<Rightarrow> (bytes option, 's) outcome"
    and ask_len :: "'s \<Rightarrow> (nat, 's) outcome"
    and ask_clear :: "'s \<Rightarrow> (unit, 's) outcome"
    and content :: "'s \<Rightarrow> bytes multiset"
    and wf :: "'s \<Rightarrow> bool"
  assumes push_ok: "wf s \<Longrightarrow> ask_push x src s = (Inr (), s')
      \<Longrightarrow> wf s' \<and> content s' = add_mset x (content s)"
    and push_raises: "wf s \<Longrightarrow> ask_push x src s = (Inl e, s') \<Longrightarrow> wf s' \<and> content s' = content s"
    and pop_total: "wf s \<Longrightarrow> \<exists>r s'. ask_pop s = (Inr r, s')"
    and pop_none: "wf s \<Longrightarrow> ask_pop s = (Inr None, s') \<Longrightarrow> wf s' \<and> content s = {#} \<and> content s' = {#}"
    and pop_some: "wf s \<Longrightarrow> ask_pop s = (Inr (Some x), s')
      \<Longrightarrow> wf s' \<and> content s = add_mset x (content s')"
    and len_ok: "wf s \<Longrightarrow> ask_len s = (Inr (size (content s)), s)"
    and clear_ok: "wf s \<Longrightarrow> \<exists>s'. ask_clear s = (Inr (), s') \<and> wf s' \<and> content s' = {#}"
begin

lemma pop_cases [consumes 1, case_names none some]:
  assumes "wf s"
  obtains (none) s' where "ask_pop s = (Inr None, s')" "wf s'" "content s = {#}" "content s' = {#}"
  | (some) x s' where "ask_pop s = (Inr (Some x), s')" "wf s'" "content s = add_mset x (content s')"
proof -
  from pop_total [OF assms] obtain r s' where r: "ask_pop s = (Inr r, s')" by blast
  show thesis
  proof (cases r)
    case None
    with r pop_none [OF assms] that(1) show thesis by blast
  next
    case (Some x)
    with r pop_some [OF assms] that(2) show thesis by blast
  qed
qed

lemma run_ops_conserve:
  assumes "wf s" and "run_ops ask_push ask_pop ops s = (accepted, popped, t)"
  shows "wf t \<and> content s + mset accepted = mset popped + content t"
  using assms
proof (induction ops arbitrary: s accepted popped)
  case Nil
  then show ?case by simp
next
  case (Cons op ops)
  show ?case
  proof (cases op)
    case (OpPush x src)
    obtain r s' where r: "ask_push x src s = (r, s')" by (cases "ask_push x src s")
    show ?thesis
    proof (cases r)
      case (Inl e)
      have "wf s'" "content s' = content s"
        using push_raises [OF Cons.prems(1)] r Inl by simp_all
      moreover have "run_ops ask_push ask_pop ops s' = (accepted, popped, t)"
        using Cons.prems(2) OpPush r Inl by simp
      ultimately show ?thesis using Cons.IH [of s'] by simp
    next
      case (Inr u)
      obtain a where a: "run_ops ask_push ask_pop ops s' = (a, popped, t)" "accepted = x # a"
        using Cons.prems(2) OpPush r Inr by (auto split: prod.splits)
      have "wf s'" "content s' = add_mset x (content s)"
        using push_ok [OF Cons.prems(1)] r Inr by simp_all
      with Cons.IH [OF _ a(1)] a(2) show ?thesis by simp
    qed
  next
    case OpPop
    from Cons.prems(1) show ?thesis
    proof (cases rule: pop_cases)
      case (none s')
      with Cons.prems(2) OpPop Cons.IH [of s'] show ?thesis by simp
    next
      case (some x s')
      obtain p where p: "run_ops ask_push ask_pop ops s' = (accepted, p, t)" "popped = x # p"
        using Cons.prems(2) OpPop some(1) by (auto split: prod.splits)
      with Cons.IH [OF some(2) p(1)] some(3) show ?thesis by simp
    qed
  qed
qed

lemma drain_complete:
  assumes "wf s" and "n = size (content s)"
  shows "mset (fst (drain ask_pop n s)) = content s \<and> content (snd (drain ask_pop n s)) = {#} \<and> wf (snd (drain ask_pop n s))"
  using assms
proof (induction n arbitrary: s)
  case 0
  then show ?case by simp
next
  case (Suc n)
  from Suc.prems(1) show ?case
  proof (cases rule: pop_cases)
    case (none s')
    with Suc.prems(2) show ?thesis by simp
  next
    case (some x s')
    then have "n = size (content s')" using Suc.prems(2) by simp
    with Suc.IH [OF some(2)] some(1,3) show ?thesis by (auto split: prod.splits)
  qed
qed

end

end
