(* ===== verification/Ring_Buffer.thy ===== *)
theory Ring_Buffer
  imports Strategy_Spec "HOL-Library.Sublist"
begin

text \<open>
  \<open>queue/strategies/ring_buffer.py\<close>: the bounded in-process buffer.

  \<open>ring\<close> is the object's state. The body of \<open>push\<close> between two waits on the condition variable is
  one atomic \<open>ring_push_attempt\<close>; a blocked pusher is a thread that keeps its item and the
  generation it entered with, and may wake at any time, since a condition variable may wake
  spuriously. \<open>ring_step\<close> interleaves pushers, consumers and lifecycle calls; its history fields
  record what was admitted, what left the buffer and what \<open>pop\<close> returned.

  Shown: the capacity bound, first-in first-out order and freedom from loss or duplication under
  every interleaving, that a pusher blocked in an earlier lifecycle is never admitted, that a
  freed slot admits a blocked pusher, and that a snapshot restores to the same buffer. The
  strategy with the reject policy meets the contract \<open>bag_strategy\<close>.
\<close>

section \<open>State and construction\<close>

datatype full_policy = Reject | DropOldest | Block

record ring =
  rb_capacity :: nat
  rb_full_policy :: full_policy
  rb_buffer :: "bytes list"
  rb_dropped :: nat
  rb_closed :: bool
  rb_generation :: nat
  rb_bound :: "string option"

fun parse_full_policy :: "pyval \<Rightarrow> full_policy option" where
  "parse_full_policy (PyStr s) =
     (if s = ''reject'' then Some Reject
      else if s = ''drop_oldest'' then Some DropOldest
      else if s = ''block'' then Some Block else None)"
| "parse_full_policy _ = None"

definition ring_init :: "pyval \<Rightarrow> pyval \<Rightarrow> ring result" where
  "ring_init capacity policy =
     (case capacity of
        PyInt n \<Rightarrow>
          (if n < 1 then Inl ValueError
           else case parse_full_policy policy of
             None \<Rightarrow> Inl ValueError
           | Some p \<Rightarrow> Inr \<lparr>rb_capacity = nat n, rb_full_policy = p, rb_buffer = [], rb_dropped = 0,
                 rb_closed = False, rb_generation = 0, rb_bound = None\<rparr>)
      | _ \<Rightarrow> Inl ValueError)"

definition ring_bind :: "string \<Rightarrow> ring \<Rightarrow> (unit, ring) outcome" where
  "ring_bind q r = (case bind_single_queue q (rb_bound r) of (res, b) \<Rightarrow> (res, r\<lparr>rb_bound := b\<rparr>))"

section \<open>Push and pop\<close>

datatype attempt = Admitted | Raised exn | Waits

text \<open>One pass through the loop of \<open>push\<close>, with the lock held.\<close>

definition ring_push_attempt :: "bool \<Rightarrow> nat \<Rightarrow> bytes \<Rightarrow> ring \<Rightarrow> attempt \<times> ring" where
  "ring_push_attempt on_reactor gen item r =
     (if rb_closed r \<or> gen \<noteq> rb_generation r then (Raised QueueError, r)
      else if length (rb_buffer r) < rb_capacity r then
        (Admitted, r\<lparr>rb_buffer := rb_buffer r @ [item]\<rparr>)
      else if rb_full_policy r = Reject then (Raised QueueError, r)
      else if rb_full_policy r = DropOldest then
        (Admitted, r\<lparr>rb_buffer := tl (rb_buffer r) @ [item], rb_dropped := rb_dropped r + 1\<rparr>)
      else if on_reactor then (Raised QueueError, r)
      else (Waits, r))"

text \<open>The call: bind, take the lock, read the generation, first pass.\<close>

definition ring_push :: "bool \<Rightarrow> string \<Rightarrow> bytes \<Rightarrow> ring \<Rightarrow> attempt \<times> ring" where
  "ring_push on_reactor q item r =
     (case ring_bind q r of
        (Inl e, r') \<Rightarrow> (Raised e, r')
      | (Inr _, r') \<Rightarrow> ring_push_attempt on_reactor (rb_generation r') item r')"

definition ring_pop :: "string \<Rightarrow> pyval \<Rightarrow> ring \<Rightarrow> (bytes option, ring) outcome" where
  "ring_pop q timeout r =
     (case normalize_queue_timeout timeout of
        Inl e \<Rightarrow> (Inl e, r)
      | Inr _ \<Rightarrow>
          (case ring_bind q r of
             (Inl e, r') \<Rightarrow> (Inl e, r')
           | (Inr _, r') \<Rightarrow>
               (case rb_buffer r' of
                  [] \<Rightarrow> (Inr None, r')
                | x # xs \<Rightarrow> (Inr (Some x), r'\<lparr>rb_buffer := xs\<rparr>))))"

definition ring_queue_len :: "string \<Rightarrow> ring \<Rightarrow> (nat, ring) outcome" where
  "ring_queue_len q r =
     (case ring_bind q r of
        (Inl e, r') \<Rightarrow> (Inl e, r')
      | (Inr _, r') \<Rightarrow> (Inr (length (rb_buffer r')), r'))"

definition ring_clear :: "string \<Rightarrow> ring \<Rightarrow> (unit, ring) outcome" where
  "ring_clear q r =
     (case ring_bind q r of
        (Inl e, r') \<Rightarrow> (Inl e, r')
      | (Inr _, r') \<Rightarrow> (Inr (), r'\<lparr>rb_buffer := []\<rparr>))"

definition ring_open :: "ring \<Rightarrow> ring" where
  "ring_open r =
     (if rb_closed r then r\<lparr>rb_generation := rb_generation r + 1, rb_closed := False\<rparr> else r)"

definition ring_begin_close :: "ring \<Rightarrow> ring" where
  "ring_begin_close r = r\<lparr>rb_closed := True\<rparr>"

definition ring_close :: "ring \<Rightarrow> ring" where
  "ring_close r = ring_begin_close r"

section \<open>Snapshot and restore\<close>

definition ring_snapshot :: "ring \<Rightarrow> blob option" where
  "ring_snapshot r =
     (if rb_buffer r = [] \<and> rb_dropped r = 0 then None
      else Some (json_dumps (PyDict
        [(''version'', PyInt 1), (''strategy'', PyStr ''ring_buffer''),
         (''capacity'', PyInt (int (rb_capacity r))),
         (''items'', PyList (map (\<lambda>x. PyStr (b64encode x)) (rb_buffer r))),
         (''dropped'', PyInt (int (rb_dropped r)))])))"

text \<open>The validation part of \<open>restore\<close>: the decoded buffer and counter, or an exception.\<close>

definition ring_decode :: "nat \<Rightarrow> blob \<Rightarrow> (bytes list \<times> nat) result" where
  "ring_decode capacity state =
     rbind (json_loads state) (\<lambda>data.
       if py_get data ''strategy'' \<noteq> Some (PyStr ''ring_buffer'')
          \<or> py_get data ''version'' \<noteq> Some (PyInt 1) then Inl ValueError
       else
         rbind (as_list (py_get data ''items'')) (\<lambda>entries.
         rbind (rmap b64decode_val entries) (\<lambda>decoded.
         rbind (as_count (py_get data ''dropped'')) (\<lambda>dropped.
           Inr (keep_newest capacity decoded, dropped)))))"

definition ring_restore :: "blob option \<Rightarrow> ring \<Rightarrow> (unit, ring) outcome" where
  "ring_restore state r =
     (case state of
        None \<Rightarrow> (Inr (), r)
      | Some b \<Rightarrow>
          (case ring_decode (rb_capacity r) b of
             Inl _ \<Rightarrow> (Inl QueueStrategyRestoreError, r)
           | Inr (buf, dropped) \<Rightarrow> (Inr (), r\<lparr>rb_buffer := buf, rb_dropped := dropped\<rparr>)))"

section \<open>The capacity bound\<close>

definition ring_wf :: "ring \<Rightarrow> bool" where
  "ring_wf r \<longleftrightarrow> 1 \<le> rb_capacity r \<and> length (rb_buffer r) \<le> rb_capacity r"

lemma ring_init_wf: "ring_init c p = Inr r \<Longrightarrow> ring_wf r"
  by (auto simp: ring_init_def ring_wf_def split: pyval.splits option.splits if_splits)

lemma ring_bind_frame:
  "ring_bind q r = (res, r') \<Longrightarrow> r' = r\<lparr>rb_bound := rb_bound r'\<rparr>"
  by (auto simp: ring_bind_def split: prod.splits)

lemma ring_bind_bound [simp]: "rb_bound r = Some q \<Longrightarrow> ring_bind q r = (Inr (), r)"
  by (simp add: ring_bind_def)

lemma ring_wf_bind [simp]: "ring_wf (r\<lparr>rb_bound := b\<rparr>) = ring_wf r"
  by (simp add: ring_wf_def)

lemma ring_push_attempt_wf:
  "ring_wf r \<Longrightarrow> ring_push_attempt on_reactor g x r = (a, r') \<Longrightarrow> ring_wf r'"
  by (auto simp: ring_push_attempt_def ring_wf_def split: if_splits)

lemma ring_push_wf:
  assumes "ring_wf r" and "ring_push on_reactor q x r = (a, r')"
  shows "ring_wf r'"
proof -
  obtain res rb where b: "ring_bind q r = (res, rb)" by (cases "ring_bind q r")
  then have "ring_wf rb" using assms(1) ring_bind_frame [OF b] by (metis ring_wf_bind)
  then show ?thesis
    using assms(2) b by (auto simp: ring_push_def dest: ring_push_attempt_wf split: sum.splits)
qed

lemma ring_pop_wf: "ring_wf r \<Longrightarrow> ring_pop q t r = (a, r') \<Longrightarrow> ring_wf r'"
  by (auto simp: ring_pop_def ring_wf_def ring_bind_def split: sum.splits prod.splits list.splits)

lemma ring_clear_wf: "ring_wf r \<Longrightarrow> ring_clear q r = (a, r') \<Longrightarrow> ring_wf r'"
  by (auto simp: ring_clear_def ring_wf_def ring_bind_def split: sum.splits prod.splits)

lemma ring_decode_bound: "ring_decode c b = Inr (buf, d) \<Longrightarrow> length buf \<le> c"
  by (auto simp: ring_decode_def rbind_eq_Inr_iff length_keep_newest split: if_splits)

lemma ring_restore_wf: "ring_wf r \<Longrightarrow> ring_restore b r = (a, r') \<Longrightarrow> ring_wf r'"
  by (auto simp: ring_restore_def ring_wf_def
      dest: ring_decode_bound split: option.splits sum.splits)

lemma ring_lifecycle_wf:
  "ring_wf r \<Longrightarrow> ring_wf (ring_open r)" "ring_wf r \<Longrightarrow> ring_wf (ring_close r)"
  by (simp_all add: ring_open_def ring_close_def ring_begin_close_def ring_wf_def)

section \<open>Pushers, consumers and lifecycle calls interleaved\<close>

record ring_sys =
  rs_ring :: ring
  rs_blocked :: "nat \<rightharpoonup> bytes \<times> nat"
  rs_admitted :: "bytes list"
  rs_removed :: "bytes list"
  rs_popped :: "bytes list"
  rs_cleared :: nat

text \<open>
  What an admitted push does to the history: the item enters; under the drop-oldest policy on a
  full buffer, the oldest one leaves.
\<close>

definition ring_evicted :: "ring \<Rightarrow> bytes list" where
  "ring_evicted r =
     (if length (rb_buffer r) < rb_capacity r then [] else take 1 (rb_buffer r))"

definition admit :: "bytes \<Rightarrow> ring \<Rightarrow> ring_sys \<Rightarrow> ring_sys" where
  "admit item r' s = s\<lparr>rs_ring := r', rs_admitted := rs_admitted s @ [item],
     rs_removed := rs_removed s @ ring_evicted (rs_ring s)\<rparr>"

text \<open>
  \<open>push_enter\<close> and \<open>wake\<close> are passes through the loop of \<open>push\<close>; the other rules are one call
  each. The strategy is bound to its queue before it is shared between threads.
\<close>

inductive ring_step :: "ring_sys \<Rightarrow> ring_sys \<Rightarrow> bool" where
  push_admitted: "ring_push_attempt re (rb_generation (rs_ring s)) item (rs_ring s) = (Admitted, r')
    \<Longrightarrow> ring_step s (admit item r' s)"
| push_raised: "ring_push_attempt re (rb_generation (rs_ring s)) item (rs_ring s) = (Raised e, r')
    \<Longrightarrow> ring_step s (s\<lparr>rs_ring := r'\<rparr>)"
| push_blocks: "ring_push_attempt re (rb_generation (rs_ring s)) item (rs_ring s) = (Waits, r')
    \<Longrightarrow> rs_blocked s i = None
    \<Longrightarrow> ring_step s (s\<lparr>rs_ring := r',
          rs_blocked := (rs_blocked s)(i \<mapsto> (item, rb_generation (rs_ring s)))\<rparr>)"
| wake_admitted: "rs_blocked s i = Some (item, g)
    \<Longrightarrow> ring_push_attempt False g item (rs_ring s) = (Admitted, r')
    \<Longrightarrow> ring_step s (admit item r' (s\<lparr>rs_blocked := (rs_blocked s)(i := None)\<rparr>))"
| wake_raised: "rs_blocked s i = Some (item, g)
    \<Longrightarrow> ring_push_attempt False g item (rs_ring s) = (Raised e, r')
    \<Longrightarrow> ring_step s (s\<lparr>rs_ring := r', rs_blocked := (rs_blocked s)(i := None)\<rparr>)"
| wake_waits: "rs_blocked s i = Some (item, g)
    \<Longrightarrow> ring_push_attempt False g item (rs_ring s) = (Waits, r') \<Longrightarrow> ring_step s (s\<lparr>rs_ring := r'\<rparr>)"
| pop: "ring_pop q (PyFloat (Fin 0)) (rs_ring s) = (Inr (Some x), r')
    \<Longrightarrow> ring_step s (s\<lparr>rs_ring := r', rs_removed := rs_removed s @ [x],
          rs_popped := rs_popped s @ [x]\<rparr>)"
| pop_empty: "ring_pop q (PyFloat (Fin 0)) (rs_ring s) = (Inr None, r')
    \<Longrightarrow> ring_step s (s\<lparr>rs_ring := r'\<rparr>)"
| clear: "ring_clear q (rs_ring s) = (Inr (), r')
    \<Longrightarrow> ring_step s (s\<lparr>rs_ring := r', rs_removed := rs_removed s @ rb_buffer (rs_ring s),
          rs_cleared := rs_cleared s + length (rb_buffer (rs_ring s))\<rparr>)"
| open_ring: "ring_step s (s\<lparr>rs_ring := ring_open (rs_ring s)\<rparr>)"
| close_ring: "ring_step s (s\<lparr>rs_ring := ring_close (rs_ring s)\<rparr>)"

definition ring_start :: "ring \<Rightarrow> ring_sys" where
  "ring_start r = \<lparr>rs_ring = r, rs_blocked = Map.empty, rs_admitted = rb_buffer r,
     rs_removed = [], rs_popped = [], rs_cleared = 0\<rparr>"

inductive ring_reachable :: "ring \<Rightarrow> ring_sys \<Rightarrow> bool" for r0 where
  start: "ring_wf r0 \<Longrightarrow> ring_reachable r0 (ring_start r0)"
| next_step: "ring_reachable r0 s \<Longrightarrow> ring_step s t \<Longrightarrow> ring_reachable r0 t"

text \<open>
  The invariant: the buffer is a suffix of what was admitted, what \<open>pop\<close> returned left in order,
  and every departure is a pop, a counted eviction or a clear.
\<close>

definition ring_sys_inv :: "ring \<Rightarrow> ring_sys \<Rightarrow> bool" where
  "ring_sys_inv r0 s \<longleftrightarrow>
     ring_wf (rs_ring s)
   \<and> rs_admitted s = rs_removed s @ rb_buffer (rs_ring s)
   \<and> subseq (rs_popped s) (rs_removed s)
   \<and> length (rs_removed s) + rb_dropped r0
       = length (rs_popped s) + rs_cleared s + rb_dropped (rs_ring s)
   \<and> rb_capacity (rs_ring s) = rb_capacity r0
   \<and> (\<forall>i x g. rs_blocked s i = Some (x, g) \<longrightarrow> g \<le> rb_generation (rs_ring s))"

lemma ring_attempt_admitted:
  assumes "ring_push_attempt re g x r = (Admitted, r')" and "ring_wf r"
  shows "ring_evicted r @ rb_buffer r' = rb_buffer r @ [x]" and "rb_generation r' = rb_generation r"
    and "rb_capacity r' = rb_capacity r"
    and "rb_dropped r' = rb_dropped r + length (ring_evicted r)"
  using assms
  by (cases "rb_buffer r"; auto simp: ring_push_attempt_def ring_evicted_def ring_wf_def split: if_splits)+

lemma ring_attempt_not_admitted:
  "ring_push_attempt re g x r = (Raised e, r') \<Longrightarrow> r' = r"
  "ring_push_attempt re g x r = (Waits, r') \<Longrightarrow> r' = r"
  by (auto simp: ring_push_attempt_def split: if_splits)

lemma ring_sys_inv_admit:
  assumes inv: "ring_sys_inv r0 s" and att: "ring_push_attempt re g x (rs_ring s) = (Admitted, r')"
    and bl: "\<forall>i. B i = None \<or> B i = rs_blocked s i"
  shows "ring_sys_inv r0 (admit x r' (s\<lparr>rs_blocked := B\<rparr>))"
proof -
  have wf: "ring_wf (rs_ring s)" using inv by (simp add: ring_sys_inv_def)
  note a = ring_attempt_admitted [OF att wf]
  have "ring_wf r'" by (rule ring_push_attempt_wf [OF wf att])
  moreover have "rs_admitted s @ [x] = rs_removed s @ ring_evicted (rs_ring s) @ rb_buffer r'"
    using inv a(1) by (simp add: ring_sys_inv_def)
  moreover have "subseq (rs_popped s) (rs_removed s @ ring_evicted (rs_ring s))"
    using inv by (simp add: ring_sys_inv_def subseq_rev_drop_many)
  ultimately show ?thesis
    using inv bl a(2-) by (auto simp: ring_sys_inv_def admit_def) (metis option.distinct(1))
qed

lemma ring_pop_shape:
  "ring_pop q t r = (Inr (Some x), r') \<Longrightarrow> rb_buffer r = x # rb_buffer r' \<and> rb_generation r' = rb_generation r
      \<and> rb_dropped r' = rb_dropped r \<and> rb_capacity r' = rb_capacity r"
  "ring_pop q t r = (Inr None, r') \<Longrightarrow> rb_buffer r = [] \<and> rb_buffer r' = [] \<and> rb_generation r' = rb_generation r
      \<and> rb_dropped r' = rb_dropped r \<and> rb_capacity r' = rb_capacity r"
  by (auto simp: ring_pop_def ring_bind_def split: sum.splits prod.splits list.splits)

lemma ring_clear_shape:
  "ring_clear q r = (Inr (), r') \<Longrightarrow> rb_buffer r' = [] \<and> rb_generation r' = rb_generation r
      \<and> rb_dropped r' = rb_dropped r \<and> rb_capacity r' = rb_capacity r"
  by (auto simp: ring_clear_def ring_bind_def split: sum.splits prod.splits)

lemma ring_step_inv: "ring_step s t \<Longrightarrow> ring_sys_inv r0 s \<Longrightarrow> ring_sys_inv r0 t"
proof (induction rule: ring_step.induct)
  case (push_admitted re s item r')
  then show ?case using ring_sys_inv_admit [of r0 s re _ item r' "rs_blocked s"] by simp
next
  case (push_raised re s item e r')
  then show ?case by (auto simp: ring_sys_inv_def dest: ring_attempt_not_admitted)
next
  case (push_blocks re s item r' i)
  then show ?case by (auto simp: ring_sys_inv_def dest: ring_attempt_not_admitted)
next
  case (wake_admitted s i item g r')
  then show ?case using ring_sys_inv_admit [of r0 s False g item r' "(rs_blocked s)(i := None)"] by simp
next
  case (wake_raised s i item g e r')
  then show ?case by (auto simp: ring_sys_inv_def dest: ring_attempt_not_admitted split: if_splits)
next
  case (wake_waits s i item g r')
  then show ?case by (auto simp: ring_sys_inv_def dest: ring_attempt_not_admitted)
next
  case (pop q s x r')
  then show ?case
    using ring_pop_shape(1) [OF pop.hyps] ring_pop_wf [OF _ pop.hyps]
    by (auto simp: ring_sys_inv_def)
next
  case (pop_empty q s r')
  then show ?case
    using ring_pop_shape(2) [OF pop_empty.hyps] ring_pop_wf [OF _ pop_empty.hyps]
    by (auto simp: ring_sys_inv_def)
next
  case (clear q s r')
  then show ?case
    using ring_clear_shape [OF clear.hyps] ring_clear_wf [OF _ clear.hyps]
    by (auto simp: ring_sys_inv_def)
next
  case (open_ring s)
  then show ?case
    using ring_lifecycle_wf(1) [of "rs_ring s"]
    by (auto simp: ring_sys_inv_def ring_open_def split: if_splits intro: le_SucI)
next
  case (close_ring s)
  then show ?case
    using ring_lifecycle_wf(2) [of "rs_ring s"]
    by (auto simp: ring_sys_inv_def ring_close_def ring_begin_close_def)
qed

lemma ring_reachable_inv: "ring_reachable r0 s \<Longrightarrow> ring_sys_inv r0 s"
proof (induction rule: ring_reachable.induct)
  case start
  then show ?case by (simp add: ring_sys_inv_def ring_start_def)
next
  case (next_step s t)
  then show ?case by (blast intro: ring_step_inv)
qed

text \<open>A pusher's generation is stale once its lifecycle has closed, and stays so.\<close>

definition stale :: "nat \<Rightarrow> ring \<Rightarrow> bool" where
  "stale g r \<longleftrightarrow> g < rb_generation r \<or> (g = rb_generation r \<and> rb_closed r)"

lemma stale_rejected: "stale g r \<Longrightarrow> ring_push_attempt re g x r = (Raised QueueError, r)"
  by (auto simp: stale_def ring_push_attempt_def)

lemma ring_push_attempt_lifecycle:
  "ring_push_attempt re g x r = (a, r')
    \<Longrightarrow> rb_generation r' = rb_generation r \<and> rb_closed r' = rb_closed r"
  by (auto simp: ring_push_attempt_def split: if_splits)

lemma ring_pop_lifecycle:
  "ring_pop q t r = (a, r') \<Longrightarrow> rb_generation r' = rb_generation r \<and> rb_closed r' = rb_closed r"
  by (auto simp: ring_pop_def ring_bind_def split: sum.splits prod.splits list.splits)

lemma ring_clear_lifecycle:
  "ring_clear q r = (a, r') \<Longrightarrow> rb_generation r' = rb_generation r \<and> rb_closed r' = rb_closed r"
  by (auto simp: ring_clear_def ring_bind_def split: sum.splits prod.splits)

lemma stale_step: "ring_step s t \<Longrightarrow> stale g (rs_ring s) \<Longrightarrow> stale g (rs_ring t)"
proof (induction rule: ring_step.induct)
  case (open_ring s)
  then show ?case by (auto simp: stale_def ring_open_def)
next
  case (close_ring s)
  then show ?case by (auto simp: stale_def ring_close_def ring_begin_close_def)
qed (auto simp: stale_def admit_def
      dest: ring_push_attempt_lifecycle ring_pop_lifecycle ring_clear_lifecycle)

lemma stale_steps: "ring_step\<^sup>*\<^sup>* s t \<Longrightarrow> stale g (rs_ring s) \<Longrightarrow> stale g (rs_ring t)"
  by (induction rule: rtranclp_induct) (auto intro: stale_step)

section \<open>The strategy contract\<close>

text \<open>
  The reject policy never waits, so a push is a call that returns or raises. \<open>ring_put\<close> is the
  push as a client without threads sees it; the waiting case is unreachable under that policy.
\<close>

definition ring_put :: "string \<Rightarrow> bytes \<Rightarrow> string \<Rightarrow> ring \<Rightarrow> (unit, ring) outcome" where
  "ring_put q item source r =
     (case ring_push False q item r of
        (Admitted, r') \<Rightarrow> (Inr (), r')
      | (Raised e, r') \<Rightarrow> (Inl e, r')
      | (Waits, r') \<Rightarrow> (Inl QueueError, r'))"

definition ring_get :: "string \<Rightarrow> ring \<Rightarrow> (bytes option, ring) outcome" where
  "ring_get q r = ring_pop q (PyFloat (Fin 0)) r"

definition ring_client_wf :: "string \<Rightarrow> ring \<Rightarrow> bool" where
  "ring_client_wf q r \<longleftrightarrow> ring_wf r \<and> rb_full_policy r = Reject \<and> rb_bound r = Some q"

interpretation ringq: bag_strategy "ring_put q" "ring_get q" "ring_queue_len q" "ring_clear q"
  "\<lambda>r. mset (rb_buffer r)" "ring_client_wf q" for q
proof
  fix s s' :: ring and x src and e :: exn
  assume wf: "ring_client_wf q s"
  show "ring_client_wf q s' \<and> mset (rb_buffer s') = add_mset x (mset (rb_buffer s))"
    if "ring_put q x src s = (Inr (), s')"
    using wf that by (auto simp: ring_put_def ring_client_wf_def ring_push_def ring_push_attempt_def
        ring_wf_def split: if_splits)
  show "ring_client_wf q s' \<and> mset (rb_buffer s') = mset (rb_buffer s)"
    if "ring_put q x src s = (Inl e, s')"
    using wf that by (auto simp: ring_put_def ring_client_wf_def ring_push_def ring_push_attempt_def
        ring_wf_def split: if_splits)
next
  fix s :: ring
  assume wf: "ring_client_wf q s"
  show "\<exists>r s'. ring_get q s = (Inr r, s')"
    using wf by (auto simp: ring_get_def ring_pop_def ring_client_wf_def split: list.splits)
  show "ring_queue_len q s = (Inr (size (mset (rb_buffer s))), s)"
    using wf by (simp add: ring_queue_len_def ring_client_wf_def)
  show "\<exists>s'. ring_clear q s = (Inr (), s') \<and> ring_client_wf q s' \<and> mset (rb_buffer s') = {#}"
    using wf by (simp add: ring_clear_def ring_client_wf_def ring_wf_def)
next
  fix s s' :: ring
  assume wf: "ring_client_wf q s"
  show "ring_client_wf q s' \<and> mset (rb_buffer s) = {#} \<and> mset (rb_buffer s') = {#}"
    if "ring_get q s = (Inr None, s')"
    using wf that by (auto simp: ring_get_def ring_pop_def ring_client_wf_def split: list.splits)
  show "ring_client_wf q s' \<and> mset (rb_buffer s) = add_mset x (mset (rb_buffer s'))"
    if "ring_get q s = (Inr (Some x), s')" for x
    using wf that
    by (auto simp: ring_get_def ring_pop_def ring_client_wf_def ring_wf_def split: list.splits)
qed

section \<open>Properties\<close>

text \<open>
  C1. Ring buffer under every interleaving of pushers, consumers and lifecycle calls: the buffer
  never exceeds the configured capacity; what was admitted is what left followed by what is still
  buffered, in order; \<open>pop\<close> returned a subsequence of what left; and every departure is a pop, a
  clear, or an eviction that the dropped counter counted.
\<close>

theorem ring_interleaving_safe:
  assumes "ring_reachable r0 s"
  shows "length (rb_buffer (rs_ring s)) \<le> rb_capacity r0
    \<and> rs_admitted s = rs_removed s @ rb_buffer (rs_ring s)
    \<and> subseq (rs_popped s) (rs_removed s)
    \<and> length (rs_removed s) + rb_dropped r0
        = length (rs_popped s) + rs_cleared s + rb_dropped (rs_ring s)"
  using ring_reachable_inv [OF assms] by (simp add: ring_sys_inv_def ring_wf_def)

definition ring_demo :: "full_policy \<Rightarrow> bytes list \<Rightarrow> bool \<Rightarrow> ring" where
  "ring_demo p xs c = \<lparr>rb_capacity = 2, rb_full_policy = p, rb_buffer = xs, rb_dropped = 0,
     rb_closed = c, rb_generation = 0, rb_bound = Some ''q''\<rparr>"

lemma ring_demo_reachable:
  "ring_reachable (ring_demo DropOldest [[1], [2]] False)
     (admit [3] ((ring_demo DropOldest [[2], [3]] False)\<lparr>rb_dropped := 1\<rparr>)
        (ring_start (ring_demo DropOldest [[1], [2]] False)))"
  by (rule ring_reachable.next_step [OF ring_reachable.start ring_step.push_admitted])
    (simp_all add: ring_wf_def ring_demo_def ring_start_def ring_push_attempt_def)

theorem ring_interleaving_safe_witness:
  "length (rb_buffer (rs_ring (admit [3] ((ring_demo DropOldest [[2], [3]] False)\<lparr>rb_dropped := 1\<rparr>)
        (ring_start (ring_demo DropOldest [[1], [2]] False))))) \<le> 2"
  using ring_interleaving_safe [OF ring_demo_reachable] by (simp add: ring_demo_def)

text \<open>
  Lifecycle fence: once the lifecycle a blocked pusher entered in has closed, every later pass
  of that pusher through the loop of \<open>push\<close> raises \<open>QueueError\<close> and leaves the buffer alone, however
  often the strategy is reopened or popped in between.
\<close>

lemma ring_stale_pusher_never_admitted:
  assumes "ring_reachable r0 s" and "rs_blocked s i = Some (x, g)" and "rb_closed (rs_ring s)"
    and "ring_step\<^sup>*\<^sup>* s t"
  shows "ring_push_attempt False g x (rs_ring t) = (Raised QueueError, rs_ring t)"
proof -
  have "g \<le> rb_generation (rs_ring s)"
    using ring_reachable_inv [OF assms(1)] assms(2) by (auto simp: ring_sys_inv_def)
  with assms(3) have "stale g (rs_ring s)" by (auto simp: stale_def)
  with assms(4) have "stale g (rs_ring t)" by (rule stale_steps)
  then show ?thesis by (rule stale_rejected)
qed

definition ring_demo_closed :: ring_sys where
  "ring_demo_closed = (ring_start (ring_demo Block [[1], [2]] False))
     \<lparr>rs_ring := ring_demo Block [[1], [2]] True, rs_blocked := [7 \<mapsto> ([3], 0)]\<rparr>"

lemma ring_demo_closed_reachable: "ring_reachable (ring_demo Block [[1], [2]] False) ring_demo_closed"
proof -
  let ?s0 = "ring_start (ring_demo Block [[1], [2]] False)"
  let ?s1 = "?s0\<lparr>rs_ring := rs_ring ?s0, rs_blocked := (rs_blocked ?s0)(7 \<mapsto> ([3], rb_generation (rs_ring ?s0)))\<rparr>"
  have r0: "ring_reachable (ring_demo Block [[1], [2]] False) ?s0"
    by (rule ring_reachable.start) (simp add: ring_wf_def ring_demo_def)
  have s1: "ring_step ?s0 ?s1"
    by (rule ring_step.push_blocks [where re = False])
      (simp_all add: ring_push_attempt_def ring_demo_def ring_start_def)
  have eq: "?s1\<lparr>rs_ring := ring_close (rs_ring ?s1)\<rparr> = ring_demo_closed"
    by (simp add: ring_demo_closed_def ring_start_def ring_demo_def ring_close_def ring_begin_close_def)
  have "ring_reachable (ring_demo Block [[1], [2]] False) (?s1\<lparr>rs_ring := ring_close (rs_ring ?s1)\<rparr>)"
    by (rule ring_reachable.next_step [OF ring_reachable.next_step [OF r0 s1] ring_step.close_ring])
  then show ?thesis unfolding eq .
qed

text \<open>
  Progress of the block policy: after a pop from a full, open buffer, the next pass of a
  pusher of the current lifecycle is admitted, behind the items already buffered.
\<close>

lemma ring_pop_admits_blocked_pusher:
  assumes "ring_wf r" and "\<not> rb_closed r" and "ring_pop q t r = (Inr (Some y), r')"
  shows "ring_push_attempt re (rb_generation r) x r' = (Admitted, r'\<lparr>rb_buffer := tl (rb_buffer r) @ [x]\<rparr>)"
proof -
  have s: "rb_buffer r = y # rb_buffer r'" "rb_generation r' = rb_generation r"
    "rb_capacity r' = rb_capacity r"
    using ring_pop_shape(1) [OF assms(3)] by simp_all
  moreover have "\<not> rb_closed r'" using ring_pop_lifecycle [OF assms(3)] assms(2) by simp
  moreover have "length (rb_buffer r') < rb_capacity r'" using assms(1) s by (simp add: ring_wf_def)
  ultimately show ?thesis by (simp add: ring_push_attempt_def)
qed

text \<open>
  Snapshot round trip: restoring a ring buffer's snapshot into a fresh strategy recovers the
  newest items up to the new capacity, in order, and the dropped counter.
\<close>

lemma ring_snapshot_restore:
  assumes "rb_buffer r2 = []" and "rb_dropped r2 = 0"
  shows "ring_restore (ring_snapshot r) r2
    = (Inr (), r2\<lparr>rb_buffer := keep_newest (rb_capacity r2) (rb_buffer r), rb_dropped := rb_dropped r\<rparr>)"
proof (cases "rb_buffer r = [] \<and> rb_dropped r = 0")
  case True
  with assms show ?thesis by (cases r2) (simp add: ring_snapshot_def ring_restore_def)
next
  case False
  have "rmap b64decode_val (map (\<lambda>x. PyStr (b64encode x)) (rb_buffer r)) = Inr (rb_buffer r)"
    by (rule rmap_b64_encoded)
  with False show ?thesis
    by (auto simp: ring_snapshot_def ring_restore_def ring_decode_def)
qed

text \<open>
  Conservation for a single client of a reject-policy ring buffer: whatever sequence of pushes
  and pops is run, the items present at the start and the items whose push returned are exactly
  the items popped and the items still buffered.
\<close>

lemma ring_reject_conserves_items:
  assumes "ring_client_wf q r" and "run_ops (ring_put q) (ring_get q) ops r = (accepted, popped, r')"
  shows "mset (rb_buffer r) + mset accepted = mset popped + mset (rb_buffer r')"
  using ringq.run_ops_conserve [OF assms] by simp

end
