(* ===== verification/Round_Robin.thy ===== *)
theory Round_Robin
  imports Strategy_Spec
begin

text \<open>
  \<open>queue/strategies/round_robin.py\<close>: fair dispatch across source tags, held in the process.

  The ordered dict of deques is an association list in insertion order; its first entry is the
  rotation cursor. \<open>rr_pop_loop\<close> is the loop of \<open>pop\<close>, with its skipping of drained sources.

  Shown: the state invariant (distinct sources, none of them empty), the fairness bound that
  makes starvation impossible under arbitrary interleaved pushes, one full rotation, order within
  a source, conservation through the contract \<open>bag_strategy\<close>, and the snapshot round trip with
  its cursor.
\<close>

section \<open>State and operations\<close>

type_synonym sources = "(string \<times> bytes list) list"

record rr =
  rr_sources :: sources
  rr_bound :: "string option"

definition rr_init :: rr where
  "rr_init = \<lparr>rr_sources = [], rr_bound = None\<rparr>"

definition rr_bind :: "string \<Rightarrow> rr \<Rightarrow> (unit, rr) outcome" where
  "rr_bind q r = (case bind_single_queue q (rr_bound r) of (res, b) \<Rightarrow> (res, r\<lparr>rr_bound := b\<rparr>))"

text \<open>Append to the deque of \<open>source\<close>, creating it at the end of the dict when absent.\<close>

fun rr_append :: "string \<Rightarrow> bytes \<Rightarrow> sources \<Rightarrow> sources" where
  "rr_append source item [] = [(source, [item])]"
| "rr_append source item ((s, dq) # rest) =
     (if s = source then (s, dq @ [item]) # rest else (s, dq) # rr_append source item rest)"

definition rr_push :: "string \<Rightarrow> bytes \<Rightarrow> string \<Rightarrow> rr \<Rightarrow> (unit, rr) outcome" where
  "rr_push q item source r =
     (case rr_bind q r of
        (Inl e, r') \<Rightarrow> (Inl e, r')
      | (Inr _, r') \<Rightarrow> (Inr (), r'\<lparr>rr_sources := rr_append source item (rr_sources r')\<rparr>))"

fun rr_pop_loop :: "sources \<Rightarrow> bytes option \<times> sources" where
  "rr_pop_loop [] = (None, [])"
| "rr_pop_loop ((s, []) # rest) = rr_pop_loop rest"
| "rr_pop_loop ((s, item # dq) # rest) =
     (Some item, if dq \<noteq> [] then rest @ [(s, dq)] else rest)"

definition rr_pop :: "string \<Rightarrow> pyval \<Rightarrow> rr \<Rightarrow> (bytes option, rr) outcome" where
  "rr_pop q timeout r =
     (case normalize_queue_timeout timeout of
        Inl e \<Rightarrow> (Inl e, r)
      | Inr _ \<Rightarrow>
          (case rr_bind q r of
             (Inl e, r') \<Rightarrow> (Inl e, r')
           | (Inr _, r') \<Rightarrow>
               (case rr_pop_loop (rr_sources r') of (x, ss) \<Rightarrow> (Inr x, r'\<lparr>rr_sources := ss\<rparr>))))"

definition rr_queue_len :: "string \<Rightarrow> rr \<Rightarrow> (nat, rr) outcome" where
  "rr_queue_len q r =
     (case rr_bind q r of
        (Inl e, r') \<Rightarrow> (Inl e, r')
      | (Inr _, r') \<Rightarrow> (Inr (sum_list (map (length \<circ> snd) (rr_sources r'))), r'))"

definition rr_clear :: "string \<Rightarrow> rr \<Rightarrow> (unit, rr) outcome" where
  "rr_clear q r =
     (case rr_bind q r of
        (Inl e, r') \<Rightarrow> (Inl e, r')
      | (Inr _, r') \<Rightarrow> (Inr (), r'\<lparr>rr_sources := []\<rparr>))"

section \<open>Snapshot and restore\<close>

definition rr_encode_entry :: "string \<times> bytes list \<Rightarrow> pyval" where
  "rr_encode_entry e = PyDict
     [(''source'', PyStr (fst e)),
      (''items'', PyList (map (\<lambda>x. PyStr (b64encode x)) (snd e)))]"

definition rr_snapshot :: "rr \<Rightarrow> blob option" where
  "rr_snapshot r =
     (let live = filter (\<lambda>e. snd e \<noteq> []) (rr_sources r) in
      if live = [] then None
      else Some (json_dumps (PyDict
        [(''version'', PyInt 1), (''strategy'', PyStr ''round_robin''),
         (''sources'', PyList (map rr_encode_entry live))])))"

text \<open>The validation loop of \<open>restore\<close>; \<open>seen\<close> is \<open>seen_sources\<close>.\<close>

fun rr_decode_entries :: "pyval list \<Rightarrow> string list \<Rightarrow> sources result" where
  "rr_decode_entries [] seen = Inr []"
| "rr_decode_entries (entry # rest) seen =
     (case (py_get entry ''source'', py_get entry ''items'') of
        (Some (PyStr source), Some (PyList raw_items)) \<Rightarrow>
          (if source \<in> set seen then Inl ValueError
           else rbind (rmap b64decode_val raw_items) (\<lambda>items.
                rbind (rr_decode_entries rest (source # seen)) (\<lambda>ss.
                  Inr (if items \<noteq> [] then (source, items) # ss else ss))))
      | _ \<Rightarrow> Inl ValueError)"

definition rr_decode :: "blob \<Rightarrow> sources result" where
  "rr_decode state =
     rbind (json_loads state) (\<lambda>data.
       if py_get data ''strategy'' \<noteq> Some (PyStr ''round_robin'')
          \<or> py_get data ''version'' \<noteq> Some (PyInt 1) then Inl ValueError
       else rbind (as_list (py_get data ''sources'')) (\<lambda>entries. rr_decode_entries entries []))"

definition rr_restore :: "blob option \<Rightarrow> rr \<Rightarrow> (unit, rr) outcome" where
  "rr_restore state r =
     (case state of
        None \<Rightarrow> (Inr (), r)
      | Some b \<Rightarrow>
          (case rr_decode b of
             Inl _ \<Rightarrow> (Inl QueueStrategyRestoreError, r)
           | Inr ss \<Rightarrow> (Inr (), r\<lparr>rr_sources := ss\<rparr>)))"

section \<open>The invariant\<close>

definition sources_wf :: "sources \<Rightarrow> bool" where
  "sources_wf ss \<longleftrightarrow> distinct (map fst ss) \<and> (\<forall>e \<in> set ss. snd e \<noteq> [])"

definition all_items :: "sources \<Rightarrow> bytes multiset" where
  "all_items ss = sum_list (map (mset \<circ> snd) ss)"

lemma fst_rr_append:
  "map fst (rr_append s x ss) = (if s \<in> fst ` set ss then map fst ss else map fst ss @ [s])"
  by (induction s x ss rule: rr_append.induct) auto

lemma rr_append_wf: "sources_wf ss \<Longrightarrow> sources_wf (rr_append s x ss)"
proof -
  assume wf: "sources_wf ss"
  have "\<forall>e \<in> set (rr_append s x ss). snd e \<noteq> []"
    using wf by (induction s x ss rule: rr_append.induct) (auto simp: sources_wf_def)
  moreover have "distinct (map fst (rr_append s x ss))"
    using wf by (auto simp: fst_rr_append sources_wf_def)
  ultimately show ?thesis by (simp add: sources_wf_def)
qed

lemma rr_pop_loop_wf:
  assumes "sources_wf ss"
  shows "rr_pop_loop ss =
    (case ss of [] \<Rightarrow> (None, [])
     | (s, dq) # rest \<Rightarrow> (Some (hd dq), if tl dq \<noteq> [] then rest @ [(s, tl dq)] else rest))"
  using assms by (cases ss rule: rr_pop_loop.cases) (auto simp: sources_wf_def)

lemma rr_pop_loop_keeps_wf: "sources_wf ss \<Longrightarrow> sources_wf (snd (rr_pop_loop ss))"
  by (induction ss rule: rr_pop_loop.induct) (auto simp: sources_wf_def)

lemma rr_decode_entries_wf:
  "rr_decode_entries es seen = Inr ss
    \<Longrightarrow> sources_wf ss \<and> fst ` set ss \<inter> set seen = {}"
proof (induction es arbitrary: seen ss)
  case Nil
  then show ?case by (simp add: sources_wf_def)
next
  case (Cons entry rest)
  from Cons.prems obtain source raw items ss' where d:
    "py_get entry ''source'' = Some (PyStr source)" "py_get entry ''items'' = Some (PyList raw)"
    "source \<notin> set seen" "rmap b64decode_val raw = Inr items"
    "rr_decode_entries rest (source # seen) = Inr ss'"
    "ss = (if items \<noteq> [] then (source, items) # ss' else ss')"
    by (auto simp: rbind_eq_Inr_iff split: option.splits pyval.splits if_splits)
  have "sources_wf ss' \<and> fst ` set ss' \<inter> set (source # seen) = {}"
    by (rule Cons.IH [OF d(5)])
  with d(3,6) show ?case by (auto simp: sources_wf_def)
qed

lemma rr_restore_wf: "sources_wf (rr_sources r) \<Longrightarrow> sources_wf (rr_sources (snd (rr_restore b r)))"
  by (auto simp: rr_restore_def rr_decode_def rbind_eq_Inr_iff
      dest: rr_decode_entries_wf split: option.splits sum.splits if_splits)

section \<open>The strategy contract\<close>

definition rr_get :: "string \<Rightarrow> rr \<Rightarrow> (bytes option, rr) outcome" where
  "rr_get q r = rr_pop q (PyFloat (Fin 0)) r"

definition rr_client_wf :: "string \<Rightarrow> rr \<Rightarrow> bool" where
  "rr_client_wf q r \<longleftrightarrow> sources_wf (rr_sources r) \<and> rr_bound r = Some q"

lemma rr_bind_bound [simp]: "rr_bound r = Some q \<Longrightarrow> rr_bind q r = (Inr (), r)"
  by (simp add: rr_bind_def)

lemma all_items_append [simp]: "all_items (rr_append s x ss) = add_mset x (all_items ss)"
  by (induction s x ss rule: rr_append.induct) (auto simp: all_items_def)

lemma all_items_simps [simp]:
  "all_items [] = {#}" "all_items (e # ss) = mset (snd e) + all_items ss"
  "all_items (ss @ ts) = all_items ss + all_items ts"
  by (simp_all add: all_items_def)

lemma all_items_pop:
  "sources_wf ss \<Longrightarrow> rr_pop_loop ss = (Some x, ss') \<Longrightarrow> all_items ss = add_mset x (all_items ss')"
  "sources_wf ss \<Longrightarrow> rr_pop_loop ss = (None, ss') \<Longrightarrow> ss = [] \<and> ss' = []"
  by (cases ss rule: rr_pop_loop.cases; auto simp: sources_wf_def split: if_splits)+

lemma size_all_items: "size (all_items ss) = sum_list (map (length \<circ> snd) ss)"
  by (induction ss) auto

lemma rr_push_bound [simp]:
  "rr_bound r = Some q
    \<Longrightarrow> rr_push q x src r = (Inr (), r\<lparr>rr_sources := rr_append src x (rr_sources r)\<rparr>)"
  by (simp add: rr_push_def)

lemma rr_get_bound [simp]:
  "rr_bound r = Some q \<Longrightarrow> rr_get q r
     = (Inr (fst (rr_pop_loop (rr_sources r))), r\<lparr>rr_sources := snd (rr_pop_loop (rr_sources r))\<rparr>)"
  by (simp add: rr_get_def rr_pop_def split: prod.splits)

interpretation rrq: bag_strategy "rr_push q" "rr_get q" "rr_queue_len q" "rr_clear q"
  "\<lambda>r. all_items (rr_sources r)" "rr_client_wf q" for q
proof
  fix s s' :: rr and x src
  assume wf: "rr_client_wf q s"
  show "rr_client_wf q s' \<and> all_items (rr_sources s') = add_mset x (all_items (rr_sources s))"
    if "rr_push q x src s = (Inr (), s')"
    using wf that by (auto simp: rr_client_wf_def rr_append_wf)
  show "rr_client_wf q s' \<and> all_items (rr_sources s') = all_items (rr_sources s)"
    if "rr_push q x src s = (Inl e, s')" for e
    using wf that by (simp add: rr_client_wf_def)
  show "\<exists>r s'. rr_get q s = (Inr r, s')"
    using wf by (simp add: rr_client_wf_def)
  show "rr_client_wf q s' \<and> all_items (rr_sources s) = {#} \<and> all_items (rr_sources s') = {#}"
    if "rr_get q s = (Inr None, s')"
    using wf that all_items_pop(2) [of "rr_sources s"]
    by (cases "rr_pop_loop (rr_sources s)") (auto simp: rr_client_wf_def sources_wf_def)
  show "rr_client_wf q s' \<and> all_items (rr_sources s) = add_mset x (all_items (rr_sources s'))"
    if "rr_get q s = (Inr (Some x), s')" for x
    using wf that all_items_pop(1) [of "rr_sources s"] rr_pop_loop_keeps_wf [of "rr_sources s"]
    by (cases "rr_pop_loop (rr_sources s)") (auto simp: rr_client_wf_def)
  show "rr_queue_len q s = (Inr (size (all_items (rr_sources s))), s)"
    using wf by (simp add: rr_queue_len_def rr_client_wf_def size_all_items)
  show "\<exists>s'. rr_clear q s = (Inr (), s') \<and> rr_client_wf q s' \<and> all_items (rr_sources s') = {#}"
    using wf by (simp add: rr_clear_def rr_client_wf_def sources_wf_def)
qed

section \<open>Fairness\<close>

text \<open>
  The number of pops in a call sequence. Pushes never move a source towards the end, and a pop
  moves every source but the one it serves one place forward.
\<close>

fun pops :: "qop list \<Rightarrow> nat" where
  "pops [] = 0"
| "pops (OpPop # ops) = Suc (pops ops)"
| "pops (OpPush x src # ops) = pops ops"

definition at_place :: "sources \<Rightarrow> nat \<Rightarrow> string \<Rightarrow> bytes \<Rightarrow> bool" where
  "at_place ss i src x \<longleftrightarrow> i < length ss \<and> fst (ss ! i) = src \<and> snd (ss ! i) \<noteq> [] \<and> hd (snd (ss ! i)) = x"

lemma rr_append_nth:
  "i < length ss \<Longrightarrow> rr_append s y ss ! i
     = (fst (ss ! i), if s = fst (ss ! i) \<and> s \<notin> fst ` set (take i ss) then snd (ss ! i) @ [y]
                      else snd (ss ! i))"
proof (induction s y ss arbitrary: i rule: rr_append.induct)
  case (1 source item)
  then show ?case by simp
next
  case (2 source item s dq rest)
  show ?case
  proof (cases i)
    case 0
    then show ?thesis by simp
  next
    case (Suc j)
    with "2.prems" have "j < length rest" by simp
    with "2.IH" [of j] Suc show ?thesis by (cases "s = source") auto
  qed
qed

lemma length_rr_append: "length ss \<le> length (rr_append s y ss)"
  by (induction s y ss rule: rr_append.induct) auto

lemma at_place_push: "at_place ss i src x \<Longrightarrow> at_place (rr_append s y ss) i src x"
  using length_rr_append [of ss s y] by (auto simp: at_place_def rr_append_nth)

lemma at_place_pop:
  assumes "sources_wf ss" and "at_place ss (Suc i) src x"
  shows "at_place (snd (rr_pop_loop ss)) i src x"
  using assms by (cases ss rule: rr_pop_loop.cases)
    (auto simp: at_place_def sources_wf_def nth_append)

lemma run_ops_at_place:
  assumes "rr_client_wf q r" and "at_place (rr_sources r) i src x" and "pops ops \<le> i"
    and "run_ops (rr_push q) (rr_get q) ops r = (acc, pop, r')"
  shows "at_place (rr_sources r') (i - pops ops) src x \<and> rr_client_wf q r'"
  using assms
proof (induction ops arbitrary: r i acc pop)
  case Nil
  then show ?case by simp
next
  case (Cons op ops)
  have b: "rr_bound r = Some q" and wf: "sources_wf (rr_sources r)"
    using Cons.prems(1) by (simp_all add: rr_client_wf_def)
  show ?case
  proof (cases op)
    case (OpPush y s)
    let ?r = "r\<lparr>rr_sources := rr_append s y (rr_sources r)\<rparr>"
    obtain a where "run_ops (rr_push q) (rr_get q) ops ?r = (a, pop, r')"
      using Cons.prems(4) OpPush b by (auto split: prod.splits)
    then show ?thesis
      using Cons.IH [of ?r i] Cons.prems(2,3) OpPush b wf
      by (simp add: at_place_push rr_client_wf_def rr_append_wf)
  next
    case OpPop
    let ?r = "r\<lparr>rr_sources := snd (rr_pop_loop (rr_sources r))\<rparr>"
    from Cons.prems(3) OpPop obtain j where j: "i = Suc j" "pops ops \<le> j" by (cases i) auto
    obtain p where "run_ops (rr_push q) (rr_get q) ops ?r = (acc, p, r')"
      using Cons.prems(4) OpPop b by (auto split: prod.splits option.splits)
    then show ?thesis
      using Cons.IH [of ?r j] Cons.prems(2) OpPop b wf j
      by (simp add: at_place_pop rr_client_wf_def rr_pop_loop_keeps_wf)
  qed
qed

section \<open>Properties\<close>

text \<open>
  C10. Starvation freedom of round-robin dispatch: when a source stands at place i of the rotation
  with x as its oldest item, then after exactly i pops, with any pushes to any sources in between,
  the next pop returns x.
\<close>

theorem rr_no_starvation:
  assumes "rr_client_wf q r" and "at_place (rr_sources r) i src x" and "pops ops = i"
    and "run_ops (rr_push q) (rr_get q) ops r = (accepted, popped, r')"
  shows "fst (rr_get q r') = Inr (Some x)"
proof -
  have p: "at_place (rr_sources r') 0 src x" "rr_client_wf q r'"
    using run_ops_at_place [OF assms(1,2) _ assms(4)] assms(3) by simp_all
  then show ?thesis
    by (cases "rr_sources r'") (auto simp: rr_client_wf_def rr_pop_loop_wf at_place_def)
qed

definition rr_demo :: rr where
  "rr_demo = \<lparr>rr_sources = [(''a'', [[1], [2], [3]]), (''b'', [[4]]), (''c'', [[5]])],
     rr_bound = Some ''q''\<rparr>"

theorem rr_no_starvation_witness:
  "fst (rr_get ''q'' \<lparr>rr_sources = [(''c'', [[5]]), (''a'', [[2], [3], [6]]), (''d'', [[7]])],
     rr_bound = Some ''q''\<rparr>) = Inr (Some [5])"
  using rr_no_starvation [of "''q''" rr_demo 2 "''c''" "[5]"
      "[OpPush [6] ''a'', OpPop, OpPush [7] ''d'', OpPop]" "[[6], [7]]" "[[1], [4]]"
      "\<lparr>rr_sources = [(''c'', [[5]]), (''a'', [[2], [3], [6]]), (''d'', [[7]])], rr_bound = Some ''q''\<rparr>"]
  by (simp add: rr_client_wf_def sources_wf_def rr_demo_def at_place_def)

lemma rr_decode_entries_encoded:
  "sources_wf ss \<Longrightarrow> fst ` set ss \<inter> set seen = {}
    \<Longrightarrow> rr_decode_entries (map rr_encode_entry ss) seen = Inr ss"
  by (induction ss arbitrary: seen) (auto simp: rr_encode_entry_def sources_wf_def)

lemma filter_live: "sources_wf ss \<Longrightarrow> filter (\<lambda>e. snd e \<noteq> []) ss = ss"
  by (simp add: sources_wf_def)

text \<open>
  Round-robin snapshot round trip: restoring the snapshot of a well-formed state into a fresh
  strategy recovers the same sources in the same rotation order, every item included.
\<close>

lemma rr_snapshot_restore:
  assumes "sources_wf (rr_sources r)" and "rr_sources r2 = []"
  shows "rr_restore (rr_snapshot r) r2 = (Inr (), r2\<lparr>rr_sources := rr_sources r\<rparr>)"
proof (cases "rr_sources r = []")
  case True
  with assms(2) show ?thesis by (simp add: rr_snapshot_def rr_restore_def)
next
  case False
  with assms(1) show ?thesis
    by (simp add: rr_snapshot_def filter_live rr_restore_def rr_decode_def rr_decode_entries_encoded)
qed

text \<open>
  Draining a round-robin strategy: as many pops as \<open>queue_len\<close> reports return every held item
  exactly once and leave the strategy empty.
\<close>

lemma rr_drain_complete:
  assumes "rr_client_wf q r" and "rr_queue_len q r = (Inr n, r)"
  shows "mset (fst (drain (rr_get q) n r)) = all_items (rr_sources r)
    \<and> rr_queue_len q (snd (drain (rr_get q) n r)) = (Inr 0, snd (drain (rr_get q) n r))"
proof -
  have n: "n = size (all_items (rr_sources r))"
    using rrq.len_ok [OF assms(1)] assms(2) by simp
  note d = rrq.drain_complete [OF assms(1) n]
  with rrq.len_ok [of q "snd (drain (rr_get q) n r)"] show ?thesis by simp
qed

end
