(* ===== verification/Physical_Names.thy ===== *)
theory Physical_Names
  imports Queue_Base
begin

text \<open>
  Physical queue and topic names: \<open>queue/strategies/_names.py\<close> and
  \<open>backends/physical_naming.py\<close>.

  The digest is a parameter \<open>h\<close>, from the bytes fed to \<open>hashlib.blake2s\<close> to the hex string it
  yields. What the code itself computes, the length-prefixed encoding of the identity tuple and
  the choice between the digest and the legacy colon layout, is written out, and the theorems show
  that distinct identities get distinct names: unconditionally for the encoding, and for the whole
  name unless the digest collides on the two inputs at hand.
\<close>

section \<open>Encodings\<close>

text \<open>\<open>str.encode("utf-8")\<close> for the code points up to 255 that a \<open>char\<close> ranges over.\<close>

definition utf8_char :: "char \<Rightarrow> bytes" where
  "utf8_char c =
     (let n = of_char c :: nat in
      if n < 128 then [word_of_nat n] else [word_of_nat (192 + n div 64), word_of_nat (128 + n mod 64)])"

definition utf8_encode :: "string \<Rightarrow> bytes" where
  "utf8_encode s = concat (map utf8_char s)"

text \<open>\<open>n.to_bytes(k, "big")\<close>.\<close>

fun be_bytes :: "nat \<Rightarrow> nat \<Rightarrow> bytes" where
  "be_bytes 0 n = []"
| "be_bytes (Suc k) n = be_bytes k (n div 256) @ [word_of_nat (n mod 256)]"

definition length_prefixed :: "string list \<Rightarrow> bytes" where
  "length_prefixed parts =
     concat (map (\<lambda>p. be_bytes 8 (length (utf8_encode p)) @ utf8_encode p) parts)"

text \<open>\<open>str(n)\<close> of a non-negative integer.\<close>

fun str_of_nat :: "nat \<Rightarrow> string" where
  "str_of_nat n =
     (if n < 10 then [char_of (48 + n)] else str_of_nat (n div 10) @ [char_of (48 + n mod 10)])"

declare str_of_nat.simps [simp del]

section \<open>Names of strategy sub-queues\<close>

definition legacy_colon_backends :: "string list" where
  "legacy_colon_backends = [''elasticsearch'', ''mongodb'', ''pulsar'', ''rabbitmq'', ''redis'']"

definition unsupported_fanout_backends :: "string list" where
  "unsupported_fanout_backends = [''kafka'', ''rocketmq'']"

text \<open>\<open>_backend_type_name\<close>: the manager's backend type as a string, if it is one.\<close>

fun backend_type_name :: "pyval \<Rightarrow> string option" where
  "backend_type_name (PyStr s) = Some s"
| "backend_type_name _ = None"

definition ensure_fanout_backend_supported :: "pyval \<Rightarrow> unit result" where
  "ensure_fanout_backend_supported raw =
     (case backend_type_name raw of
        None \<Rightarrow> Inr ()
      | Some b \<Rightarrow> if b \<in> set unsupported_fanout_backends then Inl ConfigurationError else Inr ())"

definition strategy_queue_name :: "(bytes \<Rightarrow> string) \<Rightarrow> string \<Rightarrow> string \<Rightarrow> string \<Rightarrow> string" where
  "strategy_queue_name h queue_name namespace discriminator =
     ''scrapyext-v2-'' @ namespace @ ''-''
       @ h (length_prefixed [queue_name, namespace, discriminator])"

definition physical_strategy_queue_name ::
  "(bytes \<Rightarrow> string) \<Rightarrow> pyval \<Rightarrow> string \<Rightarrow> string \<Rightarrow> string \<Rightarrow> string \<Rightarrow> pyval \<Rightarrow> string result" where
  "physical_strategy_queue_name h raw queue_name namespace discriminator legacy_name generation =
     (if generation \<noteq> PyStr ''v2'' \<and> generation \<noteq> PyStr ''legacy_v1'' then Inl ValueError
      else
        let backend_type = backend_type_name raw;
            legacy_supported = (case backend_type of None \<Rightarrow> False
              | Some b \<Rightarrow> b \<in> set legacy_colon_backends);
            rabbit_name_fits =
              (backend_type \<noteq> Some ''rabbitmq'' \<or> length (utf8_encode legacy_name) \<le> 255);
            discriminator_unambiguous = (CHR '':'' \<notin> set discriminator)
        in if generation = PyStr ''legacy_v1'' \<and> legacy_supported \<and> rabbit_name_fits
              \<and> discriminator_unambiguous
           then Inr legacy_name
           else Inr (strategy_queue_name h queue_name namespace discriminator))"

text \<open>The two callers: priority buckets and worker queues.\<close>

definition bucket_name :: "(bytes \<Rightarrow> string) \<Rightarrow> pyval \<Rightarrow> pyval \<Rightarrow> string \<Rightarrow> nat \<Rightarrow> string result" where
  "bucket_name h raw generation queue_name level =
     physical_strategy_queue_name h raw queue_name ''priority'' (str_of_nat level)
       (queue_name @ '':p'' @ str_of_nat level) generation"

definition worker_name :: "(bytes \<Rightarrow> string) \<Rightarrow> pyval \<Rightarrow> pyval \<Rightarrow> string \<Rightarrow> string \<Rightarrow> string result" where
  "worker_name h raw generation queue_name worker_id =
     physical_strategy_queue_name h raw queue_name ''worker'' worker_id
       (queue_name @ '':'' @ worker_id) generation"

section \<open>Kafka topics\<close>

datatype topic_generation = TopicAuto | TopicLegacyV1 | TopicV2

definition kafka_topic_char :: "char \<Rightarrow> bool" where
  "kafka_topic_char c \<longleftrightarrow>
     c \<in> set ''abcdefghijklmnopqrstuvwxyzABCDEFGHIJKLMNOPQRSTUVWXYZ0123456789._-''"

definition is_valid_kafka_topic :: "string \<Rightarrow> bool" where
  "is_valid_kafka_topic name \<longleftrightarrow>
     1 \<le> length (utf8_encode name) \<and> length (utf8_encode name) \<le> 249
     \<and> name \<noteq> ''.'' \<and> name \<noteq> ''..'' \<and> list_all kafka_topic_char name"

definition kafka_v2_domain :: bytes where
  "kafka_v2_domain = utf8_encode ''scrapy-extension:kafka:physical-topic:v2'' @ [0]"

definition length_prefixed_digest :: "(bytes \<Rightarrow> string) \<Rightarrow> bytes \<Rightarrow> string list \<Rightarrow> string" where
  "length_prefixed_digest h domain parts = h (domain @ length_prefixed parts)"

definition kafka_physical_topic_name ::
  "(bytes \<Rightarrow> string) \<Rightarrow> string \<Rightarrow> string \<Rightarrow> topic_generation \<Rightarrow> string result" where
  "kafka_physical_topic_name h prefix logical generation =
     (let candidate = prefix @ logical in
      if generation = TopicLegacyV1 then
        (if is_valid_kafka_topic candidate then Inr candidate else Inl ValueError)
      else if generation = TopicAuto \<and> is_valid_kafka_topic candidate then Inr candidate
      else Inr (''scrapyext-v2-'' @ length_prefixed_digest h kafka_v2_domain [prefix, logical]))"

section \<open>Injectivity of the encodings\<close>

lemma of_nat_byte_inj:
  assumes "a < 256" "b < 256" "(word_of_nat a :: byte) = word_of_nat b"
  shows "a = b"
proof -
  have "unat (word_of_nat a :: byte) = unat (word_of_nat b :: byte)" using assms(3) by simp
  with assms(1,2) show ?thesis by (simp add: unat_of_nat)
qed

lemma of_char_bound: "(of_char c :: nat) < 256"
  by simp

lemma utf8_char_prefix_free:
  assumes "utf8_char c @ r = utf8_char d @ r'"
  shows "c = d \<and> r = r'"
proof -
  let ?m = "of_char c :: nat" and ?n = "of_char d :: nat"
  have b: "?m < 256" "?n < 256" by (rule of_char_bound)+
  have hi: "192 + k div 64 < 256" "128 + k mod 64 < 256" if "k < 256" for k :: nat
    using that by auto
  have dm: "?m div 64 = ?n div 64 \<Longrightarrow> ?m mod 64 = ?n mod 64 \<Longrightarrow> ?m = ?n"
    by (metis div_mult_mod_eq)
  show ?thesis
  proof (cases "?m < 128"; cases "?n < 128")
    assume *: "?m < 128" "?n < 128"
    with assms have "word_of_nat ?m = (word_of_nat ?n :: byte)" "r = r'"
      by (simp_all add: utf8_char_def)
    with of_nat_byte_inj [OF b] show ?thesis by simp
  next
    assume *: "?m < 128" "\<not> ?n < 128"
    with assms have "word_of_nat ?m = (word_of_nat (192 + ?n div 64) :: byte)"
      by (simp add: utf8_char_def Let_def)
    with of_nat_byte_inj [OF b(1) hi(1) [OF b(2)]] * show ?thesis by simp
  next
    assume *: "\<not> ?m < 128" "?n < 128"
    with assms have "word_of_nat (192 + ?m div 64) = (word_of_nat ?n :: byte)"
      by (simp add: utf8_char_def Let_def)
    with of_nat_byte_inj [OF hi(1) [OF b(1)] b(2)] * show ?thesis by simp
  next
    assume *: "\<not> ?m < 128" "\<not> ?n < 128"
    with assms have e: "word_of_nat (192 + ?m div 64) = (word_of_nat (192 + ?n div 64) :: byte)"
      "word_of_nat (128 + ?m mod 64) = (word_of_nat (128 + ?n mod 64) :: byte)" "r = r'"
      by (simp_all only: utf8_char_def Let_def if_False append_Cons append_Nil list.inject)
    with of_nat_byte_inj [OF hi(1) [OF b(1)] hi(1) [OF b(2)]]
      of_nat_byte_inj [OF hi(2) [OF b(1)] hi(2) [OF b(2)]] dm
    show ?thesis by simp
  qed
qed

lemma utf8_char_nonempty [simp]: "utf8_char c \<noteq> []"
  by (simp add: utf8_char_def Let_def)

lemma utf8_encode_inj: "utf8_encode s = utf8_encode t \<Longrightarrow> s = t"
proof (induction s arbitrary: t)
  case Nil
  then show ?case by (cases t) (auto simp: utf8_encode_def)
next
  case (Cons c s)
  then show ?case
    by (cases t) (auto simp: utf8_encode_def dest: utf8_char_prefix_free)
qed

lemma length_be_bytes [simp]: "length (be_bytes k n) = k"
  by (induction k arbitrary: n) simp_all

lemma be_bytes_inj:
  "n < 256 ^ k \<Longrightarrow> m < 256 ^ k \<Longrightarrow> be_bytes k n = be_bytes k m \<Longrightarrow> n = m"
proof (induction k arbitrary: n m)
  case 0
  then show ?case by simp
next
  case (Suc k)
  have "n div 256 < 256 ^ k" "m div 256 < 256 ^ k"
    using Suc.prems(1,2) by (simp_all add: less_mult_imp_div_less mult.commute)
  with Suc.IH Suc.prems(3) have "n div 256 = m div 256" by simp
  moreover have "n mod 256 = m mod 256"
    using Suc.prems(3) of_nat_byte_inj [of "n mod 256" "m mod 256"] by simp
  ultimately show ?case by (metis div_mult_mod_eq)
qed

lemma length_prefixed_inj:
  assumes "length ps = length qs"
    and "\<forall>p \<in> set ps \<union> set qs. length (utf8_encode p) < 256 ^ 8"
    and "length_prefixed ps = length_prefixed qs"
  shows "ps = qs"
  using assms
proof (induction ps qs rule: list_induct2)
  case Nil
  then show ?case by simp
next
  case (Cons p ps q qs)
  let ?P = "utf8_encode p" and ?Q = "utf8_encode q"
  have e: "be_bytes 8 (length ?P) @ ?P @ length_prefixed ps
      = be_bytes 8 (length ?Q) @ ?Q @ length_prefixed qs"
    using Cons.prems(2) by (simp add: length_prefixed_def)
  then have "be_bytes 8 (length ?P) = be_bytes 8 (length ?Q)"
    and r: "?P @ length_prefixed ps = ?Q @ length_prefixed qs"
    by (simp_all add: append_eq_append_conv)
  then have "length ?P = length ?Q" using be_bytes_inj [of "length ?P" 8 "length ?Q"] Cons.prems(1) by simp
  with r have "?P = ?Q" "length_prefixed ps = length_prefixed qs"
    by (simp_all add: append_eq_append_conv)
  with utf8_encode_inj Cons show ?case by simp
qed

definition digits_value :: "string \<Rightarrow> nat" where
  "digits_value s = foldl (\<lambda>a c. 10 * a + (of_char c - 48)) 0 s"

lemma digits_value_str_of_nat [simp]: "digits_value (str_of_nat n) = n"
proof (induction n rule: str_of_nat.induct)
  case (1 n)
  then show ?case by (subst str_of_nat.simps) (simp add: digits_value_def)
qed

lemma str_of_nat_inj: "str_of_nat n = str_of_nat m \<Longrightarrow> n = m"
  by (metis digits_value_str_of_nat)

lemma digit_not_colon: "(d::nat) < 10 \<Longrightarrow> (char_of (48 + d) :: char) \<noteq> CHR '':''"
proof
  assume "d < 10" and "(char_of (48 + d) :: char) = CHR '':''"
  then have "(of_char (char_of (48 + d) :: char) :: nat) = of_char (CHR '':'')" by simp
  with \<open>d < 10\<close> show False by simp
qed

lemma str_of_nat_no_colon: "CHR '':'' \<notin> set (str_of_nat n)"
proof (induction n rule: str_of_nat.induct)
  case (1 n)
  then show ?case by (subst str_of_nat.simps) (use digit_not_colon [of n] digit_not_colon [of "n mod 10"] in auto)
qed

lemma split_at_last_colon:
  assumes "CHR '':'' \<notin> set d" "CHR '':'' \<notin> set d'" "q @ CHR '':'' # d = q' @ CHR '':'' # d'"
  shows "q = q' \<and> d = d'"
proof -
  let ?colon = "CHR '':''"
  have tw: "takeWhile (\<lambda>c. c \<noteq> ?colon) (rev (p @ ?colon # e)) = rev e" if "?colon \<notin> set e" for p e
    using that by (simp, subst takeWhile_append2) auto
  have "rev d = rev d'" using tw [OF assms(1), of q] tw [OF assms(2), of q'] assms(3) by metis
  then show ?thesis using assms(3) by simp
qed

section \<open>Distinct identities, distinct names\<close>

text \<open>
  The digest does not collide on the inputs of two identities, and its hex strings contain no
  colon.
\<close>

definition digest_ok :: "(bytes \<Rightarrow> string) \<Rightarrow> string list \<Rightarrow> string list \<Rightarrow> bool" where
  "digest_ok h ps qs \<longleftrightarrow>
     (h (length_prefixed ps) = h (length_prefixed qs) \<longrightarrow> length_prefixed ps = length_prefixed qs)
     \<and> CHR '':'' \<notin> set (h (length_prefixed ps)) \<and> CHR '':'' \<notin> set (h (length_prefixed qs))"

definition short_parts :: "string list \<Rightarrow> bool" where
  "short_parts ps \<longleftrightarrow> (\<forall>p \<in> set ps. length (utf8_encode p) < 256 ^ 8)"

lemma strategy_queue_name_inj:
  assumes "digest_ok h [q, ns, d] [q', ns, d']" "short_parts [q, ns, d]" "short_parts [q', ns, d']"
    and "strategy_queue_name h q ns d = strategy_queue_name h q' ns d'"
  shows "q = q' \<and> d = d'"
proof -
  have "length_prefixed [q, ns, d] = length_prefixed [q', ns, d']"
    using assms(1,4) by (simp add: strategy_queue_name_def digest_ok_def)
  then have "[q, ns, d] = [q', ns, d']"
    by (rule length_prefixed_inj [rotated 2]) (use assms(2,3) in \<open>auto simp: short_parts_def\<close>)
  then show ?thesis by simp
qed

lemma strategy_queue_name_no_colon:
  "digest_ok h [q, ns, d] ps \<Longrightarrow> CHR '':'' \<notin> set ns \<Longrightarrow> CHR '':'' \<notin> set (strategy_queue_name h q ns d)"
  by (simp add: strategy_queue_name_def digest_ok_def)

lemma digest_ok_sym: "digest_ok h ps qs \<Longrightarrow> digest_ok h qs ps"
  unfolding digest_ok_def by metis

text \<open>
  The general statement: the legacy layout puts \<open>tag d\<close> after the last colon, where \<open>tag\<close> is
  injective and keeps colon-free discriminators colon-free.
\<close>

lemma physical_name_inj:
  assumes h: "digest_ok h [q, ns, d] [q', ns, d']"
    and sp: "short_parts [q, ns, d]" "short_parts [q', ns, d']" and ns: "CHR '':'' \<notin> set ns"
    and tag: "inj tag" "\<And>e. CHR '':'' \<notin> set e \<Longrightarrow> CHR '':'' \<notin> set (tag e)"
    and n: "physical_strategy_queue_name h raw q ns d (q @ CHR '':'' # tag d) g = Inr x"
      "physical_strategy_queue_name h raw q' ns d' (q' @ CHR '':'' # tag d') g = Inr x"
  shows "q = q' \<and> d = d'"
proof -
  have shape: "(y = p @ CHR '':'' # tag e \<and> CHR '':'' \<notin> set e) \<or> y = strategy_queue_name h p ns e"
    if "physical_strategy_queue_name h raw p ns e (p @ CHR '':'' # tag e) g = Inr y" for p e y
    using that by (auto simp: physical_strategy_queue_name_def Let_def split: if_splits)
  note v2_no_colon = strategy_queue_name_no_colon [OF h ns]
    strategy_queue_name_no_colon [OF digest_ok_sym [OF h] ns]
  consider (legacy) "x = q @ CHR '':'' # tag d" "x = q' @ CHR '':'' # tag d'"
      "CHR '':'' \<notin> set d" "CHR '':'' \<notin> set d'"
    | (v2) "x = strategy_queue_name h q ns d" "x = strategy_queue_name h q' ns d'"
    | (mixed) "x = q @ CHR '':'' # tag d" "x = strategy_queue_name h q' ns d'"
    | (mixed') "x = strategy_queue_name h q ns d" "x = q' @ CHR '':'' # tag d'"
    using shape [OF n(1)] shape [OF n(2)] by blast
  then show ?thesis
  proof cases
    case legacy
    then have "q = q' \<and> tag d = tag d'" using split_at_last_colon tag(2) by metis
    with tag(1) show ?thesis by (auto dest: injD)
  next
    case v2
    then show ?thesis using strategy_queue_name_inj [OF h sp] by simp
  next
    case mixed
    from mixed(1) have "CHR '':'' \<in> set x" by simp
    with mixed(2) v2_no_colon(2) show ?thesis by simp
  next
    case mixed'
    from mixed'(2) have "CHR '':'' \<in> set x" by simp
    with mixed'(1) v2_no_colon(1) show ?thesis by simp
  qed
qed

section \<open>Properties\<close>

text \<open>
  The identity encoding is unambiguous: two identity tuples of the same arity with the same
  length-prefixed encoding are equal, so moving characters across a part boundary changes what is
  hashed.
\<close>

lemma length_prefixed_unambiguous:
  assumes "length ps = length qs" and "short_parts ps" and "short_parts qs"
    and "length_prefixed ps = length_prefixed qs"
  shows "ps = qs"
  using length_prefixed_inj assms unfolding short_parts_def by blast

text \<open>
  Worker queues are isolated: under either name generation and on any backend type, two
  distinct (queue, worker) identities resolve to distinct physical queues, unless the digest
  itself collides on the two. In particular \<open>("jobs", "a:b")\<close> and \<open>("jobs:a", "b")\<close> do not meet under
  the legacy colon layout.
\<close>

lemma worker_name_isolated:
  assumes "digest_ok h [q, ''worker'', w] [q', ''worker'', w']"
    and "short_parts [q, ''worker'', w]" and "short_parts [q', ''worker'', w']"
    and "worker_name h raw g q w = Inr x" and "worker_name h raw g q' w' = Inr x'"
    and "(q, w) \<noteq> (q', w')"
  shows "x \<noteq> x'"
  using physical_name_inj [where tag = id, OF assms(1-3)] assms(4-6)
  by (auto simp: worker_name_def)

definition demo_digest :: "bytes \<Rightarrow> string" where
  "demo_digest bs = (if bs ! 7 = 4 then ''04'' else ''06'')"

lemma length_prefixed_nth_7:
  "length_prefixed (p # ps) ! 7 = word_of_nat (length (utf8_encode p) mod 256)"
proof -
  have "be_bytes 8 n ! 7 = word_of_nat (n mod 256)" for n
    using be_bytes.simps(2) [of 7 n] by (simp add: nth_append)
  then show ?thesis by (simp add: length_prefixed_def nth_append)
qed

lemmas demo_digest_simps =
  digest_ok_def demo_digest_def length_prefixed_nth_7 short_parts_def utf8_encode_def utf8_char_def
  str_of_nat.simps

text \<open>
  Priority buckets are isolated: two distinct (queue, level) identities resolve to distinct
  physical queues, unless the digest collides on the two.
\<close>

lemma bucket_name_isolated:
  assumes "digest_ok h [q, ''priority'', str_of_nat l] [q', ''priority'', str_of_nat l']"
    and "short_parts [q, ''priority'', str_of_nat l]" and "short_parts [q', ''priority'', str_of_nat l']"
    and "bucket_name h raw g q l = Inr x" and "bucket_name h raw g q' l' = Inr x'"
    and "(q, l) \<noteq> (q', l')"
  shows "x \<noteq> x'"
proof
  assume "x = x'"
  have "inj (\<lambda>d. CHR ''p'' # d)" by (rule injI) simp
  from physical_name_inj [where tag = "\<lambda>d. CHR ''p'' # d", OF assms(1-3) _ this] assms(4,5) \<open>x = x'\<close>
  have "q = q' \<and> str_of_nat l = str_of_nat l'" by (simp add: bucket_name_def)
  then show False using str_of_nat_inj assms(6) by blast
qed

end
