(* ===== verification/Priority_Strategy.thy ===== *)
theory Priority_Strategy
  imports Physical_Names
begin

text \<open>
  \<open>queue/strategies/priority.py\<close> and \<open>queue/strategies/passthrough.py\<close>.

  The priority strategy spreads one logical queue over N physical buckets of the backend and scans
  them from the highest priority down. \<open>scan_pop\<close> and \<open>scan_pop_ack\<close> are its two non-blocking scans;
  the bucket names are those of \<open>Physical_Names\<close>, computed per level and memoised by the object.

  Shown: the level map is total on finite priorities, bounded, anti-monotone and centred at zero;
  the memo never changes a name; a non-blocking pop takes an item from the highest non-empty level
  and reports empty only when every level is; length and clear cover all levels.
\<close>

section \<open>Construction and levels\<close>

record prio =
  pr_levels :: nat
  pr_name_generation :: pyval
  pr_backend_type :: pyval
  pr_physical_names :: "(string \<times> nat) \<rightharpoonup> string"

definition max_priority_levels :: int where
  "max_priority_levels = 256"

definition prio_init :: "pyval \<Rightarrow> pyval \<Rightarrow> pyval \<Rightarrow> prio result" where
  "prio_init backend_type levels generation =
     rbind (ensure_fanout_backend_supported backend_type) (\<lambda>_.
       case levels of
         PyInt n \<Rightarrow>
           (if 1 \<le> n \<and> n \<le> max_priority_levels then
              (if generation = PyStr ''v2'' \<or> generation = PyStr ''legacy_v1'' then
                 Inr \<lparr>pr_levels = nat n, pr_name_generation = generation,
                      pr_backend_type = backend_type, pr_physical_names = Map.empty\<rparr>
               else Inl ValueError)
            else Inl ValueError)
       | _ \<Rightarrow> Inl ValueError)"

definition clamp_level :: "nat \<Rightarrow> int \<Rightarrow> nat" where
  "clamp_level levels level = nat (min (int levels - 1) (max 0 level))"

text \<open>
  \<open>_level_for\<close>: integers are subtracted exactly; \<open>math.isfinite\<close> of an integer too large for a
  double raises, which counts as invalid; floats are subtracted and rounded as doubles.
\<close>

definition level_for :: "nat \<Rightarrow> pyval \<Rightarrow> nat result" where
  "level_for levels priority =
     (let center = int levels div 2 in
      case priority of
        PyInt n \<Rightarrow>
          (case float_of_int n of
             Inl _ \<Rightarrow> Inl ValueError
           | Inr _ \<Rightarrow> Inr (clamp_level levels (center - n)))
      | PyFloat (Fin x) \<Rightarrow>
          (case fsub (of_int center) x of
             Fin d \<Rightarrow>
               (case fadd d (1 / 2) of
                  Fin y \<Rightarrow> Inr (clamp_level levels \<lfloor>y\<rfloor>)
                | _ \<Rightarrow> Inl OverflowError)
           | _ \<Rightarrow> Inl OverflowError)
      | _ \<Rightarrow> Inl ValueError)"

text \<open>\<open>_bucket_queue\<close>: memoised per (queue, level).\<close>

definition bucket_queue :: "(bytes \<Rightarrow> string) \<Rightarrow> string \<Rightarrow> nat \<Rightarrow> prio \<Rightarrow> (string, prio) outcome" where
  "bucket_queue h q level p =
     (case pr_physical_names p (q, level) of
        Some n \<Rightarrow> (Inr n, p)
      | None \<Rightarrow>
          (case bucket_name h (pr_backend_type p) (pr_name_generation p) q level of
             Inl e \<Rightarrow> (Inl e, p)
           | Inr n \<Rightarrow> (Inr n, p\<lparr>pr_physical_names := (pr_physical_names p)((q, level) \<mapsto> n)\<rparr>)))"

definition memo_ok :: "(bytes \<Rightarrow> string) \<Rightarrow> prio \<Rightarrow> bool" where
  "memo_ok h p \<longleftrightarrow> (\<forall>q l n. pr_physical_names p (q, l) = Some n
     \<longrightarrow> bucket_name h (pr_backend_type p) (pr_name_generation p) q l = Inr n)"

lemma bucket_queue_memo:
  assumes "memo_ok h p" and "bucket_queue h q l p = (r, p')"
  shows "r = bucket_name h (pr_backend_type p) (pr_name_generation p) q l"
    and "memo_ok h p'" and "p' = p\<lparr>pr_physical_names := pr_physical_names p'\<rparr>"
  using assms by (auto simp: bucket_queue_def memo_ok_def split: option.splits sum.splits if_splits)

section \<open>Scans\<close>

fun scan_pop ::
  "('tok, 's) queue_backend \<Rightarrow> string list \<Rightarrow> 's \<Rightarrow> (bytes option, 's) outcome" where
  "scan_pop B [] s = (Inr None, s)"
| "scan_pop B (q # qs) s =
     (case qb_pop B q (Fin 0) s of
        (Inl e, s') \<Rightarrow> (Inl e, s')
      | (Inr (Some x), s') \<Rightarrow> (Inr (Some x), s')
      | (Inr None, s') \<Rightarrow> scan_pop B qs s')"

text \<open>A token without data is a broker tombstone and is returned too, for the caller to settle.\<close>

fun scan_pop_ack ::
  "('tok, 's) queue_backend \<Rightarrow> string list \<Rightarrow> 's
    \<Rightarrow> (bytes option \<times> 'tok ack_ref option, 's) outcome" where
  "scan_pop_ack B [] s = (Inr (None, None), s)"
| "scan_pop_ack B (q # qs) s =
     (case pop_backend_instance_with_ack B q (Fin 0) s of
        (Inl e, s') \<Rightarrow> (Inl e, s')
      | (Inr (data, token), s') \<Rightarrow>
          (if data \<noteq> None \<or> token \<noteq> None then (Inr (data, token), s')
           else scan_pop_ack B qs s'))"

text \<open>
  The operations on the bucket names of one logical queue, in level order. A positive timeout
  adds one blocking pop of the first bucket and a second scan.
\<close>

definition bucket_names :: "(bytes \<Rightarrow> string) \<Rightarrow> prio \<Rightarrow> string \<Rightarrow> string list result" where
  "bucket_names h p q =
     rmap (bucket_name h (pr_backend_type p) (pr_name_generation p) q) [0..<pr_levels p]"

definition prio_push ::
  "(bytes \<Rightarrow> string) \<Rightarrow> ('tok, 's) queue_backend \<Rightarrow> prio \<Rightarrow> string \<Rightarrow> bytes \<Rightarrow> pyval \<Rightarrow> 's
    \<Rightarrow> (unit, 's) outcome" where
  "prio_push h B p q item priority s =
     (case rbind (level_for (pr_levels p) priority)
             (bucket_name h (pr_backend_type p) (pr_name_generation p) q) of
        Inl e \<Rightarrow> (Inl e, s)
      | Inr name \<Rightarrow> qb_push B name item 0 s)"

text \<open>The commit of \<open>_prepare_push\<close>: the level is computed at commit time.\<close>

definition prio_commit ::
  "(bytes \<Rightarrow> string) \<Rightarrow> ('tok, 's) queue_backend \<Rightarrow> prio \<Rightarrow> string \<Rightarrow> pyval \<Rightarrow> bytes \<Rightarrow> bool \<Rightarrow> 's
    \<Rightarrow> (bool, 's) outcome" where
  "prio_commit h B p q priority item require_durable s =
     (case rbind (level_for (pr_levels p) priority)
             (bucket_name h (pr_backend_type p) (pr_name_generation p) q) of
        Inl e \<Rightarrow> (Inl e, s)
      | Inr name \<Rightarrow> push_backend_prepared B name 0 item require_durable s)"

definition scan_then_wait ::
  "('tok, 's) queue_backend \<Rightarrow> string list \<Rightarrow> rat \<Rightarrow> 's \<Rightarrow> (bytes option, 's) outcome" where
  "scan_then_wait B names timeout s =
     (case scan_pop B names s of
        (Inr None, s1) \<Rightarrow>
          (if 0 < timeout then
             (case qb_pop B (hd names) (Fin timeout) s1 of
                (Inr None, s2) \<Rightarrow> scan_pop B names s2
              | out \<Rightarrow> out)
           else (Inr None, s1))
      | out \<Rightarrow> out)"

definition prio_pop ::
  "(bytes \<Rightarrow> string) \<Rightarrow> ('tok, 's) queue_backend \<Rightarrow> prio \<Rightarrow> string \<Rightarrow> pyval \<Rightarrow> 's
    \<Rightarrow> (bytes option, 's) outcome" where
  "prio_pop h B p q timeout s =
     (case normalize_queue_timeout timeout of
        Inl e \<Rightarrow> (Inl e, s)
      | Inr t \<Rightarrow>
          (case bucket_names h p q of
             Inl e \<Rightarrow> (Inl e, s)
           | Inr names \<Rightarrow> scan_then_wait B names t s))"

definition prio_pop_with_ack ::
  "(bytes \<Rightarrow> string) \<Rightarrow> ('tok, 's) queue_backend \<Rightarrow> prio \<Rightarrow> string \<Rightarrow> pyval \<Rightarrow> 's
    \<Rightarrow> (bytes option \<times> 'tok ack_ref option, 's) outcome" where
  "prio_pop_with_ack h B p q timeout s =
     (case normalize_queue_timeout timeout of
        Inl e \<Rightarrow> (Inl e, s)
      | Inr t \<Rightarrow>
          (case bucket_names h p q of
             Inl e \<Rightarrow> (Inl e, s)
           | Inr names \<Rightarrow>
               (case scan_pop_ack B names s of
                  (Inr (None, None), s1) \<Rightarrow>
                    (if 0 < t then
                       (case pop_backend_instance_with_ack B (hd names) (Fin t) s1 of
                          (Inr (None, None), s2) \<Rightarrow> scan_pop_ack B names s2
                        | out \<Rightarrow> out)
                     else (Inr (None, None), s1))
                | out \<Rightarrow> out)))"

fun sum_queue_len :: "('tok, 's) queue_backend \<Rightarrow> string list \<Rightarrow> 's \<Rightarrow> (nat, 's) outcome" where
  "sum_queue_len B [] s = (Inr 0, s)"
| "sum_queue_len B (q # qs) s =
     (case qb_queue_len B q s of
        (Inl e, s') \<Rightarrow> (Inl e, s')
      | (Inr n, s') \<Rightarrow>
          (case sum_queue_len B qs s' of
             (Inl e, s'') \<Rightarrow> (Inl e, s'')
           | (Inr m, s'') \<Rightarrow> (Inr (n + m), s'')))"

fun clear_queues :: "('tok, 's) queue_backend \<Rightarrow> string list \<Rightarrow> 's \<Rightarrow> (unit, 's) outcome" where
  "clear_queues B [] s = (Inr (), s)"
| "clear_queues B (q # qs) s =
     (case qb_clear_queue B q s of
        (Inl e, s') \<Rightarrow> (Inl e, s')
      | (Inr _, s') \<Rightarrow> clear_queues B qs s')"

definition prio_queue_len ::
  "(bytes \<Rightarrow> string) \<Rightarrow> ('tok, 's) queue_backend \<Rightarrow> prio \<Rightarrow> string \<Rightarrow> 's \<Rightarrow> (nat, 's) outcome" where
  "prio_queue_len h B p q s =
     (case bucket_names h p q of Inl e \<Rightarrow> (Inl e, s) | Inr names \<Rightarrow> sum_queue_len B names s)"

definition prio_clear ::
  "(bytes \<Rightarrow> string) \<Rightarrow> ('tok, 's) queue_backend \<Rightarrow> prio \<Rightarrow> string \<Rightarrow> 's \<Rightarrow> (unit, 's) outcome" where
  "prio_clear h B p q s =
     (case bucket_names h p q of Inl e \<Rightarrow> (Inl e, s) | Inr names \<Rightarrow> clear_queues B names s)"

section \<open>Passthrough\<close>

definition passthrough_push ::
  "('tok, 's) queue_backend \<Rightarrow> string \<Rightarrow> bytes \<Rightarrow> rat \<Rightarrow> 's \<Rightarrow> (unit, 's) outcome" where
  "passthrough_push B q item priority s = qb_push B q item priority s"

definition passthrough_pop ::
  "('tok, 's) queue_backend \<Rightarrow> string \<Rightarrow> pyval \<Rightarrow> 's \<Rightarrow> (bytes option, 's) outcome" where
  "passthrough_pop B q timeout s =
     (case normalize_queue_timeout timeout of
        Inl e \<Rightarrow> (Inl e, s)
      | Inr t \<Rightarrow> qb_pop B q (Fin t) s)"

definition passthrough_pop_with_ack ::
  "('tok, 's) queue_backend \<Rightarrow> string \<Rightarrow> pyval \<Rightarrow> 's
    \<Rightarrow> (bytes option \<times> 'tok ack_ref option, 's) outcome" where
  "passthrough_pop_with_ack B q timeout s =
     (case normalize_queue_timeout timeout of
        Inl e \<Rightarrow> (Inl e, s)
      | Inr t \<Rightarrow> pop_backend_instance_with_ack B q (Fin t) s)"

section \<open>Lemmas\<close>

lemma clamp_level_bound: "1 \<le> levels \<Longrightarrow> clamp_level levels l < levels"
  by (simp add: clamp_level_def)

lemma clamp_level_mono: "l \<le> l' \<Longrightarrow> clamp_level levels l \<le> clamp_level levels l'"
  by (auto simp: clamp_level_def intro: nat_mono)

lemma level_for_float:
  "level_for levels (PyFloat (Fin x)) = Inr l
    \<longleftrightarrow> (\<exists>d y. fsub (of_int (int levels div 2)) x = Fin d \<and> fadd d (1 / 2) = Fin y
          \<and> l = clamp_level levels \<lfloor>y\<rfloor>)"
  by (auto simp: level_for_def Let_def split: pyfloat.splits)

lemma level_for_float_mono:
  assumes "x \<le> y" and "level_for levels (PyFloat (Fin x)) = Inr lx"
    and "level_for levels (PyFloat (Fin y)) = Inr ly"
  shows "ly \<le> lx"
proof -
  let ?c = "of_int (int levels div 2) :: rat"
  obtain dx ex where x: "fsub ?c x = Fin dx" "fadd dx (1 / 2) = Fin ex" "lx = clamp_level levels \<lfloor>ex\<rfloor>"
    using assms(2) by (auto simp: level_for_float)
  obtain dy ey where y: "fsub ?c y = Fin dy" "fadd dy (1 / 2) = Fin ey" "ly = clamp_level levels \<lfloor>ey\<rfloor>"
    using assms(3) by (auto simp: level_for_float)
  have d: "dy \<le> dx"
    by (rule round_double_mono [of "?c - y" "?c - x"])
      (use x(1) y(1) assms(1) in \<open>simp_all add: fsub_def\<close>)
  have "ey \<le> ex"
    by (rule round_double_mono [of "dy + 1 / 2" "dx + 1 / 2"])
      (use d x(2) y(2) in \<open>simp_all add: fadd_def\<close>)
  then show ?thesis using x(3) y(3) by (simp add: clamp_level_mono floor_mono)
qed

lemma level_for_int_mono:
  assumes "m \<le> n" and "level_for levels (PyInt m) = Inr k" and "level_for levels (PyInt n) = Inr l"
  shows "l \<le> k"
  using assms by (auto simp: level_for_def Let_def split: sum.splits intro: clamp_level_mono)

lemma level_for_bound: "1 \<le> levels \<Longrightarrow> level_for levels v = Inr l \<Longrightarrow> l < levels"
  by (auto simp: level_for_def Let_def clamp_level_bound
      split: pyval.splits pyfloat.splits sum.splits)

lemma scan_pop_None:
  assumes "conforming_backend B items" and "scan_pop B qs s = (Inr None, s')"
  shows "items s' = items s \<and> (\<forall>q \<in> set qs. items s q = {#})"
  using assms(2)
proof (induction qs arbitrary: s)
  case Nil
  then show ?case by simp
next
  case (Cons q qs)
  obtain s1 where s1: "qb_pop B q (Fin 0) s = (Inr None, s1)" "scan_pop B qs s1 = (Inr None, s')"
    using Cons.prems by (auto split: prod.splits sum.splits option.splits)
  with Cons.IH [OF s1(2)] conforming_pop_None [OF assms(1) s1(1)] show ?case by simp
qed

lemma scan_pop_Some:
  assumes "conforming_backend B items" and "scan_pop B qs s = (Inr (Some x), s')"
  shows "\<exists>i < length qs. (\<forall>j < i. items s (qs ! j) = {#}) \<and> x \<in># items s (qs ! i)
     \<and> items s' = (items s)(qs ! i := items s (qs ! i) - {#x#})"
  using assms(2)
proof (induction qs arbitrary: s)
  case Nil
  then show ?case by simp
next
  case (Cons q qs)
  show ?case
  proof (cases "qb_pop B q (Fin 0) s = (Inr (Some x), s')")
    case True
    from conforming_pop_Some [OF assms(1) True] show ?thesis by (intro exI [of _ 0]) simp
  next
    case False
    then obtain s1 where s1: "qb_pop B q (Fin 0) s = (Inr None, s1)" "scan_pop B qs s1 = (Inr (Some x), s')"
      using Cons.prems by (auto split: prod.splits sum.splits option.splits)
    from conforming_pop_None [OF assms(1) s1(1)] have e: "items s1 = items s" "items s q = {#}" by simp_all
    from Cons.IH [OF s1(2)] obtain i where i: "i < length qs" "\<forall>j < i. items s1 (qs ! j) = {#}"
      "x \<in># items s1 (qs ! i)" "items s' = (items s1)(qs ! i := items s1 (qs ! i) - {#x#})" by blast
    then show ?thesis using e by (intro exI [of _ "Suc i"]) (auto simp: less_Suc_eq_0_disj)
  qed
qed

lemma sum_queue_len_ok:
  assumes "conforming_backend B items" and "sum_queue_len B qs s = (Inr n, s')"
  shows "n = sum_list (map (\<lambda>q. size (items s q)) qs) \<and> items s' = items s"
  using assms(2)
proof (induction qs arbitrary: s n)
  case Nil
  then show ?case by simp
next
  case (Cons q qs)
  obtain k m s1 where k: "qb_queue_len B q s = (Inr k, s1)" "sum_queue_len B qs s1 = (Inr m, s')" "n = k + m"
    using Cons.prems by (auto split: prod.splits sum.splits)
  with Cons.IH [OF k(2)] conforming_len [OF assms(1) k(1)] show ?case by simp
qed

lemma clear_queues_ok:
  assumes "conforming_backend B items" and "clear_queues B qs s = (Inr (), s')"
  shows "items s' = (\<lambda>q. if q \<in> set qs then {#} else items s q)"
  using assms(2)
proof (induction qs arbitrary: s)
  case Nil
  then show ?case by simp
next
  case (Cons q qs)
  obtain s1 where s1: "qb_clear_queue B q s = (Inr (), s1)" "clear_queues B qs s1 = (Inr (), s')"
    using Cons.prems by (auto split: prod.splits sum.splits)
  with Cons.IH [OF s1(2)] conforming_clear [OF assms(1) s1(1)] show ?case by (auto simp: fun_eq_iff)
qed

lemma level_for_zero:
  assumes "levels \<le> 256" and "1 \<le> levels"
  shows "level_for levels (PyInt 0) = Inr (levels div 2)"
    and "level_for levels (PyFloat (Fin 0)) = Inr (levels div 2)"
proof -
  let ?c = "int levels div 2"
  have c: "clamp_level levels ?c = levels div 2"
    using assms(2) by (simp add: clamp_level_def)
  then show "level_for levels (PyInt 0) = Inr (levels div 2)"
    by (simp add: level_for_def)
  have d: "is_double (of_int ?c)" using assms(1) by (intro is_double_of_int) simp
  have "is_double (of_int (2 * ?c + 1) / 2 ^ 1)"
    using assms(1) by (intro is_double_dyadic) simp_all
  then have e: "fadd (of_int ?c) (1 / 2) = Fin (of_int ?c + 1 / 2)"
    by (simp add: fadd_def add_divide_distrib)
  have "\<lfloor>(of_int ?c :: rat) + 1 / 2\<rfloor> = ?c" by linarith
  with c d e show "level_for levels (PyFloat (Fin 0)) = Inr (levels div 2)"
    by (simp add: level_for_def fsub_def)
qed

section \<open>Properties\<close>

text \<open>
  The priority-to-level map: the level is a valid bucket index, a higher priority never gets a
  later bucket, for integers and for floats rounded as doubles, and Scrapy's default priority
  zero gets the middle bucket.
\<close>

lemma level_for_orders_priorities:
  assumes "1 \<le> levels" and "levels \<le> 256"
  shows "(\<forall>v l. level_for levels v = Inr l \<longrightarrow> l < levels)
    \<and> (\<forall>m n k l. m \<le> n \<and> level_for levels (PyInt m) = Inr k \<and> level_for levels (PyInt n) = Inr l
        \<longrightarrow> l \<le> k)
    \<and> (\<forall>x y k l. x \<le> y \<and> level_for levels (PyFloat (Fin x)) = Inr k
        \<and> level_for levels (PyFloat (Fin y)) = Inr l \<longrightarrow> l \<le> k)
    \<and> level_for levels (PyInt 0) = Inr (levels div 2)
    \<and> level_for levels (PyFloat (Fin 0)) = Inr (levels div 2)"
  using level_for_bound [OF assms(1)] level_for_int_mono level_for_float_mono level_for_zero [OF assms(2,1)]
  by blast

text \<open>
  A non-blocking priority pop on a backend with isolated queues takes an item from the
  highest-priority bucket that has one and removes exactly that item; it answers \<open>None\<close> only when
  every bucket is empty.
\<close>

lemma prio_pop_highest_level:
  assumes "conforming_backend B items" and "bucket_names h p q = Inr names"
    and "prio_pop h B p q (PyFloat (Fin 0)) s = (Inr r, s')"
  shows "case r of
      None \<Rightarrow> (\<forall>name \<in> set names. items s name = {#}) \<and> items s' = items s
    | Some x \<Rightarrow> \<exists>i < length names. (\<forall>j < i. items s (names ! j) = {#}) \<and> x \<in># items s (names ! i)
        \<and> items s' = (items s)(names ! i := items s (names ! i) - {#x#})"
proof -
  have "scan_pop B names s = (Inr r, s')"
    using assms(2,3)
    by (auto simp: prio_pop_def scan_then_wait_def split: prod.splits sum.splits option.splits)
  then show ?thesis
    using scan_pop_None [OF assms(1)] scan_pop_Some [OF assms(1)] by (cases r) auto
qed

definition prio_demo :: prio where
  "prio_demo = \<lparr>pr_levels = 2, pr_name_generation = PyStr ''legacy_v1'',
     pr_backend_type = PyStr ''redis'', pr_physical_names = Map.empty\<rparr>"

lemma prio_demo_names: "bucket_names demo_digest prio_demo ''q'' = Inr [''q:p0'', ''q:p1'']"
  by (simp add: bucket_names_def prio_demo_def bucket_name_def physical_strategy_queue_name_def
      legacy_colon_backends_def Let_def str_of_nat.simps char_of_def upt_rec bit_0)

text \<open>
  Priority \<open>queue_len\<close> reports the items of all buckets together, and after \<open>clear\<close> every
  bucket is empty while every other queue of the backend is untouched.
\<close>

lemma prio_len_and_clear:
  assumes "conforming_backend B items" and "bucket_names h p q = Inr names"
    and "prio_queue_len h B p q s = (Inr n, s')" and "prio_clear h B p q s' = (Inr (), s'')"
  shows "n = sum_list (map (\<lambda>name. size (items s name)) names)
    \<and> items s'' = (\<lambda>name. if name \<in> set names then {#} else items s name)"
proof -
  have "sum_queue_len B names s = (Inr n, s')" "clear_queues B names s' = (Inr (), s'')"
    using assms(2-4) by (simp_all add: prio_queue_len_def prio_clear_def)
  with sum_queue_len_ok [OF assms(1)] clear_queues_ok [OF assms(1)] show ?thesis by metis
qed

end
