(* ===== verification/Work_Stealing.thy ===== *)
theory Work_Stealing
  imports Priority_Strategy
begin

text \<open>
  \<open>queue/strategies/work_stealing.py\<close> and \<open>queue/strategies/throttle.py\<close>: strategies that keep
  their items in the backend and add pop-side behaviour, a steal cursor and a rate gate.

  \<open>time.monotonic()\<close> and the throttle's injectable clock are a parameter that reads the backend's
  state and may change it, since time passes between calls. Deadlines are doubles; a deadline too
  large for a double is infinite, as in Python.

  Shown: construction normalises the peer list (no duplicates, never the worker itself, at most
  256); a non-blocking pop serves the worker's own queue first, then the first non-empty peer in
  rotation order, moves the cursor just past it, and answers \<open>None\<close> only when everything is empty;
  the throttle spaces successful pops by its interval.
\<close>

section \<open>Work stealing: construction\<close>

record ws =
  ws_worker_id :: string
  ws_peer_ids :: "string list"
  ws_steal_timeout :: rat
  ws_steal_idx :: nat
  ws_name_generation :: pyval
  ws_backend_type :: pyval

definition max_steal_peers :: nat where
  "max_steal_peers = 256"

text \<open>The peer loop of \<open>__init__\<close>: validate, skip repetitions, bound the count.\<close>

fun normalize_peers :: "string list \<Rightarrow> string list \<Rightarrow> pyval list \<Rightarrow> string list result" where
  "normalize_peers seen acc [] = Inr acc"
| "normalize_peers seen acc (v # vs) =
     (case v of
        PyStr peer \<Rightarrow>
          (if peer = [] then Inl ValueError
           else rbind (validate_key_name peer None) (\<lambda>_.
             if peer \<in> set seen then normalize_peers seen acc vs
             else if max_steal_peers < length (acc @ [peer]) then Inl ValueError
             else normalize_peers (peer # seen) (acc @ [peer]) vs))
      | _ \<Rightarrow> Inl ValueError)"

text \<open>\<open>fresh_id\<close> is what \<open>uuid.uuid4().hex\<close> yields for an omitted worker id.\<close>

definition ws_init ::
  "string \<Rightarrow> pyval \<Rightarrow> pyval \<Rightarrow> pyval list \<Rightarrow> pyval \<Rightarrow> pyval \<Rightarrow> ws result" where
  "ws_init fresh_id backend_type worker_id peer_ids steal_timeout generation =
     rbind (ensure_fanout_backend_supported backend_type) (\<lambda>_.
     rbind (normalize_queue_timeout steal_timeout) (\<lambda>st.
     rbind (case worker_id of
              PyNone \<Rightarrow> Inr fresh_id
            | PyStr w \<Rightarrow> if w = [] then Inl ValueError
                         else rbind (validate_key_name w None) (\<lambda>_. Inr w)
            | _ \<Rightarrow> Inl ValueError) (\<lambda>w.
     if generation \<noteq> PyStr ''v2'' \<and> generation \<noteq> PyStr ''legacy_v1'' then Inl ValueError
     else rbind (normalize_peers [w] [] peer_ids) (\<lambda>peers.
       Inr \<lparr>ws_worker_id = w, ws_peer_ids = peers, ws_steal_timeout = st, ws_steal_idx = 0,
            ws_name_generation = generation, ws_backend_type = backend_type\<rparr>))))"

definition worker_queue :: "(bytes \<Rightarrow> string) \<Rightarrow> ws \<Rightarrow> string \<Rightarrow> string \<Rightarrow> string result" where
  "worker_queue h w q worker_id = worker_name h (ws_backend_type w) (ws_name_generation w) q worker_id"

section \<open>Work stealing: operations\<close>

definition remaining_timeout :: "('s \<Rightarrow> rat \<times> 's) \<Rightarrow> pyfloat option \<Rightarrow> 's \<Rightarrow> pyfloat \<times> 's" where
  "remaining_timeout clock deadline s =
     (case deadline of
        None \<Rightarrow> (Fin 0, s)
      | Some d \<Rightarrow> (case clock s of (now, s') \<Rightarrow> (fmax (Fin 0) (fminus d now), s')))"

definition ws_push ::
  "(bytes \<Rightarrow> string) \<Rightarrow> ('tok, 's) queue_backend \<Rightarrow> ws \<Rightarrow> string \<Rightarrow> bytes \<Rightarrow> rat \<Rightarrow> 's
    \<Rightarrow> (unit, 's) outcome" where
  "ws_push h B w q item priority s =
     (case worker_queue h w q (ws_worker_id w) of
        Inl e \<Rightarrow> (Inl e, s)
      | Inr own \<Rightarrow> qb_push B own item priority s)"

fun scan_first :: "('r, 's) popper \<Rightarrow> string list \<Rightarrow> 's \<Rightarrow> ('r option, 's) outcome" where
  "scan_first pop [] s = (Inr None, s)"
| "scan_first pop (q # qs) s =
     (case pop q (Fin 0) s of
        (Inr None, s') \<Rightarrow> scan_first pop qs s'
      | out \<Rightarrow> out)"

text \<open>
  The steal loop: probe the peers in the given order of indices, each with at most the steal
  timeout; report the index of the peer that yielded.
\<close>

fun steal_scan ::
  "('r, 's) popper \<Rightarrow> ('s \<Rightarrow> rat \<times> 's) \<Rightarrow> rat \<Rightarrow> pyfloat option \<Rightarrow> string list \<Rightarrow> nat list \<Rightarrow> 's
    \<Rightarrow> (('r \<times> nat) option, 's) outcome" where
  "steal_scan pop clock st deadline peers [] s = (Inr None, s)"
| "steal_scan pop clock st deadline peers (idx # idxs) s =
     (case remaining_timeout clock deadline s of
        (remaining, s1) \<Rightarrow>
          (case pop (peers ! idx) (fmin (Fin st) remaining) s1 of
             (Inl e, s2) \<Rightarrow> (Inl e, s2)
           | (Inr (Some x), s2) \<Rightarrow> (Inr (Some (x, idx)), s2)
           | (Inr None, s2) \<Rightarrow> steal_scan pop clock st deadline peers idxs s2))"

definition steal_order :: "nat \<Rightarrow> nat \<Rightarrow> nat list" where
  "steal_order cursor n = map (\<lambda>i. (cursor + i) mod n) [0..<n]"

text \<open>The blocking fallback on the worker's own queue and the final re-scan.\<close>

definition ws_fallback ::
  "('r, 's) popper \<Rightarrow> ('s \<Rightarrow> rat \<times> 's) \<Rightarrow> pyfloat option \<Rightarrow> string \<Rightarrow> string list \<Rightarrow> 's
    \<Rightarrow> ('r option, 's) outcome" where
  "ws_fallback pop clock deadline own peers s =
     (case remaining_timeout clock deadline s of
        (remaining, s1) \<Rightarrow>
          (if fless (Fin 0) remaining then
             (case pop own remaining s1 of
                (Inr None, s2) \<Rightarrow> scan_first pop (own # peers) s2
              | out \<Rightarrow> out)
           else (Inr None, s1)))"

definition ws_pop_from ::
  "('r, 's) popper \<Rightarrow> ('s \<Rightarrow> rat \<times> 's) \<Rightarrow> rat \<Rightarrow> string \<Rightarrow> string list \<Rightarrow> ws \<Rightarrow> 's
    \<Rightarrow> ('r option, ws \<times> 's) outcome" where
  "ws_pop_from pop clock t own peers w s =
     (case (if 0 < t then (case clock s of (now, s') \<Rightarrow> (Some (fadd now t), s')) else (None, s)) of
        (deadline, s0) \<Rightarrow>
          (case pop own (Fin 0) s0 of
             (Inl e, s1) \<Rightarrow> (Inl e, w, s1)
           | (Inr (Some x), s1) \<Rightarrow> (Inr (Some x), w, s1)
           | (Inr None, s1) \<Rightarrow>
               (case steal_scan pop clock (ws_steal_timeout w) deadline peers
                       (steal_order (ws_steal_idx w) (length peers)) s1 of
                  (Inl e, s2) \<Rightarrow> (Inl e, w, s2)
                | (Inr (Some (x, idx)), s2) \<Rightarrow>
                    (Inr (Some x), w\<lparr>ws_steal_idx := (idx + 1) mod length peers\<rparr>, s2)
                | (Inr None, s2) \<Rightarrow>
                    (case ws_fallback pop clock deadline own peers s2 of
                       (r, s3) \<Rightarrow> (r, w, s3)))))"

text \<open>The validated timeout and the physical names of the own and the peer queues.\<close>

definition ws_names ::
  "(bytes \<Rightarrow> string) \<Rightarrow> ws \<Rightarrow> string \<Rightarrow> pyval \<Rightarrow> (rat \<times> string \<times> string list) result" where
  "ws_names h w q timeout =
     rbind (normalize_queue_timeout timeout) (\<lambda>t.
     rbind (worker_queue h w q (ws_worker_id w)) (\<lambda>own.
     rbind (rmap (worker_queue h w q) (ws_peer_ids w)) (\<lambda>peers. Inr (t, own, peers))))"

definition ws_pop ::
  "(bytes \<Rightarrow> string) \<Rightarrow> ('tok, 's) queue_backend \<Rightarrow> ('s \<Rightarrow> rat \<times> 's) \<Rightarrow> string \<Rightarrow> pyval \<Rightarrow> ws \<Rightarrow> 's
    \<Rightarrow> (bytes option, ws \<times> 's) outcome" where
  "ws_pop h B clock q timeout w s =
     (case ws_names h w q timeout of
        Inl e \<Rightarrow> (Inl e, w, s)
      | Inr (t, own, peers) \<Rightarrow> ws_pop_from (qb_pop B) clock t own peers w s)"

definition ws_pop_with_ack ::
  "(bytes \<Rightarrow> string) \<Rightarrow> ('tok, 's) queue_backend \<Rightarrow> ('s \<Rightarrow> rat \<times> 's) \<Rightarrow> string \<Rightarrow> pyval \<Rightarrow> ws \<Rightarrow> 's
    \<Rightarrow> (bytes option \<times> 'tok ack_ref option, ws \<times> 's) outcome" where
  "ws_pop_with_ack h B clock q timeout w s =
     (case ws_names h w q timeout of
        Inl e \<Rightarrow> (Inl e, w, s)
      | Inr (t, own, peers) \<Rightarrow>
          (case ws_pop_from (ack_call B) clock t own peers w s of
             (Inl e, ws') \<Rightarrow> (Inl e, ws')
           | (Inr None, ws') \<Rightarrow> (Inr (None, None), ws')
           | (Inr (Some found), ws') \<Rightarrow> (Inr found, ws')))"

definition ws_queue_len ::
  "(bytes \<Rightarrow> string) \<Rightarrow> ('tok, 's) queue_backend \<Rightarrow> ws \<Rightarrow> string \<Rightarrow> 's \<Rightarrow> (nat, 's) outcome" where
  "ws_queue_len h B w q s =
     (case rmap (worker_queue h w q) (ws_worker_id w # ws_peer_ids w) of
        Inl e \<Rightarrow> (Inl e, s)
      | Inr names \<Rightarrow> sum_queue_len B names s)"

definition ws_clear ::
  "(bytes \<Rightarrow> string) \<Rightarrow> ('tok, 's) queue_backend \<Rightarrow> ws \<Rightarrow> string \<Rightarrow> 's \<Rightarrow> (unit, 's) outcome" where
  "ws_clear h B w q s =
     (case worker_queue h w q (ws_worker_id w) of
        Inl e \<Rightarrow> (Inl e, s)
      | Inr own \<Rightarrow> qb_clear_queue B own s)"

section \<open>Throttle\<close>

record throttle =
  th_min_interval :: rat
  th_last_pop :: "rat option"

definition throttle_max_min_interval :: rat where
  "throttle_max_min_interval = 3600"

definition throttle_init :: "pyval \<Rightarrow> throttle result" where
  "throttle_init min_interval =
     rbind (case min_interval of
              PyInt n \<Rightarrow> (case float_of_int n of Inl _ \<Rightarrow> Inl ValueError | Inr x \<Rightarrow> Inr x)
            | PyFloat (Fin x) \<Rightarrow> Inr x
            | _ \<Rightarrow> Inl ValueError) (\<lambda>m.
       if m < 0 then Inl ValueError
       else if throttle_max_min_interval < m then Inl ConfigurationError
       else Inr \<lparr>th_min_interval = m, th_last_pop = None\<rparr>)"

definition throttled :: "throttle \<Rightarrow> rat \<Rightarrow> bool" where
  "throttled th now \<longleftrightarrow>
     (case th_last_pop th of
        None \<Rightarrow> False
      | Some l \<Rightarrow> fless (fsub now l) (Fin (th_min_interval th)))"

definition throttle_pop ::
  "('tok, 's) queue_backend \<Rightarrow> ('s \<Rightarrow> rat \<times> 's) \<Rightarrow> string \<Rightarrow> pyval \<Rightarrow> throttle \<Rightarrow> 's
    \<Rightarrow> (bytes option, throttle \<times> 's) outcome" where
  "throttle_pop B clock q timeout th s =
     (case normalize_queue_timeout timeout of
        Inl e \<Rightarrow> (Inl e, th, s)
      | Inr t \<Rightarrow>
          (if th_min_interval th = 0 then
             (case qb_pop B q (Fin t) s of (r, s') \<Rightarrow> (r, th, s'))
           else case clock s of (now, s1) \<Rightarrow>
             if throttled th now then (Inr None, th, s1)
             else case qb_pop B q (Fin t) s1 of
               (Inl e, s2) \<Rightarrow> (Inl e, th, s2)
             | (Inr None, s2) \<Rightarrow> (Inr None, th, s2)
             | (Inr (Some x), s2) \<Rightarrow>
                 (case clock s2 of (committed, s3) \<Rightarrow>
                    (Inr (Some x), th\<lparr>th_last_pop := Some committed\<rparr>, s3))))"

definition throttle_pop_with_ack ::
  "('tok, 's) queue_backend \<Rightarrow> ('s \<Rightarrow> rat \<times> 's) \<Rightarrow> string \<Rightarrow> pyval \<Rightarrow> throttle \<Rightarrow> 's
    \<Rightarrow> (bytes option \<times> 'tok ack_ref option, throttle \<times> 's) outcome" where
  "throttle_pop_with_ack B clock q timeout th s =
     (case normalize_queue_timeout timeout of
        Inl e \<Rightarrow> (Inl e, th, s)
      | Inr t \<Rightarrow>
          (if th_min_interval th = 0 then
             (case pop_backend_instance_with_ack B q (Fin t) s of (r, s') \<Rightarrow> (r, th, s'))
           else case clock s of (now, s1) \<Rightarrow>
             if throttled th now then (Inr (None, None), th, s1)
             else case pop_backend_instance_with_ack B q (Fin t) s1 of
               (Inl e, s2) \<Rightarrow> (Inl e, th, s2)
             | (Inr (None, token), s2) \<Rightarrow> (Inr (None, token), th, s2)
             | (Inr (Some x, token), s2) \<Rightarrow>
                 (case clock s2 of (committed, s3) \<Rightarrow>
                    (Inr (Some x, token), th\<lparr>th_last_pop := Some committed\<rparr>, s3))))"

definition throttle_clear ::
  "('tok, 's) queue_backend \<Rightarrow> string \<Rightarrow> throttle \<Rightarrow> 's \<Rightarrow> (unit, throttle \<times> 's) outcome" where
  "throttle_clear B q th s =
     (case qb_clear_queue B q s of
        (Inl e, s') \<Rightarrow> (Inl e, th, s')
      | (Inr _, s') \<Rightarrow> (Inr (), th\<lparr>th_last_pop := None\<rparr>, s'))"

section \<open>Lemmas\<close>

lemma normalize_peers_ok:
  assumes "normalize_peers seen acc vs = Inr peers" and "distinct acc" and "set acc \<subseteq> set seen"
    and "length acc \<le> max_steal_peers"
  shows "distinct peers \<and> set peers \<inter> (set seen - set acc) = {} \<and> length peers \<le> max_steal_peers"
  using assms
proof (induction vs arbitrary: seen acc)
  case Nil
  then show ?case by auto
next
  case (Cons v vs)
  from Cons.prems(1) obtain peer where v: "v = PyStr peer" "validate_key_name peer None = Inr ()"
    by (auto simp: rbind_eq_Inr_iff split: pyval.splits if_splits)
  show ?case
  proof (cases "peer \<in> set seen")
    case True
    with Cons.prems v have "normalize_peers seen acc vs = Inr peers" by (simp split: if_splits)
    then show ?thesis by (rule Cons.IH) (use Cons.prems in auto)
  next
    case False
    with Cons.prems(1) v have n: "normalize_peers (peer # seen) (acc @ [peer]) vs = Inr peers"
      and len: "length (acc @ [peer]) \<le> max_steal_peers"
      by (simp_all add: not_less split: if_splits)
    have "distinct (acc @ [peer])" "set (acc @ [peer]) \<subseteq> set (peer # seen)"
      using Cons.prems(2,3) False by auto
    from Cons.IH [OF n this len] False Cons.prems(3) show ?thesis by auto
  qed
qed

lemma remaining_timeout_none [simp]: "remaining_timeout clock None s = (Fin 0, s)"
  by (simp add: remaining_timeout_def)

lemma fmin_zero: "0 \<le> st \<Longrightarrow> fmin (Fin st) (Fin 0) = Fin 0"
  by (auto simp: fmin_def)

lemma steal_scan_result:
  assumes "conforming_backend B items" and "0 \<le> st"
    and "steal_scan (qb_pop B) clock st None peers idxs s = (Inr r, s')"
  shows "case r of
      None \<Rightarrow> (\<forall>i \<in> set idxs. items s (peers ! i) = {#}) \<and> items s' = items s
    | Some (x, idx) \<Rightarrow> \<exists>k < length idxs. idx = idxs ! k \<and> (\<forall>j < k. items s (peers ! (idxs ! j)) = {#})
        \<and> x \<in># items s (peers ! idx) \<and> items s' = (items s)(peers ! idx := items s (peers ! idx) - {#x#})"
  using assms(3)
proof (induction idxs arbitrary: s)
  case Nil
  then show ?case by auto
next
  case (Cons i idxs)
  show ?case
  proof (cases "\<exists>x. qb_pop B (peers ! i) (Fin 0) s = (Inr (Some x), s')")
    case True
    then obtain x where x: "qb_pop B (peers ! i) (Fin 0) s = (Inr (Some x), s')" by blast
    with Cons.prems fmin_zero [OF assms(2)] have "r = Some (x, i)" by simp
    with conforming_pop_Some [OF assms(1) x] show ?thesis
      by (auto intro!: exI [of _ 0])
  next
    case False
    then obtain s1 where s1: "qb_pop B (peers ! i) (Fin 0) s = (Inr None, s1)"
      "steal_scan (qb_pop B) clock st None peers idxs s1 = (Inr r, s')"
      using Cons.prems fmin_zero [OF assms(2)] by (auto split: prod.splits sum.splits option.splits)
    from conforming_pop_None [OF assms(1) s1(1)] have e: "items s1 = items s" "items s (peers ! i) = {#}"
      by simp_all
    show ?thesis
    proof (cases r)
      case None
      with Cons.IH [OF s1(2)] e show ?thesis by simp
    next
      case (Some y)
      obtain x idx where y: "y = (x, idx)" by (cases y)
      with Some Cons.IH [OF s1(2)] e obtain k where "k < length idxs" "idx = idxs ! k"
        "\<forall>j < k. items s (peers ! (idxs ! j)) = {#}" "x \<in># items s (peers ! idx)"
        "items s' = (items s)(peers ! idx := items s (peers ! idx) - {#x#})" by auto
      then have "\<exists>k < length (i # idxs). idx = (i # idxs) ! k
          \<and> (\<forall>j < k. items s (peers ! ((i # idxs) ! j)) = {#}) \<and> x \<in># items s (peers ! idx)
          \<and> items s' = (items s)(peers ! idx := items s (peers ! idx) - {#x#})"
        using e(2) by (intro exI [of _ "Suc k"]) (simp add: All_less_Suc2)
      with Some y show ?thesis by simp
    qed
  qed
qed

lemma set_steal_order: "set (steal_order c n) = {..<n}"
proof
  show "set (steal_order c n) \<subseteq> {..<n}" by (auto simp: steal_order_def)
  show "{..<n} \<subseteq> set (steal_order c n)"
  proof
    fix i assume i: "i \<in> {..<n}"
    then have n: "0 < n" by auto
    let ?k = "(i + (n - c mod n)) mod n"
    have "(c + ?k) mod n = (c mod n + (i + (n - c mod n))) mod n" by (simp add: mod_simps)
    also have "c mod n + (i + (n - c mod n)) = i + n"
      using mod_less_divisor [OF n, of c] by linarith
    finally have "(c + ?k) mod n = i" using i by simp
    moreover have "?k < n" using n by simp
    ultimately show "i \<in> set (steal_order c n)" by (force simp: steal_order_def)
  qed
qed

section \<open>Properties\<close>

text \<open>
  Construction of a work-stealing worker: the normalised peer list has no repetitions, never
  contains the worker itself, and has at most 256 entries.
\<close>

lemma ws_init_ok:
  assumes "ws_init fresh bt wid peer_ids st g = Inr w"
  shows "distinct (ws_peer_ids w) \<and> ws_worker_id w \<notin> set (ws_peer_ids w)
    \<and> length (ws_peer_ids w) \<le> 256 \<and> 0 \<le> ws_steal_timeout w"
proof -
  from assms obtain wkr t where n: "normalize_peers [wkr] [] peer_ids = Inr (ws_peer_ids w)"
    "ws_worker_id w = wkr" "normalize_queue_timeout st = Inr t" "ws_steal_timeout w = t"
    by (auto simp: ws_init_def rbind_eq_Inr_iff split: if_splits)
  from normalize_peers_ok [OF n(1)] normalize_queue_timeout_nonneg [OF n(3)] n(2,4) show ?thesis
    by (simp add: max_steal_peers_def)
qed

text \<open>
  A non-blocking work-stealing pop on a backend with isolated queues: the worker's own queue
  is served first; otherwise the first non-empty peer in rotation order from the cursor is, and
  the cursor moves just past that peer; \<open>None\<close> is answered only when the own queue and all peer
  queues are empty, and exactly the returned item is removed.
\<close>

lemma ws_pop_own_then_rotation:
  assumes "conforming_backend B items" and "0 \<le> ws_steal_timeout w"
    and "ws_pop_from (qb_pop B) clock 0 own peers w s = (Inr r, w', s')"
  shows "case r of
      None \<Rightarrow> items s own = {#} \<and> (\<forall>p \<in> set peers. items s p = {#}) \<and> w' = w \<and> items s' = items s
    | Some x \<Rightarrow>
        (x \<in># items s own \<and> w' = w \<and> items s' = (items s)(own := items s own - {#x#}))
      \<or> (items s own = {#} \<and> (\<exists>k < length peers. let idx = (ws_steal_idx w + k) mod length peers in
            (\<forall>j < k. items s (peers ! ((ws_steal_idx w + j) mod length peers)) = {#})
          \<and> x \<in># items s (peers ! idx) \<and> ws_steal_idx w' = (idx + 1) mod length peers
          \<and> items s' = (items s)(peers ! idx := items s (peers ! idx) - {#x#})))"
proof (cases "\<exists>x. qb_pop B own (Fin 0) s = (Inr (Some x), s')")
  case True
  then obtain x where x: "qb_pop B own (Fin 0) s = (Inr (Some x), s')" by blast
  with assms(3) have "r = Some x" "w' = w" by (simp_all add: ws_pop_from_def)
  with conforming_pop_Some [OF assms(1) x] show ?thesis by simp
next
  case False
  then obtain s1 where s1: "qb_pop B own (Fin 0) s = (Inr None, s1)"
    using assms(3) by (auto simp: ws_pop_from_def split: prod.splits sum.splits option.splits)
  from conforming_pop_None [OF assms(1) s1] have e: "items s1 = items s" "items s own = {#}" by simp_all
  let ?order = "steal_order (ws_steal_idx w) (length peers)"
  obtain r2 s2 where st: "steal_scan (qb_pop B) clock (ws_steal_timeout w) None peers ?order s1 = (Inr r2, s2)"
    and r: "(r2 = None \<and> r = None \<and> w' = w \<and> s' = s2) \<or> (\<exists>x idx. r2 = Some (x, idx) \<and> r = Some x
        \<and> w' = w\<lparr>ws_steal_idx := (idx + 1) mod length peers\<rparr> \<and> s' = s2)"
    using assms(3) s1 by (auto simp: ws_pop_from_def ws_fallback_def split: prod.splits sum.splits option.splits)
  note scan = steal_scan_result [OF assms(1,2) st]
  show ?thesis
  proof (cases r2)
    case None
    with scan have "\<forall>i < length peers. items s1 (peers ! i) = {#}" "items s2 = items s1"
      by (auto simp: set_steal_order)
    with None r e show ?thesis by (auto simp: in_set_conv_nth)
  next
    case (Some y)
    obtain x idx where y: "y = (x, idx)" by (cases y)
    with Some scan obtain k where k: "k < length peers" "idx = (ws_steal_idx w + k) mod length peers"
      "\<forall>j < k. items s (peers ! ((ws_steal_idx w + j) mod length peers)) = {#}"
      "x \<in># items s (peers ! idx)" "items s2 = (items s)(peers ! idx := items s (peers ! idx) - {#x#})"
      by (auto simp: steal_order_def e)
    with Some y r e(2) show ?thesis by (auto simp: Let_def)
  qed
qed

definition ws_demo :: ws where
  "ws_demo = \<lparr>ws_worker_id = ''w'', ws_peer_ids = [''a'', ''b'', ''c''], ws_steal_timeout = 1 / 20,
     ws_steal_idx = 2, ws_name_generation = PyStr ''v2'', ws_backend_type = PyStr ''redis''\<rparr>"

abbreviation ws_demo_store :: "string \<Rightarrow> bytes list" where
  "ws_demo_store \<equiv> (\<lambda>_. []) (''pa'' := [[4]], ''pb'' := [[5]])"

lemma ws_demo_pop:
  "ws_pop_from (qb_pop list_backend) (\<lambda>s. (0, s)) 0 ''own'' [''pa'', ''pb'', ''pc''] ws_demo ws_demo_store
     = (Inr (Some [4]), ws_demo\<lparr>ws_steal_idx := 1\<rparr>, ws_demo_store(''pa'' := []))"
proof -
  have "steal_order 2 (Suc (Suc (Suc 0))) = [2, 0, Suc 0]" by (simp add: steal_order_def upt_rec)
  then show ?thesis by (simp add: ws_pop_from_def list_backend_def ws_demo_def fmin_def)
qed

section \<open>The rate gate\<close>

text \<open>
  The history of a run of pops: for every pop that returned an item, the clock reading at its gate
  and the reading it committed as the last pop.
\<close>

fun throttle_run ::
  "('tok, 's) queue_backend \<Rightarrow> ('s \<Rightarrow> rat \<times> 's) \<Rightarrow> (string \<times> pyval) list \<Rightarrow> throttle \<Rightarrow> 's
    \<Rightarrow> (rat \<times> rat) list" where
  "throttle_run B clock [] th s = []"
| "throttle_run B clock ((q, t) # calls) th s =
     (case throttle_pop B clock q t th s of
        (r, th', s') \<Rightarrow>
          (case r of
             Inr (Some x) \<Rightarrow> (fst (clock s), the (th_last_pop th')) # throttle_run B clock calls th' s'
           | _ \<Rightarrow> throttle_run B clock calls th' s'))"

fun spaced :: "rat \<Rightarrow> rat option \<Rightarrow> (rat \<times> rat) list \<Rightarrow> bool" where
  "spaced m prev [] = True"
| "spaced m prev ((gate, committed) # rest) =
     ((case prev of None \<Rightarrow> True | Some p \<Rightarrow> \<not> fless (fsub gate p) (Fin m)) \<and> spaced m (Some committed) rest)"

text \<open>
  Throttling: in every run of pops on one strategy, whatever the clock and the backend do, two
  successive pops that returned an item are at least the configured interval apart, measured as
  the code measures it from the commit of the first to the gate of the second.
\<close>

lemma throttle_spaces_pops:
  assumes "th_min_interval th \<noteq> 0"
  shows "spaced (th_min_interval th) (th_last_pop th) (throttle_run B clock calls th s)"
  using assms
proof (induction calls arbitrary: th s)
  case Nil
  then show ?case by simp
next
  case (Cons c calls)
  obtain q t where c: "c = (q, t)" by (cases c)
  obtain r th' s' where p: "throttle_pop B clock q t th s = (r, th', s')" by (cases "throttle_pop B clock q t th s") auto
  show ?case
  proof (cases "\<exists>x. r = Inr (Some x)")
    case True
    then obtain x where x: "r = Inr (Some x)" by blast
    with p Cons.prems obtain committed where d: "\<not> throttled th (fst (clock s))" "th' = th\<lparr>th_last_pop := Some committed\<rparr>"
      by (auto simp: throttle_pop_def split: sum.splits prod.splits option.splits if_splits)
    then have "spaced (th_min_interval th) (Some committed) (throttle_run B clock calls th' s')"
      using Cons.IH [of th' s'] Cons.prems by simp
    with c p x d show ?thesis by (simp add: throttled_def split: option.splits)
  next
    case False
    with p Cons.prems have "th' = th"
      by (auto simp: throttle_pop_def split: sum.splits prod.splits option.splits if_splits)
    with False c p Cons show ?thesis by (auto split: sum.splits option.splits)
  qed
qed

end
