(* ===== verification/Held_Items.thy ===== *)
theory Held_Items
  imports Queue_Base "HOL-Library.Product_Lexorder" "HOL-Library.Sublist"
begin

text \<open>
  What the two holding strategies, \<open>queue/strategies/delay.py\<close> and
  \<open>queue/strategies/time_wheel.py\<close>, have in common: numeric validation of delays, priorities and
  clock readings, Python's \<open>float()\<close> on the values of a decoded snapshot, the heap of
  \<open>(ready_at, seq, item, priority)\<close> tuples, and the \<open>_pop_until_deadline\<close> loop that alternates
  draining and bounded backend waits.

  A clock is a function of the environment's state that returns a reading of any type, as the
  injected callable may; the code validates the reading.
\<close>

section \<open>Numbers\<close>

text \<open>\<open>_require_finite\<close> and \<open>_finite_number\<close>: an \<open>int\<close> or \<open>float\<close>, not a bool, with a finite double.\<close>

fun require_finite :: "pyval \<Rightarrow> rat result" where
  "require_finite (PyInt n) = (case float_of_int n of Inl _ \<Rightarrow> Inl ValueError | Inr x \<Rightarrow> Inr x)"
| "require_finite (PyFloat (Fin x)) = Inr x"
| "require_finite _ = Inl ValueError"

abbreviation finite_float :: "pyfloat \<Rightarrow> rat result" where
  "finite_float x \<equiv> require_finite (PyFloat x)"

lemma finite_float_Inr [simp]: "finite_float x = Inr y \<longleftrightarrow> x = Fin y"
  by (cases x) auto

lemma finite_float_Inl [simp]: "finite_float x = Inl e \<longleftrightarrow> e = ValueError \<and> (\<forall>y. x \<noteq> Fin y)"
  by (cases x) auto

text \<open>The comparison \<open>v > 0\<close>, which raises \<open>TypeError\<close> on values that are not numbers.\<close>

fun py_positive :: "pyval \<Rightarrow> bool result" where
  "py_positive (PyBool b) = Inr b"
| "py_positive (PyInt n) = Inr (0 < n)"
| "py_positive (PyFloat x) = Inr (fless (Fin 0) x)"
| "py_positive _ = Inl TypeError"

text \<open>
  \<open>float(s)\<close> of a string: surrounding white space, a sign, a decimal numeral with single
  underscores between digits, or one of the names of the special values.
\<close>

definition is_space :: "char \<Rightarrow> bool" where
  "is_space c \<longleftrightarrow> (let n = of_char c :: nat in (9 \<le> n \<and> n \<le> 13) \<or> (28 \<le> n \<and> n \<le> 32) \<or> n = 133 \<or> n = 160)"

definition strip_spaces :: "string \<Rightarrow> string" where
  "strip_spaces s = rev (dropWhile is_space (rev (dropWhile is_space s)))"

definition is_digit :: "char \<Rightarrow> bool" where
  "is_digit c \<longleftrightarrow> c \<in> set ''0123456789''"

definition skip_underscore :: "string \<Rightarrow> string" where
  "skip_underscore cs =
     (case cs of u # d # r \<Rightarrow> if u = CHR ''_'' \<and> is_digit d then d # r else cs | _ \<Rightarrow> cs)"

lemma length_skip_underscore: "length (skip_underscore cs) \<le> length cs"
  by (simp add: skip_underscore_def split: list.splits)

function scan_digits :: "string \<Rightarrow> string \<times> string" where
  "scan_digits [] = ([], [])"
| "scan_digits (c # cs) =
     (if is_digit c then (case scan_digits (skip_underscore cs) of (ds, r) \<Rightarrow> (c # ds, r))
      else ([], c # cs))"
  by pat_completeness auto
termination by (relation "measure length") (simp_all add: length_skip_underscore le_imp_less_Suc)

definition split_sign :: "string \<Rightarrow> bool \<times> string" where
  "split_sign s =
     (case s of
        c # r \<Rightarrow> if c = CHR ''-'' then (True, r) else if c = CHR ''+'' then (False, r) else (False, s)
      | [] \<Rightarrow> (False, []))"

definition digits_to_nat :: "string \<Rightarrow> nat" where
  "digits_to_nat ds = foldl (\<lambda>n c. 10 * n + (of_char c - 48)) 0 ds"

definition ascii_lower :: "char \<Rightarrow> char" where
  "ascii_lower c = (let n = of_char c :: nat in if 65 \<le> n \<and> n \<le> 90 then char_of (n + 32) else c)"

definition parse_exponent :: "string \<Rightarrow> int option" where
  "parse_exponent s =
     (case s of
        [] \<Rightarrow> Some 0
      | c # r \<Rightarrow>
          if ascii_lower c = CHR ''e'' then
            (case split_sign r of (neg, r1) \<Rightarrow>
               (case scan_digits r1 of (ds, r2) \<Rightarrow>
                  if ds \<noteq> [] \<and> r2 = [] then Some ((if neg then - 1 else 1) * int (digits_to_nat ds)) else None))
          else None)"

definition parse_decimal :: "string \<Rightarrow> rat option" where
  "parse_decimal s =
     (case scan_digits s of (ip, r1) \<Rightarrow>
        (case (if r1 \<noteq> [] \<and> hd r1 = CHR ''.'' then scan_digits (tl r1) else ([], r1)) of (fp, r2) \<Rightarrow>
           (case parse_exponent r2 of
              None \<Rightarrow> None
            | Some e \<Rightarrow>
                if ip = [] \<and> fp = [] then None
                else let m = of_nat (digits_to_nat (ip @ fp)); k = e - int (length fp) in
                  Some (if 0 \<le> k then m * 10 ^ nat k else m / 10 ^ nat (- k)))))"

definition float_of_string :: "string \<Rightarrow> pyfloat result" where
  "float_of_string s =
     (case split_sign (strip_spaces s) of (neg, body) \<Rightarrow>
        (let name = map ascii_lower body in
         if name = ''inf'' \<or> name = ''infinity'' then Inr (if neg then NInf else PInf)
         else if name = ''nan'' then Inr NaN
         else case parse_decimal body of
           None \<Rightarrow> Inl ValueError
         | Some v \<Rightarrow> Inr (round_double (if neg then - v else v))))"

text \<open>\<open>float(v)\<close> of a value of any type.\<close>

fun py_float :: "pyval \<Rightarrow> pyfloat result" where
  "py_float (PyBool b) = Inr (Fin (if b then 1 else 0))"
| "py_float (PyInt n) = (case float_of_int n of Inl e \<Rightarrow> Inl e | Inr x \<Rightarrow> Inr (Fin x))"
| "py_float (PyFloat x) = Inr x"
| "py_float (PyStr s) = float_of_string s"
| "py_float _ = Inl TypeError"

lemma float_of_string_example:
  "float_of_string '' -1_2.5e1'' = Inr (Fin (- 125))" "float_of_string ''1__0'' = Inl ValueError"
  "float_of_string ''+Inf'' = Inr PInf"
  by (simp_all add: float_of_string_def split_sign_def strip_spaces_def is_space_def parse_decimal_def
      parse_exponent_def is_digit_def skip_underscore_def digits_to_nat_def ascii_lower_def Let_def
      char_of_def bit_0)

text \<open>\<open>a - b\<close> where only the first operand is known to be finite, and \<open>a >= b\<close>.\<close>

fun fsub_of :: "rat \<Rightarrow> pyfloat \<Rightarrow> pyfloat" where
  "fsub_of a (Fin b) = fsub a b"
| "fsub_of a PInf = NInf"
| "fsub_of a NInf = PInf"
| "fsub_of a NaN = NaN"

fun fge :: "rat \<Rightarrow> pyfloat \<Rightarrow> bool" where
  "fge a (Fin b) = (b \<le> a)"
| "fge a NInf = True"
| "fge a _ = False"

text \<open>\<open>max(0.0, a - b)\<close>\<close>

definition nonneg_gap :: "rat \<Rightarrow> rat \<Rightarrow> pyfloat" where
  "nonneg_gap a b = fmax (Fin 0) (fsub a b)"

section \<open>The heap of held items\<close>

text \<open>
  \<open>heapq\<close> keeps a list of tuples whose element 0 is a least one. Sequence numbers are distinct,
  so the tuples are totally ordered by \<open>(ready_at, seq)\<close> and all the code observes (the head, the
  length, \<open>sorted\<close>) is determined by the ascending list, which is the representation here.
\<close>

record held =
  h_ready :: rat
  h_seq :: nat
  h_item :: bytes
  h_priority :: rat

definition held_key :: "held \<Rightarrow> rat \<times> nat" where
  "held_key h = (h_ready h, h_seq h)"

definition heappush :: "held \<Rightarrow> held list \<Rightarrow> held list" where
  "heappush h hs = insort_key held_key h hs"

definition heap_ok :: "nat \<Rightarrow> held list \<Rightarrow> bool" where
  "heap_ok seq hs \<longleftrightarrow> sorted (map held_key hs) \<and> (\<forall>h \<in> set hs. h_seq h < seq) \<and> distinct (map h_seq hs)"

lemma sorted_map_fst:
  fixes xs :: "('a :: linorder \<times> 'b :: linorder) list"
  shows "sorted xs \<Longrightarrow> sorted (map fst xs)"
  by (induction xs) (auto simp: less_eq_prod_def)

lemma heap_ok_Nil [simp]: "heap_ok n []"
  by (simp add: heap_ok_def)

lemma set_heappush [simp]: "set (heappush h hs) = insert h (set hs)"
  by (simp add: heappush_def set_insort_key)

lemma mset_heappush [simp]: "mset (heappush h hs) = add_mset h (mset hs)"
  by (induction hs) (auto simp: heappush_def)

lemma length_heappush [simp]: "length (heappush h hs) = Suc (length hs)"
  by (simp add: heappush_def)

lemma distinct_map_mset: "mset xs = mset ys \<Longrightarrow> distinct (map f xs) \<longleftrightarrow> distinct (map f ys)"
  by (metis mset_eq_imp_distinct_iff mset_map)

lemma heap_ok_heappush:
  assumes "heap_ok n hs" and "h_seq h = n"
  shows "heap_ok (Suc n) (heappush h hs)"
proof -
  have "distinct (map h_seq (h # hs))" using assms by (auto simp: heap_ok_def)
  moreover have "mset (h # hs) = mset (heappush h hs)" by simp
  ultimately have "distinct (map h_seq (heappush h hs))" using distinct_map_mset by blast
  with assms show ?thesis by (auto simp: heap_ok_def heappush_def sorted_insort_key set_insort_key)
qed

lemma heap_ok_tl: "heap_ok n (h # hs) \<Longrightarrow> heap_ok n hs"
  by (auto simp: heap_ok_def)

lemma heap_head_least: "heap_ok n (h # hs) \<Longrightarrow> g \<in> set hs \<Longrightarrow> h_ready h \<le> h_ready g"
  by (fastforce simp: heap_ok_def held_key_def)

section \<open>Releasing held items to the live queue\<close>

text \<open>
  The transfer loop: each item is pushed with its own priority and leaves the holding structure
  only after the push returned. The second component is what is still held when the loop ends or
  a push raises.
\<close>

fun push_run ::
  "('tok, 's) queue_backend \<Rightarrow> string \<Rightarrow> held list \<Rightarrow> 's \<Rightarrow> (unit, held list \<times> 's) outcome" where
  "push_run B q [] s = (Inr (), [], s)"
| "push_run B q (h # hs) s =
     (case qb_push B q (h_item h) (h_priority h) s of
        (Inl e, s') \<Rightarrow> (Inl e, h # hs, s')
      | (Inr _, s') \<Rightarrow> push_run B q hs s')"

lemma push_run_split:
  assumes "push_run B q hs s = (r, rest, s')"
  obtains done_hs where "hs = done_hs @ rest" "r = Inr () \<longrightarrow> rest = []"
proof -
  from assms have "\<exists>d. hs = d @ rest \<and> (r = Inr () \<longrightarrow> rest = [])"
  proof (induction hs arbitrary: s)
    case (Cons h hs)
    then show ?case
      by (fastforce split: prod.splits sum.splits)
  qed simp
  then show ?thesis using that by blast
qed

lemma push_run_conserves:
  assumes conf: "conforming_backend B items" and run: "push_run B q hs s = (Inr (), rest, s')"
  shows "items s' = (items s)(q := items s q + mset (map h_item hs))"
  using run
proof (induction hs arbitrary: s)
  case (Cons h hs)
  then obtain s1 where p: "qb_push B q (h_item h) (h_priority h) s = (Inr (), s1)"
    and r: "push_run B q hs s1 = (Inr (), rest, s')"
    by (auto split: prod.splits sum.splits)
  from conforming_push [OF conf p] Cons.IH [OF r] show ?case by (auto simp: fun_eq_iff)
qed simp

text \<open>What a failing transfer loop did.\<close>

lemma push_run_failure:
  assumes "push_run B q hs s = (Inl e, rest, s')"
  obtains pushed failed later s1 where "hs = pushed @ failed # later" "rest = failed # later"
    "push_run B q pushed s = (Inr (), [], s1)"
    "qb_push B q (h_item failed) (h_priority failed) s1 = (Inl e, s')"
proof -
  from assms have "\<exists>pushed failed later s1. hs = pushed @ failed # later \<and> rest = failed # later
    \<and> push_run B q pushed s = (Inr (), [], s1) \<and> qb_push B q (h_item failed) (h_priority failed) s1 = (Inl e, s')"
  proof (induction hs arbitrary: s)
    case (Cons h hs)
    obtain r s1 where p: "qb_push B q (h_item h) (h_priority h) s = (r, s1)" by fastforce
    show ?case
    proof (cases r)
      case (Inl e1)
      with p Cons.prems show ?thesis by (intro exI [of _ "[]"]) auto
    next
      case (Inr u)
      with p Cons.prems have "push_run B q hs s1 = (Inl e, rest, s')" by simp
      from Cons.IH [OF this] obtain pushed failed later s2 where
        "hs = pushed @ failed # later" "rest = failed # later" "push_run B q pushed s1 = (Inr (), [], s2)"
        "qb_push B q (h_item failed) (h_priority failed) s2 = (Inl e, s')" by blast
      with p Inr show ?thesis by (intro exI [of _ "h # pushed"]) auto
    qed
  qed simp
  then show ?thesis using that by blast
qed

section \<open>The deadline loop\<close>

definition read_clock :: "('s \<Rightarrow> pyval \<times> 's) \<Rightarrow> 's \<Rightarrow> (rat, 's) outcome" where
  "read_clock clock s = (case clock s of (v, s') \<Rightarrow> (require_finite v, s'))"

text \<open>How long one backend pop may wait: up to the caller's deadline and the next held one.\<close>

definition wait_budget :: "pyfloat \<Rightarrow> rat \<Rightarrow> pyfloat option \<Rightarrow> pyfloat" where
  "wait_budget deadline before next_ready =
     (let remaining = fmax (Fin 0) (fminus deadline before) in
      case next_ready of
        None \<Rightarrow> remaining
      | Some r \<Rightarrow> fmin remaining (fmax (Fin 0) (fminus r before)))"

datatype 'r pop_round = Return "'r option" | Again pyfloat

text \<open>
  One pass of the \<open>while True\<close> loop of \<open>_pop_until_deadline\<close> over the holding state and the
  environment. The first pass fixes the deadline, which one of the two strategies validates.
\<close>

definition pop_round ::
  "('h \<Rightarrow> 's \<Rightarrow> (unit, 'h \<times> 's) outcome) \<Rightarrow> ('h \<Rightarrow> pyfloat option) \<Rightarrow> (pyfloat \<Rightarrow> pyfloat result)
    \<Rightarrow> ('s \<Rightarrow> pyval \<times> 's) \<Rightarrow> (pyfloat \<Rightarrow> 's \<Rightarrow> ('r option, 's) outcome) \<Rightarrow> rat
    \<Rightarrow> pyfloat option \<Rightarrow> 'h \<times> 's \<Rightarrow> ('r pop_round, 'h \<times> 's) outcome" where
  "pop_round drain next_ready check_deadline clock backend_pop timeout deadline st =
     (case drain (fst st) (snd st) of
        (Inl e, st1) \<Rightarrow> (Inl e, st1)
      | (Inr _, h, s1) \<Rightarrow>
     (case read_clock clock s1 of
        (Inl e, s2) \<Rightarrow> (Inl e, h, s2)
      | (Inr before, s2) \<Rightarrow>
     (case (case deadline of Some d \<Rightarrow> Inr d | None \<Rightarrow> check_deadline (fadd before timeout)) of
        Inl e \<Rightarrow> (Inl e, h, s2)
      | Inr d \<Rightarrow>
     (case backend_pop (wait_budget d before (next_ready h)) s2 of
        (Inl e, s3) \<Rightarrow> (Inl e, h, s3)
      | (Inr (Some x), s3) \<Rightarrow> (Inr (Return (Some x)), h, s3)
      | (Inr None, s3) \<Rightarrow>
     (case read_clock clock s3 of
        (Inl e, s4) \<Rightarrow> (Inl e, h, s4)
      | (Inr after, s4) \<Rightarrow>
          (if timeout = 0 \<or> fge after d \<or> after \<le> before then (Inr (Return None), h, s4)
           else (Inr (Again d), h, s4)))))))"

partial_function (option) pop_loop ::
  "(pyfloat option \<Rightarrow> 'st \<Rightarrow> ('r pop_round, 'st) outcome) \<Rightarrow> pyfloat option \<Rightarrow> 'st
    \<Rightarrow> ('r option, 'st) outcome option" where
  "pop_loop pass deadline st =
     (case pass deadline st of
        (Inl e, st') \<Rightarrow> Some (Inl e, st')
      | (Inr (Return r), st') \<Rightarrow> Some (Inr r, st')
      | (Inr (Again d), st') \<Rightarrow> pop_loop pass (Some d) st')"

text \<open>
  A monotone environment: \<open>t\<close> is the time of a state, readings are finite doubles that lie between
  the times before and after the reading, and no backend call turns the time back.
\<close>

definition monotone_clock :: "('s \<Rightarrow> pyval \<times> 's) \<Rightarrow> ('s \<Rightarrow> rat) \<Rightarrow> bool" where
  "monotone_clock clock t \<longleftrightarrow>
     (\<forall>s. \<exists>x s'. clock s = (PyFloat (Fin x), s') \<and> is_double x \<and> t s \<le> x \<and> x \<le> t s')"

definition keeps_time :: "('s \<Rightarrow> rat) \<Rightarrow> ('s \<Rightarrow> 'a \<times> 's) \<Rightarrow> bool" where
  "keeps_time t f \<longleftrightarrow> (\<forall>s. t s \<le> t (snd (f s)))"

lemma read_clock_monotone:
  assumes "monotone_clock clock t"
  obtains x s' where "read_clock clock s = (Inr x, s')" "is_double x" "t s \<le> x" "x \<le> t s'"
  using assms unfolding monotone_clock_def read_clock_def by (metis old.prod.case require_finite.simps(2))

lemma push_run_keeps_time:
  assumes "\<And>x p. keeps_time t (qb_push B q x p)" and "push_run B q hs s = (r, rest, s')"
  shows "t s \<le> t s'"
  using assms(2)
proof (induction hs arbitrary: s)
  case (Cons h hs)
  obtain r1 s1 where p: "qb_push B q (h_item h) (h_priority h) s = (r1, s1)" by fastforce
  with assms(1) have "t s \<le> t s1" by (metis keeps_time_def snd_conv)
  with Cons p show ?case by (fastforce split: sum.splits)
qed simp

text \<open>
  Every pass that goes round again has seen the clock advance, and a double below $2^{1024}$ can
  advance only finitely often in steps of at least $2^{-1074}$: this is the termination measure.
\<close>

definition ticks_left :: "rat \<Rightarrow> nat" where
  "ticks_left x = nat \<lfloor>(2 ^ 1024 - x) * 2 ^ 1074\<rfloor>"

lemma round_mag_multiple: "\<exists>n. round_mag x * 2 ^ 1074 = of_int n"
proof -
  have "round_mag x * 2 ^ 1074 = of_int (round_half_even (x * 2 ^ 1074 / 2 ^ ulp_exp (x * 2 ^ 1074))
      * 2 ^ ulp_exp (x * 2 ^ 1074))"
    unfolding round_mag_def round_scaled_def by simp
  then show ?thesis by blast
qed

lemma double_multiple:
  assumes "is_double x"
  obtains n where "x * 2 ^ 1074 = of_int n" "x < 2 ^ 1024"
proof (cases "0 \<le> x")
  case True
  with assms have "x = round_mag x" "x < 2 ^ 1024"
    unfolding is_double_def round_double_def by (auto split: if_splits)
  with round_mag_multiple [of x] that show ?thesis by metis
next
  case False
  with assms have "x = - round_mag (- x)"
    unfolding is_double_def round_double_def by (auto split: if_splits)
  moreover obtain n where "round_mag (- x) * 2 ^ 1074 = of_int n" using round_mag_multiple by blast
  ultimately have "x * 2 ^ 1074 = of_int (- n)" by (metis mult_minus_left of_int_minus)
  moreover have "(0::rat) < 2 ^ 1024" by simp
  ultimately show ?thesis using that False by (meson less_trans not_le)
qed

lemma ticks_left_less:
  assumes "is_double x" "is_double y" "x < y"
  shows "ticks_left y < ticks_left x"
proof -
  obtain n where n: "x * 2 ^ 1074 = of_int n" using double_multiple [OF assms(1)] .
  obtain m where m: "y * 2 ^ 1074 = of_int m" and lt: "y < 2 ^ 1024" using double_multiple [OF assms(2)] .
  have p: "(0::rat) < 2 ^ 1074" by simp
  define K :: int where "K = 2 ^ 1024 * 2 ^ 1074"
  have K: "(2::rat) ^ 1024 * 2 ^ 1074 = of_int K" unfolding K_def by simp
  have "x * 2 ^ 1074 < y * 2 ^ 1074" using p assms(3) by (rule mult_strict_right_mono [rotated])
  then have nm: "n < m" unfolding n m by simp
  have "y * 2 ^ 1074 < 2 ^ 1024 * 2 ^ 1074" using p lt by (rule mult_strict_right_mono [rotated])
  then have mK: "m < K" unfolding m K by simp
  have "(2 ^ 1024 - x) * 2 ^ 1074 = of_int (K - n)" "(2 ^ 1024 - y) * 2 ^ 1074 = of_int (K - m)"
    using n m K by (simp_all only: left_diff_distrib of_int_diff)
  then show ?thesis using nm mK unfolding ticks_left_def by (simp only: floor_of_int)
qed

text \<open>Enough structure of a pass for termination: it never turns time back, and it advances.\<close>

lemma pop_round_again:
  assumes clock: "monotone_clock clock t"
    and drain: "\<forall>h s. t s \<le> t (snd (snd (drain h s)))"
    and pop: "\<And>w. keeps_time t (backend_pop w)"
    and again: "pop_round drain next_ready check_deadline clock backend_pop timeout deadline st
                  = (Inr (Again d), st')"
  obtains x y where "is_double x" "is_double y" "t (snd st) \<le> x" "x < y" "y \<le> t (snd st')"
proof -
  obtain r h s1 where d: "drain (fst st) (snd st) = (r, h, s1)" using prod_cases3 by blast
  obtain x s2 where x: "read_clock clock s1 = (Inr x, s2)" "is_double x" "t s1 \<le> x" "x \<le> t s2"
    using read_clock_monotone [OF clock] by blast
  from again d x obtain d' s3 y s4 where
    b: "backend_pop (wait_budget d' x (next_ready h)) s2 = (Inr None, s3)"
    and c: "read_clock clock s3 = (Inr y, s4)" "x < y" "snd st' = s4"
    by (auto simp: pop_round_def split: sum.splits prod.splits option.splits if_splits)
  have "is_double y" "t s3 \<le> y" "y \<le> t s4" using read_clock_monotone [OF clock, of s3] c(1) by auto
  moreover have "t (snd st) \<le> t s1" using drain [rule_format, of "snd st" "fst st"] d by simp
  moreover have "t s2 \<le> t s3" using pop b by (metis keeps_time_def snd_conv)
  ultimately show ?thesis using x c by (intro that [of x y]) auto
qed

lemma pop_loop_returns:
  assumes clock: "monotone_clock clock t"
    and drain: "\<forall>h s. t s \<le> t (snd (snd (drain h s)))"
    and pop: "\<And>w. keeps_time t (backend_pop w)"
  shows "\<exists>out. pop_loop (pop_round drain next_ready check_deadline clock backend_pop timeout) deadline st
           = Some out"
proof -
  let ?pass = "pop_round drain next_ready check_deadline clock backend_pop timeout"
  note again = pop_round_again [OF clock drain pop]
  have bounded: "\<exists>out. pop_loop ?pass deadline st = Some out"
    if "is_double b" "b \<le> t (snd st)" for b deadline st
    using that
  proof (induction "ticks_left b" arbitrary: b deadline st rule: less_induct)
    case less
    show ?case
    proof (cases "\<exists>d st'. ?pass deadline st = (Inr (Again d), st')")
      case True
      then obtain d st' where p: "?pass deadline st = (Inr (Again d), st')" by blast
      obtain x y where "is_double y" "t (snd st) \<le> x" "x < y" "y \<le> t (snd st')"
        using again [OF p] by blast
      with less have "\<exists>out. pop_loop ?pass (Some d) st' = Some out"
        by (intro less.hyps [of y]) (auto intro: ticks_left_less)
      with p show ?thesis by (subst pop_loop.simps) simp
    next
      case False
      then show ?thesis
        by (subst pop_loop.simps) (auto split: sum.splits pop_round.splits prod.splits)
    qed
  qed
  show ?thesis
  proof (cases "\<exists>d st'. ?pass deadline st = (Inr (Again d), st')")
    case True
    then obtain d st' where p: "?pass deadline st = (Inr (Again d), st')" by blast
    obtain y where "is_double y" "y \<le> t (snd st')" using again [OF p] by blast
    with bounded have "\<exists>out. pop_loop ?pass (Some d) st' = Some out" by blast
    with p show ?thesis by (subst pop_loop.simps) simp
  next
    case False
    then show ?thesis
      by (subst pop_loop.simps) (auto split: sum.splits pop_round.splits prod.splits)
  qed
qed

text \<open>With timeout 0 there is exactly one pass, and its backend pop does not wait.\<close>

lemma fmin_zero_fmax [simp]: "fmin (Fin 0) (fmax (Fin 0) y) = Fin 0"
  by (cases y) (auto simp: fmin_def fmax_def)

lemma wait_budget_zero [simp]: "wait_budget (Fin b) b next_ready = Fin 0"
proof -
  have "fmax (Fin 0) (fminus (Fin b) b) = Fin 0" by (simp add: fmax_def)
  then show ?thesis by (simp add: wait_budget_def Let_def del: fminus.simps split: option.split)
qed

lemma pop_loop_zero:
  assumes "drain h s = (Inr (), h1, s1)" and "read_clock clock s1 = (Inr b, s2)" and "is_double b"
    and "check_deadline (Fin b) = Inr (Fin b)"
  shows "pop_loop (pop_round drain next_ready check_deadline clock backend_pop 0) None (h, s) =
    Some (case backend_pop (Fin 0) s2 of
        (Inl e, s3) \<Rightarrow> (Inl e, h1, s3)
      | (Inr (Some x), s3) \<Rightarrow> (Inr (Some x), h1, s3)
      | (Inr None, s3) \<Rightarrow>
          (case read_clock clock s3 of (Inl e, s4) \<Rightarrow> (Inl e, h1, s4) | (Inr _, s4) \<Rightarrow> (Inr None, h1, s4)))"
  using assms
  by (subst pop_loop.simps) (auto simp: pop_round_def split: prod.splits sum.splits option.splits)

lemma pop_loop_drain_raises:
  assumes "drain h s = (Inl e, st)"
  shows "pop_loop (pop_round drain next_ready check_deadline clock backend_pop timeout) None (h, s) = Some (Inl e, st)"
  using assms by (subst pop_loop.simps) (simp add: pop_round_def)

section \<open>Values of a decoded snapshot\<close>

text \<open>\<open>entry[k]\<close> on a decoded value.\<close>

fun py_item :: "pyval \<Rightarrow> string \<Rightarrow> pyval result" where
  "py_item (PyDict kvs) k = (case map_of kvs k of None \<Rightarrow> Inl KeyError | Some v \<Rightarrow> Inr v)"
| "py_item _ k = Inl TypeError"

text \<open>
  How long the process was down: zero for a version 1 snapshot, else the current wall time less
  the recorded one, never negative.
\<close>

definition downtime_of :: "('s \<Rightarrow> pyval \<times> 's) \<Rightarrow> bool \<Rightarrow> pyval \<Rightarrow> 's \<Rightarrow> (pyfloat, 's) outcome" where
  "downtime_of wall_clock v2 data s =
     (if \<not> v2 then (Inr (Fin 0), s)
      else case rbind (py_item data ''snapshot_wall_time'') py_float of
        Inl e \<Rightarrow> (Inl e, s)
      | Inr saved \<Rightarrow>
          (case wall_clock s of (v, s') \<Rightarrow>
             (rbind (py_float v) (\<lambda>current.
              rbind (finite_float saved) (\<lambda>saved_time.
              rbind (finite_float current) (\<lambda>current_time.
                Inr (nonneg_gap current_time saved_time)))), s')))"

fun fadd_of :: "rat \<Rightarrow> pyfloat \<Rightarrow> pyfloat" where
  "fadd_of a (Fin b) = fadd a b"
| "fadd_of a x = x"

section \<open>Restored deadlines\<close>

text \<open>The value of a rounded number of moderate size.\<close>

definition rd :: "rat \<Rightarrow> rat" where
  "rd x = (case round_double x of Fin y \<Rightarrow> y | _ \<Rightarrow> 0)"

lemma round_mag_53: "0 \<le> x \<Longrightarrow> x \<le> 2 ^ 53 \<Longrightarrow> round_mag x \<le> 2 ^ 53"
  using round_mag_mono [of x "2 ^ 53"] round_mag_dyadic [of "2 ^ 53" 0] by simp

lemma round_double_rd:
  assumes "\<bar>x\<bar> \<le> 2 ^ 53"
  shows "round_double x = Fin (rd x)"
proof -
  have "round_mag \<bar>x\<bar> < 2 ^ 1024"
    using round_mag_53 [of "\<bar>x\<bar>"] assms two_power_53_less by (meson abs_ge_zero le_less_trans)
  then have "round_double x \<noteq> PInf" "round_double x \<noteq> NInf" "round_double x \<noteq> NaN"
    unfolding round_double_def by (auto simp: abs_if split: if_splits)
  then show ?thesis unfolding rd_def by (simp split: pyfloat.splits)
qed

lemma rd_mono: "x \<le> y \<Longrightarrow> \<bar>x\<bar> \<le> 2 ^ 53 \<Longrightarrow> \<bar>y\<bar> \<le> 2 ^ 53 \<Longrightarrow> rd x \<le> rd y"
  using round_double_mono [of x y] round_double_rd by blast

lemma rd_power:
  assumes "k \<le> 53"
  shows "rd (2 ^ k) = 2 ^ k" "rd (- (2 ^ k)) = - (2 ^ k)"
proof -
  have "(2::int) ^ k \<le> 2 ^ 53" using assms by (intro power_increasing) simp_all
  then have "is_double (of_int (2 ^ k))" "is_double (of_int (- (2 ^ k)))" by (intro is_double_of_int, simp)+
  then show "rd (2 ^ k) = 2 ^ k" "rd (- (2 ^ k)) = - (2 ^ k)" by (simp_all add: rd_def)
qed

lemma rd_bound:
  assumes "\<bar>x\<bar> \<le> 2 ^ k" and "k \<le> 53"
  shows "\<bar>rd x\<bar> \<le> 2 ^ k"
proof -
  have k: "(2::rat) ^ k \<le> 2 ^ 53" using assms(2) by (intro power_increasing) simp_all
  then have x: "\<bar>x\<bar> \<le> 2 ^ 53" using assms(1) by linarith
  have "rd x \<le> rd (2 ^ k)" using assms(1) x k by (intro rd_mono) auto
  moreover have "rd (- (2 ^ k)) \<le> rd x" using assms(1) x k by (intro rd_mono) auto
  ultimately show ?thesis using rd_power [OF assms(2)] by simp
qed

lemma fmax_zero_Fin: "fmax (Fin 0) (Fin x) = Fin (max 0 x)"
  by (simp add: fmax_def max_def)

text \<open>
  The deadline an entry is restored with: what was left of its delay, less the downtime, never
  negative, from the restoring clock's reading.
\<close>

definition restored_deadline :: "rat \<Rightarrow> rat \<Rightarrow> rat \<Rightarrow> rat" where
  "restored_deadline now' downtime remaining = rd (now' + max 0 (rd (remaining - downtime)))"

lemma offset_bound:
  assumes "0 \<le> d" "d \<le> 2 ^ 52" "\<bar>r\<bar> \<le> 2 ^ 52"
  shows "\<bar>r - d\<bar> \<le> 2 ^ 53" "0 \<le> max 0 (rd (r - d))" "max 0 (rd (r - d)) \<le> 2 ^ 52"
proof -
  show b: "\<bar>r - d\<bar> \<le> 2 ^ 53" using assms by (simp add: abs_le_iff)
  show "0 \<le> max 0 (rd (r - d))" by simp
  have "rd (r - d) \<le> rd (2 ^ 52)" using b assms by (intro rd_mono) (simp_all add: abs_le_iff)
  then show "max 0 (rd (r - d)) \<le> 2 ^ 52" using rd_power(1) [of 52] by simp
qed

lemma restored_deadline_mono:
  assumes "0 \<le> d" "d \<le> 2 ^ 52" "0 \<le> now'" "now' \<le> 2 ^ 52" "\<bar>r\<bar> \<le> 2 ^ 52" "r \<le> r'" "\<bar>r'\<bar> \<le> 2 ^ 52"
  shows "restored_deadline now' d r \<le> restored_deadline now' d r'"
proof -
  have "max 0 (rd (r - d)) \<le> max 0 (rd (r' - d))"
    using rd_mono [of "r - d" "r' - d"] offset_bound(1) [of d r] offset_bound(1) [of d r'] assms by simp
  then show ?thesis unfolding restored_deadline_def
    using offset_bound [of d r] offset_bound [of d r'] assms by (intro rd_mono) auto
qed

lemma restored_sum:
  assumes "0 \<le> d" "d \<le> 2 ^ 52" "0 \<le> now'" "now' \<le> 2 ^ 52" "\<bar>r\<bar> \<le> 2 ^ 52"
  shows "fadd_of now' (fmax (Fin 0) (fsub_of r (Fin d))) = Fin (restored_deadline now' d r)"
proof -
  have "fsub_of r (Fin d) = Fin (rd (r - d))"
    using round_double_rd [OF offset_bound(1)] assms by (simp add: fsub_def)
  moreover have "fadd now' (max 0 (rd (r - d))) = Fin (restored_deadline now' d r)"
    using round_double_rd [of "now' + max 0 (rd (r - d))"] offset_bound [of d r] assms
    by (simp add: fadd_def restored_deadline_def)
  ultimately show ?thesis by (simp add: fmax_zero_Fin)
qed

text \<open>A store whose state carries a clock that advances by a second at every reading, up to a bound.\<close>

definition clocked_backend :: "(nat, nat \<times> (string \<Rightarrow> bytes list)) queue_backend" where
  "clocked_backend =
     \<lparr> qb_id = 0, qb_push_is_durable = True,
       qb_push = (\<lambda>q x p s. (Inr (), fst s, (snd s)(q := snd s q @ [x]))),
       qb_pop = (\<lambda>q t s. case snd s q of
           [] \<Rightarrow> (Inr None, s) | x # xs \<Rightarrow> (Inr (Some x), fst s, (snd s)(q := xs))),
       qb_queue_len = (\<lambda>q s. (Inr (length (snd s q)), s)),
       qb_clear_queue = (\<lambda>q s. (Inr (), fst s, (snd s)(q := []))),
       qb_pop_with_ack = None \<rparr>"

definition clocked_time :: "nat \<times> 'a \<Rightarrow> rat" where
  "clocked_time s = of_int (int (min (fst s) 1000))"

definition second_clock :: "nat \<times> 'a \<Rightarrow> pyval \<times> nat \<times> 'a" where
  "second_clock s = (PyFloat (Fin (clocked_time (Suc (fst s), snd s))), Suc (fst s), snd s)"

lemma second_clock_monotone: "monotone_clock second_clock clocked_time"
proof -
  have "is_double (clocked_time s)" for s :: "nat \<times> 'a"
    unfolding clocked_time_def by (rule is_double_of_int) simp
  then show ?thesis
    by (auto simp: monotone_clock_def second_clock_def) (simp add: clocked_time_def)
qed

lemma clocked_backend_keeps_time:
  "keeps_time clocked_time (qb_push clocked_backend q x p)"
  "keeps_time clocked_time (qb_pop clocked_backend q w)"
  by (auto simp: keeps_time_def clocked_backend_def clocked_time_def split: list.splits)

section \<open>The contract of a holding structure\<close>

text \<open>
  What both strategies promise of a drain at one clock reading. \<open>held\<close> reads the held entries off
  the strategy's state, \<open>due\<close> lists the ones this drain is to release. The drain is the transfer
  loop over the due entries: it raises exactly when the loop does, and it keeps exactly the
  entries the loop did not hand over.
\<close>

locale holding_store =
  fixes B :: "('tok, 's) queue_backend"
    and q :: string
    and drain_at :: "rat \<Rightarrow> 'h \<Rightarrow> 's \<Rightarrow> (unit, 'h \<times> 's) outcome"
    and due :: "rat \<Rightarrow> 'h \<Rightarrow> held list"
    and held :: "'h \<Rightarrow> held multiset"
    and wf :: "'h \<Rightarrow> bool"
  assumes drain_refines:
      "wf h \<Longrightarrow> push_run B q (due now h) s = (r, rest, s')
        \<Longrightarrow> \<exists>h'. drain_at now h s = (r, h', s') \<and> wf h' \<and> held h' + mset (due now h) = held h + mset rest"
    and due_held: "wf h \<Longrightarrow> mset (due now h) \<subseteq># held h"
    and due_ready: "wf h \<Longrightarrow> x \<in> set (due now h) \<Longrightarrow> h_ready x \<le> now"
    and due_sorted: "wf h \<Longrightarrow> sorted (map held_key (due now h))"
begin

lemma drain_run:
  assumes "wf h" and "drain_at now h s = (r, h', s')"
  obtains rest where "push_run B q (due now h) s = (r, rest, s')" "wf h'"
    "held h' + mset (due now h) = held h + mset rest"
proof -
  obtain r0 rest s0 where p: "push_run B q (due now h) s = (r0, rest, s0)" using prod_cases3 by blast
  with drain_refines [OF assms(1) p] assms(2) that show ?thesis by auto
qed

lemma drain_released:
  assumes "wf h" and "drain_at now h s = (r, h', s')"
  obtains released where "prefix released (due now h)" "held h = held h' + mset released"
    "r = Inr () \<longrightarrow> released = due now h"
proof -
  obtain rest where p: "push_run B q (due now h) s = (r, rest, s')"
    and c: "held h' + mset (due now h) = held h + mset rest"
    using drain_run [OF assms] by blast
  obtain d where d: "due now h = d @ rest" "r = Inr () \<longrightarrow> rest = []" using push_run_split [OF p] by blast
  with c have "held h = held h' + mset d" by simp
  with d show ?thesis by (intro that [of d]) auto
qed

lemma drain_never_early:
  assumes "wf h" and "drain_at now h s = (r, h', s')" and "now < h_ready x"
  shows "count (held h') x = count (held h) x"
proof -
  obtain rel where rel: "prefix rel (due now h)" "held h = held h' + mset rel"
    using drain_released [OF assms(1,2)] by blast
  have "x \<notin> set rel"
    using rel(1) due_ready [OF assms(1), of x now] assms(3) set_mono_prefix by fastforce
  then have "count (mset rel) x = 0" by (simp add: count_mset_0_iff)
  with rel(2) show ?thesis by simp
qed

lemma drain_conserves:
  assumes "wf h" and "drain_at now h s = (Inr (), h', s')" and "conforming_backend B items"
  shows "items s' q + image_mset h_item (held h') = items s q + image_mset h_item (held h)"
    and "p \<noteq> q \<Longrightarrow> items s' p = items s p"
proof -
  obtain rest where p: "push_run B q (due now h) s = (Inr (), rest, s')"
    and c: "held h' + mset (due now h) = held h + mset rest"
    using drain_run [OF assms(1,2)] by blast
  have "rest = []" using push_run_split [OF p] by blast
  with c have "held h = held h' + mset (due now h)" by simp
  with push_run_conserves [OF assms(3) p]
  show "items s' q + image_mset h_item (held h') = items s q + image_mset h_item (held h)"
    and "p \<noteq> q \<Longrightarrow> items s' p = items s p"
    by simp_all
qed

end

end
