(* ===== verification/Delay_Queue.thy ===== *)
theory Delay_Queue
  imports Held_Items
begin

text \<open>
  The delay strategy, \<open>queue/strategies/delay.py\<close>: items wait in a heap until their deadline and
  are then pushed to the live queue with the priority the caller gave.

  The state keeps the bound queue name, the default delay, the heap, the tie-break counter and the
  soft cap. The lock makes each operation one transition; monitor hooks and log records, which no
  operation's result depends on, are left out.
\<close>

section \<open>State and operations\<close>

record delayq =
  dq_bound :: "string option"
  dq_default_delay :: rat
  dq_holding :: "held list"
  dq_seq :: nat
  dq_max_held :: int

definition delay_init :: "pyval \<Rightarrow> pyval \<Rightarrow> delayq result" where
  "delay_init default_delay max_held =
     rbind (require_finite default_delay) (\<lambda>d.
       if d < 0 then Inl ValueError
       else case max_held of
         PyInt m \<Rightarrow> Inr \<lparr>dq_bound = None, dq_default_delay = d, dq_holding = [], dq_seq = 0, dq_max_held = m\<rparr>
       | _ \<Rightarrow> Inl ValueError)"

definition delay_bind :: "string \<Rightarrow> delayq \<Rightarrow> (unit, delayq) outcome" where
  "delay_bind q dq =
     (case bind_single_queue q (dq_bound dq) of (r, b) \<Rightarrow> (r, dq\<lparr>dq_bound := b\<rparr>))"

text \<open>The critical section of a delayed push: read the clock, compute the deadline, push the tuple.\<close>

definition hold_item ::
  "('s \<Rightarrow> pyval \<times> 's) \<Rightarrow> bytes \<Rightarrow> rat \<Rightarrow> rat \<Rightarrow> delayq \<Rightarrow> 's \<Rightarrow> (unit, delayq \<times> 's) outcome" where
  "hold_item clock item priority effective dq s =
     (case read_clock clock s of
        (Inl e, s') \<Rightarrow> (Inl e, dq, s')
      | (Inr now, s') \<Rightarrow>
          (case finite_float (fadd now effective) of
             Inl e \<Rightarrow> (Inl e, dq, s')
           | Inr ready \<Rightarrow>
               (Inr (),
                dq\<lparr>dq_holding := heappush \<lparr>h_ready = ready, h_seq = dq_seq dq, h_item = item,
                                           h_priority = priority\<rparr> (dq_holding dq),
                   dq_seq := Suc (dq_seq dq)\<rparr>, s')))"

definition delay_args :: "pyval \<Rightarrow> pyval \<Rightarrow> (rat \<times> rat) result" where
  "delay_args delay priority =
     rbind (require_finite delay) (\<lambda>d.
     rbind (require_finite priority) (\<lambda>p.
       if d < 0 then Inl ValueError else Inr (d, p)))"

definition delay_push ::
  "('tok, 's) queue_backend \<Rightarrow> ('s \<Rightarrow> pyval \<times> 's) \<Rightarrow> string \<Rightarrow> bytes \<Rightarrow> pyval \<Rightarrow> pyval
    \<Rightarrow> delayq \<Rightarrow> 's \<Rightarrow> (unit, delayq \<times> 's) outcome" where
  "delay_push B clock q item priority delay dq s =
     (case delay_args delay priority of
        Inl e \<Rightarrow> (Inl e, dq, s)
      | Inr (d, p) \<Rightarrow>
          (case delay_bind q dq of
             (Inl e, dq1) \<Rightarrow> (Inl e, dq1, s)
           | (Inr _, dq1) \<Rightarrow>
               (let effective = (if 0 < d then d else dq_default_delay dq1) in
                if effective \<le> 0 then
                  (case qb_push B q item p s of (r, s') \<Rightarrow> (r, dq1, s'))
                else hold_item clock item p effective dq1 s)))"

text \<open>
  \<open>_prepare_push\<close> picks the route from the raw delay, before validation; \<open>is_push_durable\<close> is
  the same test. The prepared commit validates and then publishes on the frozen route.
\<close>

definition delay_push_durable :: "pyval \<Rightarrow> delayq \<Rightarrow> bool result" where
  "delay_push_durable delay dq =
     rbind (py_positive delay) (\<lambda>pos. Inr (\<not> pos \<and> dq_default_delay dq \<le> 0))"

definition delay_publish ::
  "('s \<Rightarrow> pyval \<times> 's) \<Rightarrow> pyval \<Rightarrow> pyval \<Rightarrow> bytes \<Rightarrow> delayq \<times> 's \<Rightarrow> (unit, delayq \<times> 's) outcome" where
  "delay_publish clock priority delay item st =
     (case delay_args delay priority of
        Inl e \<Rightarrow> (Inl e, st)
      | Inr (d, p) \<Rightarrow>
          hold_item clock item p (if 0 < d then d else dq_default_delay (fst st)) (fst st) (snd st))"

definition delay_commit ::
  "('tok, 's) queue_backend \<Rightarrow> ('s \<Rightarrow> pyval \<times> 's) \<Rightarrow> string \<Rightarrow> pyval \<Rightarrow> pyval \<Rightarrow> bytes \<Rightarrow> bool
    \<Rightarrow> delayq \<times> 's \<Rightarrow> (bool, delayq \<times> 's) outcome" where
  "delay_commit B clock q priority delay item require_durable st =
     (case delay_bind q (fst st) of
        (Inl e, dq1) \<Rightarrow> (Inl e, dq1, snd st)
      | (Inr _, dq1) \<Rightarrow>
          (case delay_push_durable delay dq1 of
             Inl e \<Rightarrow> (Inl e, dq1, snd st)
           | Inr True \<Rightarrow>
               (case delay_args delay priority of
                  Inl e \<Rightarrow> (Inl e, dq1, snd st)
                | Inr (d, p) \<Rightarrow>
                    (case push_backend_prepared B q p item require_durable (snd st) of
                       (r, s') \<Rightarrow> (r, dq1, s')))
           | Inr False \<Rightarrow>
               local_commit (delay_publish clock priority delay) item require_durable (dq1, snd st)))"

text \<open>\<open>_drain_ready\<close>: peek, push, and only then pop, while the head is due.\<close>

fun delay_drain_loop ::
  "('tok, 's) queue_backend \<Rightarrow> string \<Rightarrow> rat \<Rightarrow> held list \<Rightarrow> 's \<Rightarrow> (unit, held list \<times> 's) outcome" where
  "delay_drain_loop B q now [] s = (Inr (), [], s)"
| "delay_drain_loop B q now (h # hs) s =
     (if h_ready h \<le> now then
        (case qb_push B q (h_item h) (h_priority h) s of
           (Inl e, s') \<Rightarrow> (Inl e, h # hs, s')
         | (Inr _, s') \<Rightarrow> delay_drain_loop B q now hs s')
      else (Inr (), h # hs, s))"

definition delay_drain_at ::
  "('tok, 's) queue_backend \<Rightarrow> string \<Rightarrow> rat \<Rightarrow> delayq \<Rightarrow> 's \<Rightarrow> (unit, delayq \<times> 's) outcome" where
  "delay_drain_at B q now dq s =
     (case delay_drain_loop B q now (dq_holding dq) s of (r, hs, s') \<Rightarrow> (r, dq\<lparr>dq_holding := hs\<rparr>, s'))"

definition delay_drain_ready ::
  "('tok, 's) queue_backend \<Rightarrow> ('s \<Rightarrow> pyval \<times> 's) \<Rightarrow> string \<Rightarrow> delayq \<Rightarrow> 's \<Rightarrow> (unit, delayq \<times> 's) outcome" where
  "delay_drain_ready B clock q dq s =
     (case read_clock clock s of
        (Inl e, s') \<Rightarrow> (Inl e, dq, s')
      | (Inr now, s') \<Rightarrow> delay_drain_at B q now dq s')"

fun next_ready_at :: "delayq \<Rightarrow> pyfloat option" where
  "next_ready_at dq = (case dq_holding dq of [] \<Rightarrow> None | h # _ \<Rightarrow> Some (Fin (h_ready h)))"

definition check_deadline :: "pyfloat \<Rightarrow> pyfloat result" where
  "check_deadline d = (case finite_float d of Inl e \<Rightarrow> Inl e | Inr x \<Rightarrow> Inr (Fin x))"

definition delay_pop_until_deadline ::
  "('tok, 's) queue_backend \<Rightarrow> ('s \<Rightarrow> pyval \<times> 's) \<Rightarrow> string \<Rightarrow> rat \<Rightarrow> (pyfloat \<Rightarrow> 's \<Rightarrow> ('r option, 's) outcome)
    \<Rightarrow> delayq \<Rightarrow> 's \<Rightarrow> ('r option, delayq \<times> 's) outcome option" where
  "delay_pop_until_deadline B clock q timeout backend_pop dq s =
     pop_loop (pop_round (delay_drain_ready B clock q) next_ready_at check_deadline clock backend_pop timeout)
       None (dq, s)"

definition delay_pop ::
  "('tok, 's) queue_backend \<Rightarrow> ('s \<Rightarrow> pyval \<times> 's) \<Rightarrow> string \<Rightarrow> pyval \<Rightarrow> delayq \<Rightarrow> 's
    \<Rightarrow> (bytes option, delayq \<times> 's) outcome option" where
  "delay_pop B clock q timeout dq s =
     (case normalize_queue_timeout timeout of
        Inl e \<Rightarrow> Some (Inl e, dq, s)
      | Inr t \<Rightarrow>
          (case delay_bind q dq of
             (Inl e, dq1) \<Rightarrow> Some (Inl e, dq1, s)
           | (Inr _, dq1) \<Rightarrow> delay_pop_until_deadline B clock q t (qb_pop B q) dq1 s))"

definition delay_pop_with_ack ::
  "('tok, 's) queue_backend \<Rightarrow> ('s \<Rightarrow> pyval \<times> 's) \<Rightarrow> string \<Rightarrow> pyval \<Rightarrow> delayq \<Rightarrow> 's
    \<Rightarrow> (bytes option \<times> 'tok ack_ref option, delayq \<times> 's) outcome option" where
  "delay_pop_with_ack B clock q timeout dq s =
     (case normalize_queue_timeout timeout of
        Inl e \<Rightarrow> Some (Inl e, dq, s)
      | Inr t \<Rightarrow>
          (case delay_bind q dq of
             (Inl e, dq1) \<Rightarrow> Some (Inl e, dq1, s)
           | (Inr _, dq1) \<Rightarrow>
               map_option (\<lambda>(r, st). (ack_result r, st))
                 (delay_pop_until_deadline B clock q t (ack_call B q) dq1 s)))"

definition delay_queue_len ::
  "('tok, 's) queue_backend \<Rightarrow> string \<Rightarrow> delayq \<Rightarrow> 's \<Rightarrow> (nat, delayq \<times> 's) outcome" where
  "delay_queue_len B q dq s =
     (case delay_bind q dq of
        (Inl e, dq1) \<Rightarrow> (Inl e, dq1, s)
      | (Inr _, dq1) \<Rightarrow>
          (case qb_queue_len B q s of
             (Inl e, s') \<Rightarrow> (Inl e, dq1, s')
           | (Inr n, s') \<Rightarrow> (Inr (n + length (dq_holding dq1)), dq1, s')))"

definition delay_clear ::
  "('tok, 's) queue_backend \<Rightarrow> string \<Rightarrow> delayq \<Rightarrow> 's \<Rightarrow> (unit, delayq \<times> 's) outcome" where
  "delay_clear B q dq s =
     (case delay_bind q dq of
        (Inl e, dq1) \<Rightarrow> (Inl e, dq1, s)
      | (Inr _, dq1) \<Rightarrow>
          (case qb_clear_queue B q s of
             (Inl e, s') \<Rightarrow> (Inl e, dq1, s')
           | (Inr _, s') \<Rightarrow> (Inr (), dq1\<lparr>dq_holding := []\<rparr>, s')))"

definition delay_close :: "delayq \<Rightarrow> delayq" where
  "delay_close dq = dq\<lparr>dq_holding := []\<rparr>"

section \<open>Snapshot and restore\<close>

definition snapshot_entry :: "rat \<Rightarrow> held \<Rightarrow> pyval" where
  "snapshot_entry now h =
     PyDict [(''remaining'', PyFloat (nonneg_gap (h_ready h) now)),
             (''item_b64'', PyStr (b64encode (h_item h))),
             (''priority'', PyFloat (Fin (h_priority h)))]"

definition delay_snapshot ::
  "('s \<Rightarrow> pyval \<times> 's) \<Rightarrow> ('s \<Rightarrow> pyval \<times> 's) \<Rightarrow> delayq \<Rightarrow> 's \<Rightarrow> (blob option, 's) outcome" where
  "delay_snapshot clock wall_clock dq s =
     (if dq_holding dq = [] then (Inr None, s)
      else case read_clock clock s of
        (Inl e, s1) \<Rightarrow> (Inl e, s1)
      | (Inr now, s1) \<Rightarrow>
          (case read_clock wall_clock s1 of
             (Inl e, s2) \<Rightarrow> (Inl e, s2)
           | (Inr wall, s2) \<Rightarrow>
               (Inr (Some (json_dumps (PyDict
                  [(''version'', PyInt 2), (''strategy'', PyStr ''delay''),
                   (''snapshot_wall_time'', PyFloat (Fin wall)),
                   (''items'', PyList (map (snapshot_entry now) (dq_holding dq)))]))), s2)))"

text \<open>
  \<open>restore\<close>: the document's header, the clock readings and the downtime, each entry, and the
  rebuilt heap. The stable sort on \<open>(ready_at, original_deadline)\<close> is the sort on the triple that
  ends in the input position.
\<close>

definition delay_header :: "blob \<Rightarrow> (bool \<times> pyval \<times> pyval list) result" where
  "delay_header state =
     rbind (json_loads state) (\<lambda>data.
       if py_get data ''strategy'' \<noteq> Some (PyStr ''delay'') then Inl ValueError
       else if py_get data ''version'' \<noteq> Some (PyInt 1) \<and> py_get data ''version'' \<noteq> Some (PyInt 2)
       then Inl ValueError
       else rbind (as_list (py_get data ''items'')) (\<lambda>entries.
         Inr (py_get data ''version'' = Some (PyInt 2), data, entries)))"

definition delay_restore_entry :: "bool \<Rightarrow> rat \<Rightarrow> pyfloat \<Rightarrow> pyval \<Rightarrow> (rat \<times> rat \<times> bytes \<times> rat) result" where
  "delay_restore_entry v2 now downtime entry =
     rbind
       (if v2 then
          rbind (py_item entry ''remaining'') (\<lambda>v. rbind (require_finite v) (\<lambda>remaining.
            if remaining < 0 then Inl ValueError
            else rbind (finite_float (fadd_of now (fmax (Fin 0) (fsub_of remaining downtime)))) (\<lambda>ready.
              Inr (ready, remaining))))
        else
          rbind (py_item entry ''ready_at'') (\<lambda>v. rbind (py_float v) (\<lambda>x. rbind (finite_float x) (\<lambda>deadline.
            Inr (now, deadline)))))
       (\<lambda>(ready, deadline).
          rbind (rbind (py_item entry ''item_b64'') b64decode_val) (\<lambda>item.
          rbind (rbind (py_item entry ''priority'') py_float) (\<lambda>p.
          rbind (finite_float p) (\<lambda>priority. Inr (ready, deadline, item, priority)))))"

definition rebuild :: "(rat \<times> rat \<times> bytes \<times> rat) list \<Rightarrow> held list" where
  "rebuild recovered =
     map (\<lambda>(seq, ready, _, item, priority).
            \<lparr>h_ready = ready, h_seq = seq, h_item = item, h_priority = priority\<rparr>)
       (enumerate 0 (sort_key (\<lambda>(ready, deadline, _). (ready, deadline)) recovered))"

definition delay_recover ::
  "('s \<Rightarrow> pyval \<times> 's) \<Rightarrow> ('s \<Rightarrow> pyval \<times> 's) \<Rightarrow> blob \<Rightarrow> 's \<Rightarrow> (held list, 's) outcome" where
  "delay_recover clock wall_clock state s =
     (case delay_header state of
        Inl e \<Rightarrow> (Inl e, s)
      | Inr (v2, data, entries) \<Rightarrow>
          (case read_clock clock s of
             (Inl e, s1) \<Rightarrow> (Inl e, s1)
           | (Inr now, s1) \<Rightarrow>
               (case downtime_of wall_clock v2 data s1 of
                  (Inl e, s2) \<Rightarrow> (Inl e, s2)
                | (Inr downtime, s2) \<Rightarrow>
                    (rbind (rmap (delay_restore_entry v2 now downtime) entries) (\<lambda>recovered.
                       Inr (rebuild recovered)), s2))))"

definition delay_restore ::
  "('s \<Rightarrow> pyval \<times> 's) \<Rightarrow> ('s \<Rightarrow> pyval \<times> 's) \<Rightarrow> blob option \<Rightarrow> delayq \<Rightarrow> 's \<Rightarrow> (unit, delayq \<times> 's) outcome" where
  "delay_restore clock wall_clock state dq s =
     (case state of
        None \<Rightarrow> (Inr (), dq, s)
      | Some b \<Rightarrow>
          (case delay_recover clock wall_clock b s of
             (Inl _, s') \<Rightarrow> (Inl QueueStrategyRestoreError, dq, s')
           | (Inr rebuilt, s') \<Rightarrow>
               (Inr (), dq\<lparr>dq_holding := rebuilt, dq_seq := length rebuilt\<rparr>, s')))"

section \<open>Well-formed states\<close>

definition delay_wf :: "delayq \<Rightarrow> bool" where
  "delay_wf dq \<longleftrightarrow> heap_ok (dq_seq dq) (dq_holding dq) \<and> 0 \<le> dq_default_delay dq"

lemma drain_loop_run:
  assumes "sorted (map held_key hs)"
  shows "delay_drain_loop B q now hs s =
    (case push_run B q (takeWhile (\<lambda>h. h_ready h \<le> now) hs) s of
       (r, rest, s') \<Rightarrow> (r, rest @ dropWhile (\<lambda>h. h_ready h \<le> now) hs, s'))"
  using assms by (induction hs arbitrary: s) (auto split: prod.splits sum.splits)

lemma heap_ok_append: "heap_ok n (xs @ ys) \<Longrightarrow> heap_ok n ys"
  by (auto simp: heap_ok_def sorted_append)

definition delay_due :: "rat \<Rightarrow> delayq \<Rightarrow> held list" where
  "delay_due now dq = takeWhile (\<lambda>h. h_ready h \<le> now) (dq_holding dq)"

lemma heap_due_filter:
  assumes "heap_ok n hs"
  shows "takeWhile (\<lambda>h. h_ready h \<le> now) hs = filter (\<lambda>h. h_ready h \<le> now) hs"
  using assms
proof (induction hs)
  case (Cons h hs)
  have "heap_ok n hs" using Cons.prems by (rule heap_ok_tl)
  then have ih: "takeWhile (\<lambda>h. h_ready h \<le> now) hs = filter (\<lambda>h. h_ready h \<le> now) hs" by (rule Cons.IH)
  show ?case
  proof (cases "h_ready h \<le> now")
    case False
    with heap_head_least [OF Cons.prems] have "\<forall>g \<in> set hs. \<not> h_ready g \<le> now" by fastforce
    with False show ?thesis by simp
  qed (simp add: ih)
qed simp

interpretation delay_store: holding_store B q "delay_drain_at B q" delay_due
  "\<lambda>dq. mset (dq_holding dq)" delay_wf for B q
proof
  fix dq now s r rest s'
  assume wf: "delay_wf dq" and p: "push_run B q (delay_due now dq) s = (r, rest, s')"
  have sorted: "sorted (map held_key (dq_holding dq))" using wf by (simp add: delay_wf_def heap_ok_def)
  obtain d where d: "delay_due now dq = d @ rest" using push_run_split [OF p] by blast
  let ?rest = "rest @ dropWhile (\<lambda>h. h_ready h \<le> now) (dq_holding dq)"
  have split: "dq_holding dq = d @ ?rest"
    using d unfolding delay_due_def by (metis append.assoc takeWhile_dropWhile_id)
  have "delay_drain_at B q now dq s = (r, dq\<lparr>dq_holding := ?rest\<rparr>, s')"
    using drain_loop_run [OF sorted, of B q now s] p by (simp add: delay_drain_at_def delay_due_def)
  moreover have "delay_wf (dq\<lparr>dq_holding := ?rest\<rparr>)"
    using wf heap_ok_append [of "dq_seq dq" d ?rest] split by (simp add: delay_wf_def)
  moreover have "mset ?rest + mset (delay_due now dq) = mset (dq_holding dq) + mset rest"
    using arg_cong [OF split, of mset] d by simp
  ultimately show "\<exists>h'. delay_drain_at B q now dq s = (r, h', s') \<and> delay_wf h'
      \<and> mset (dq_holding h') + mset (delay_due now dq) = mset (dq_holding dq) + mset rest"
    by (intro exI [of _ "dq\<lparr>dq_holding := ?rest\<rparr>"]) simp
next
  show "mset (delay_due now dq) \<subseteq># mset (dq_holding dq)" for now dq
    unfolding delay_due_def by (metis mset_append mset_subset_eq_add_left takeWhile_dropWhile_id)
next
  show "h_ready x \<le> now" if "x \<in> set (delay_due now dq)" for x now dq
    using that by (auto simp: delay_due_def dest: set_takeWhileD)
next
  show "sorted (map held_key (delay_due now dq))" if "delay_wf dq" for now dq
    using that unfolding delay_due_def delay_wf_def heap_ok_def
    by (metis map_append sorted_append takeWhile_dropWhile_id)
qed

lemma delay_due_filter: "delay_wf dq \<Longrightarrow> delay_due now dq = filter (\<lambda>h. h_ready h \<le> now) (dq_holding dq)"
  unfolding delay_due_def delay_wf_def by (blast intro: heap_due_filter)

lemma drain_loop_dropWhile:
  assumes "sorted (map held_key hs)" and "delay_drain_loop B q now hs s = (r, hs', s')"
  obtains rest where "push_run B q (takeWhile (\<lambda>h. h_ready h \<le> now) hs) s = (r, rest, s')"
    "hs' = rest @ dropWhile (\<lambda>h. h_ready h \<le> now) hs"
  using assms drain_loop_run [OF assms(1), of B q now s] by (auto split: prod.splits)

lemma heap_not_due_filter:
  assumes "heap_ok n hs"
  shows "dropWhile (\<lambda>h. h_ready h \<le> now) hs = filter (\<lambda>h. \<not> h_ready h \<le> now) hs"
  using assms
proof (induction hs)
  case (Cons h hs)
  show ?case
  proof (cases "h_ready h \<le> now")
    case True
    with Cons.IH [OF heap_ok_tl [OF Cons.prems]] show ?thesis by simp
  next
    case False
    with heap_head_least [OF Cons.prems] have "\<forall>g \<in> set hs. \<not> h_ready g \<le> now" by fastforce
    with False show ?thesis by (simp add: filter_id_conv)
  qed
qed simp

lemma drain_loop_keeps_time:
  assumes "\<And>x p. keeps_time t (qb_push B q x p)" and "delay_drain_loop B q now hs s = (r, hs', s')"
  shows "t s \<le> t s'"
  using assms(2)
proof (induction hs arbitrary: s)
  case (Cons h hs)
  obtain r1 s1 where p: "qb_push B q (h_item h) (h_priority h) s = (r1, s1)" by fastforce
  with assms(1) have "t s \<le> t s1" by (metis keeps_time_def snd_conv)
  with Cons p show ?case by (fastforce split: sum.splits if_splits)
qed simp

section \<open>Restored deadlines\<close>

text \<open>What remained of a delay at the snapshot.\<close>

definition remaining_delay :: "rat \<Rightarrow> held \<Rightarrow> rat" where
  "remaining_delay now h = max 0 (rd (h_ready h - now))"

lemma remaining_delay_bound: "\<bar>h_ready h - now\<bar> \<le> 2 ^ 52 \<Longrightarrow> 0 \<le> remaining_delay now h \<and> remaining_delay now h \<le> 2 ^ 52"
  using rd_bound [of "h_ready h - now" 52] by (simp add: remaining_delay_def)

lemma snapshot_gap: "\<bar>h_ready h - now\<bar> \<le> 2 ^ 52 \<Longrightarrow> nonneg_gap (h_ready h) now = Fin (remaining_delay now h)"
  using round_double_rd [of "h_ready h - now"]
  by (simp add: nonneg_gap_def fsub_def fmax_zero_Fin remaining_delay_def)

lemma restore_snapshot_entry:
  assumes "\<bar>h_ready h - now\<bar> \<le> 2 ^ 52" "0 \<le> d" "d \<le> 2 ^ 52" "0 \<le> now'" "now' \<le> 2 ^ 52"
  shows "delay_restore_entry True now' (Fin d) (snapshot_entry now h)
    = Inr (restored_deadline now' d (remaining_delay now h), remaining_delay now h, h_item h, h_priority h)"
proof -
  let ?r = "remaining_delay now h"
  have r: "0 \<le> ?r" "?r \<le> 2 ^ 52" using remaining_delay_bound [OF assms(1)] by simp_all
  have "fadd_of now' (fmax (Fin 0) (fsub_of ?r (Fin d))) = Fin (restored_deadline now' d ?r)"
    using restored_sum assms r by simp
  then show ?thesis
    using r by (simp del: fsub_of.simps add: delay_restore_entry_def snapshot_entry_def snapshot_gap [OF assms(1)])
qed

section \<open>Properties\<close>

text \<open>
  C8. Exact release: a drain that does not raise, at the clock reading \<open>now\<close>, has pushed to the live
  queue exactly the held items whose deadline is not after \<open>now\<close>, in the order of deadlines and
  among equal deadlines in the order they were pushed, each with the priority the caller gave; it
  still holds exactly the others.
\<close>

theorem delay_drain_exact:
  assumes "delay_wf dq" and "read_clock clock s = (Inr now, s1)"
    and "delay_drain_ready B clock q dq s = (Inr (), dq', s')"
  shows "push_run B q (filter (\<lambda>h. h_ready h \<le> now) (dq_holding dq)) s1 = (Inr (), [], s')
    \<and> dq_holding dq' = filter (\<lambda>h. \<not> h_ready h \<le> now) (dq_holding dq)
    \<and> sorted (map held_key (filter (\<lambda>h. h_ready h \<le> now) (dq_holding dq)))"
proof -
  have ok: "heap_ok (dq_seq dq) (dq_holding dq)" using assms(1) by (simp add: delay_wf_def)
  then have sorted: "sorted (map held_key (dq_holding dq))" by (simp add: heap_ok_def)
  from assms(2,3) obtain hs where l: "delay_drain_loop B q now (dq_holding dq) s1 = (Inr (), hs, s')"
    and h: "dq_holding dq' = hs"
    by (auto simp: delay_drain_ready_def delay_drain_at_def split: prod.splits)
  obtain rest where r: "push_run B q (takeWhile (\<lambda>h. h_ready h \<le> now) (dq_holding dq)) s1 = (Inr (), rest, s')"
    "hs = rest @ dropWhile (\<lambda>h. h_ready h \<le> now) (dq_holding dq)"
    using drain_loop_dropWhile [OF sorted l] by blast
  moreover have "rest = []" using push_run_split [OF r(1)] by blast
  moreover have "sorted (map held_key (filter (\<lambda>h. h_ready h \<le> now) (dq_holding dq)))"
    using delay_store.due_sorted [OF assms(1)] delay_due_filter [OF assms(1)] by simp
  ultimately show ?thesis using heap_due_filter [OF ok] heap_not_due_filter [OF ok] h by simp
qed

definition delay_demo :: delayq where
  "delay_demo = \<lparr>dq_bound = Some ''q'', dq_default_delay = 0,
     dq_holding = [\<lparr>h_ready = 2, h_seq = 1, h_item = [7], h_priority = 3\<rparr>,
                   \<lparr>h_ready = 5, h_seq = 0, h_item = [8], h_priority = 0\<rparr>],
     dq_seq = 2, dq_max_held = 10\<rparr>"

abbreviation clock_at :: "rat \<Rightarrow> 's \<Rightarrow> pyval \<times> 's" where
  "clock_at t \<equiv> \<lambda>s. (PyFloat (Fin t), s)"

lemma delay_demo_wf: "delay_wf delay_demo"
  by (simp add: delay_demo_def delay_wf_def heap_ok_def held_key_def)

theorem delay_drain_exact_witness:
  "\<exists>dq' s'. delay_drain_ready list_backend (clock_at 4) ''q'' delay_demo (\<lambda>_. []) = (Inr (), dq', s')
     \<and> dq_holding dq' = filter (\<lambda>h. \<not> h_ready h \<le> 4) (dq_holding delay_demo) \<and> s' ''q'' = [[7]]"
proof -
  define s0 :: "string \<Rightarrow> bytes list" where "s0 = (\<lambda>_. [])"
  obtain dq' s' where d: "delay_drain_ready list_backend (clock_at 4) ''q'' delay_demo s0 = (Inr (), dq', s')"
    "s' ''q'' = [[7]]"
    by (simp add: delay_drain_ready_def delay_drain_at_def read_clock_def delay_demo_def list_backend_def s0_def)
  have "read_clock (clock_at 4) s0 = (Inr 4, s0)" by (simp add: read_clock_def)
  from delay_drain_exact [OF delay_demo_wf this d(1)] d show ?thesis unfolding s0_def by blast
qed

text \<open>
  No loss on failure: when the live-queue push of a due item raises, the drain lets the
  exception through; exactly the due items before it have been transferred, and that item, the
  due items behind it and every item not yet due are still held, in the same order.
\<close>

lemma delay_drain_failure_keeps_items:
  assumes "delay_wf dq" and "read_clock clock s = (Inr now, s1)"
    and "delay_drain_ready B clock q dq s = (Inl e, dq', s')"
  obtains pushed failed later s2 where "filter (\<lambda>h. h_ready h \<le> now) (dq_holding dq) = pushed @ failed # later"
    "push_run B q pushed s1 = (Inr (), [], s2)"
    "qb_push B q (h_item failed) (h_priority failed) s2 = (Inl e, s')"
    "dq_holding dq' = failed # later @ filter (\<lambda>h. \<not> h_ready h \<le> now) (dq_holding dq)"
    "delay_wf dq'"
proof -
  have ok: "heap_ok (dq_seq dq) (dq_holding dq)" using assms(1) by (simp add: delay_wf_def)
  then have sorted: "sorted (map held_key (dq_holding dq))" by (simp add: heap_ok_def)
  from assms(2,3) have at: "delay_drain_at B q now dq s1 = (Inl e, dq', s')"
    by (simp add: delay_drain_ready_def)
  then obtain hs where l: "delay_drain_loop B q now (dq_holding dq) s1 = (Inl e, hs, s')"
    and h: "dq_holding dq' = hs"
    by (auto simp: delay_drain_at_def split: prod.splits)
  obtain rest where r: "push_run B q (takeWhile (\<lambda>h. h_ready h \<le> now) (dq_holding dq)) s1 = (Inl e, rest, s')"
    "hs = rest @ dropWhile (\<lambda>h. h_ready h \<le> now) (dq_holding dq)"
    using drain_loop_dropWhile [OF sorted l] by blast
  moreover have "delay_wf dq'" using delay_store.drain_run [OF assms(1) at] by blast
  ultimately show ?thesis
    using push_run_failure [OF r(1)] heap_due_filter [OF ok] heap_not_due_filter [OF ok] h
    by (metis append_Cons that)
qed

definition refusing_backend :: "(nat, string \<Rightarrow> bytes list) queue_backend" where
  "refusing_backend = list_backend\<lparr>qb_push := (\<lambda>q x p s. (Inl (BackendFailure 0), s))\<rparr>"



text \<open>
  The non-blocking pop: over a conforming backend and a clock of finite doubles, a pop with
  timeout 0 that returns without raising drains at one reading \<open>now\<close> and then pops once without
  waiting. It returns \<open>None\<close> exactly when neither the live queue nor the due part of the heap had
  an item, and otherwise an item that was live or due; nothing else is lost or invented.
\<close>

lemma delay_pop_nonblocking:
  assumes conf: "conforming_backend B items" and wf: "delay_wf dq" and bound: "dq_bound dq = Some q"
    and clock: "\<forall>s. \<exists>x s'. clock s = (PyFloat (Fin x), s') \<and> is_double x \<and> items s' = items s"
    and now: "read_clock clock s = (Inr now, s0)"
    and pop: "delay_pop B clock q (PyFloat (Fin 0)) dq s = Some (Inr r, dq', s')"
  shows "(case r of
      None \<Rightarrow> items s q = {#} \<and> (\<forall>h \<in> set (dq_holding dq). now < h_ready h)
    | Some x \<Rightarrow> x \<in># items s q \<or> (\<exists>h \<in> set (dq_holding dq). h_item h = x \<and> h_ready h \<le> now))
    \<and> items s q + mset (map h_item (dq_holding dq))
          = (case r of None \<Rightarrow> {#} | Some x \<Rightarrow> {#x#}) + items s' q + mset (map h_item (dq_holding dq'))"
proof -
  have reads: "\<exists>x s1. read_clock clock s = (Inr x, s1) \<and> is_double x \<and> items s1 = items s" for s
    using clock unfolding read_clock_def by (metis old.prod.case require_finite.simps(2))
  have s0: "items s0 = items s" using reads [of s] now by auto
  have bind: "delay_bind q dq = (Inr (), dq)" using bound by (simp add: delay_bind_def)
  obtain rd d s1 where at: "delay_drain_at B q now dq s0 = (rd, d, s1)" using prod_cases3 by blast
  with now have ready: "delay_drain_ready B clock q dq s = (rd, d, s1)" by (simp add: delay_drain_ready_def)
  let ?loop = "pop_loop (pop_round (delay_drain_ready B clock q) next_ready_at check_deadline clock (qb_pop B q) 0) None (dq, s)"
  have loop: "?loop = Some (Inr r, dq', s')"
    using pop bind by (simp add: delay_pop_def delay_pop_until_deadline_def)
  have ok: "rd = Inr ()"
  proof (cases rd)
    case (Inl e)
    with ready loop pop_loop_drain_raises [of "delay_drain_ready B clock q" dq s e "(d, s1)" next_ready_at
        check_deadline clock "qb_pop B q" 0] show ?thesis by simp
  qed simp
  obtain b s2 where b: "read_clock clock s1 = (Inr b, s2)" "is_double b" "items s2 = items s1" using reads by blast
  obtain rp s3 where p: "qb_pop B q (Fin 0) s2 = (rp, s3)" by fastforce
  have "?loop = Some (case qb_pop B q (Fin 0) s2 of
        (Inl e, s3) \<Rightarrow> (Inl e, d, s3)
      | (Inr (Some x), s3) \<Rightarrow> (Inr (Some x), d, s3)
      | (Inr None, s3) \<Rightarrow>
          (case read_clock clock s3 of (Inl e, s4) \<Rightarrow> (Inl e, d, s4) | (Inr _, s4) \<Rightarrow> (Inr None, d, s4)))"
    by (rule pop_loop_zero) (use ready ok b in \<open>simp_all add: check_deadline_def\<close>)
  with loop p reads [of s3] have rp: "rp = Inr r" and d: "dq' = d" and s3: "items s' = items s3"
    by (auto split: sum.splits option.splits)
  have cons: "items s1 q + image_mset h_item (mset (dq_holding d)) = items s q + image_mset h_item (mset (dq_holding dq))"
    using delay_store.drain_conserves(1) [OF wf at [unfolded ok] conf] s0 by simp
  have "items s q + mset (map h_item (dq_holding dq))
          = (case r of None \<Rightarrow> {#} | Some x \<Rightarrow> {#x#}) + items s' q + mset (map h_item (dq_holding dq'))"
    using cons b d s3 conforming_pop_None [OF conf, of q s2 s3] conforming_pop_Some [OF conf, of q s2 _ s3] p rp
    by (cases r) (auto simp flip: cons)
  moreover have due: "mset (dq_holding dq) = mset (dq_holding d) + mset (delay_due now dq)"
    using delay_store.drain_released [OF wf at] ok by blast
  then have live: "items s1 q = items s q + image_mset h_item (mset (delay_due now dq))" using cons by simp
  have "case r of
      None \<Rightarrow> items s q = {#} \<and> (\<forall>h \<in> set (dq_holding dq). now < h_ready h)
    | Some x \<Rightarrow> x \<in># items s q \<or> (\<exists>h \<in> set (dq_holding dq). h_item h = x \<and> h_ready h \<le> now)"
  proof (cases r)
    case None
    with conforming_pop_None [OF conf, of q s2 s3] p rp b live
    have "items s q = {#}" "delay_due now dq = []" by auto
    moreover have "\<forall>h \<in> set (dq_holding dq). now < h_ready h"
      using \<open>delay_due now dq = []\<close> unfolding delay_due_filter [OF wf, of now] filter_empty_conv
      by (simp add: not_le)
    ultimately show ?thesis using None by simp
  next
    case (Some x)
    with conforming_pop_Some [OF conf, of q s2 x s3] p rp b live
    have "x \<in># items s q \<or> x \<in> h_item ` set (delay_due now dq)" by auto
    with Some delay_due_filter [OF wf, of now] show ?thesis by auto
  qed
  ultimately show ?thesis by blast
qed

text \<open>
  Durable commits: when a prepared push that demands durability is accepted, the item went to a
  backend that declares its pushes durable, the receipt says so, and the process-local heap did
  not change; a delayed item is refused before anything is published.
\<close>

lemma delay_durable_commit:
  assumes "delay_commit B clock q priority delay item True (dq, s) = (r, dq', s')"
  shows "dq_holding dq' = dq_holding dq \<and> dq_seq dq' = dq_seq dq
    \<and> (\<forall>durable. r = Inr durable \<longrightarrow> durable \<and> qb_push_is_durable B
          \<and> (\<exists>p. require_finite priority = Inr p \<and> qb_push B q item p s = (Inr (), s')))
    \<and> (py_positive delay = Inr True \<longrightarrow> s' = s \<and> (\<exists>e. r = Inl e))"
proof -
  obtain rb dq1 where b: "delay_bind q dq = (rb, dq1)" by fastforce
  then have keep: "dq_holding dq1 = dq_holding dq" "dq_seq dq1 = dq_seq dq"
    by (auto simp: delay_bind_def split: prod.splits)
  note defs = delay_commit_def b push_backend_prepared_def push_with_durability_def local_commit_def Let_def
  have "dq_holding dq' = dq_holding dq \<and> dq_seq dq' = dq_seq dq"
    using assms keep by (auto simp: defs split: sum.splits bool.splits prod.splits if_splits)
  moreover have "\<forall>durable. r = Inr durable \<longrightarrow> durable \<and> qb_push_is_durable B
      \<and> (\<exists>p. require_finite priority = Inr p \<and> qb_push B q item p s = (Inr (), s'))"
    using assms by (auto simp: defs delay_args_def rbind_eq_Inr_iff split: sum.splits bool.splits prod.splits if_splits)
  moreover have "py_positive delay = Inr True \<longrightarrow> s' = s \<and> (\<exists>e. r = Inl e)"
    using assms by (auto simp: defs delay_push_durable_def split: sum.splits)
  ultimately show ?thesis by blast
qed

lemma nth_rebuild:
  assumes "i < length recovered"
  shows "rebuild recovered ! i =
    (case sort_key (\<lambda>(ready, deadline, _). (ready, deadline)) recovered ! i of
       (ready, _, item, priority) \<Rightarrow> \<lparr>h_ready = ready, h_seq = i, h_item = item, h_priority = priority\<rparr>)"
  using assms by (simp add: rebuild_def nth_enumerate_eq split: prod.splits)

lemma length_rebuild [simp]: "length (rebuild recovered) = length recovered"
  by (simp add: rebuild_def)

lemma rebuild_heap_ok: "heap_ok (length (rebuild recovered)) (rebuild recovered)"
proof -
  let ?ys = "sort_key (\<lambda>(ready, deadline, _). (ready, deadline)) recovered"
  have seq: "map h_seq (rebuild recovered) = [0..<length recovered]"
    by (rule nth_equalityI) (simp_all add: nth_rebuild split: prod.splits)
  have "sorted (map fst ?ys)"
    using sorted_map_fst [OF sorted_sort_key [of "\<lambda>(ready, deadline, _). (ready, deadline)" recovered]]
    by (simp add: comp_def case_prod_unfold)
  then have "fst (?ys ! i) \<le> fst (?ys ! j)" if "i < j" "j < length recovered" for i j
    using that sorted_nth_mono [of "map fst ?ys" i j] by simp
  then have "sorted (map held_key (rebuild recovered))"
    unfolding sorted_wrt_iff_nth_less
    by (fastforce simp: nth_rebuild held_key_def less_eq_prod_def split: prod.splits)
  moreover have "\<forall>h \<in> set (rebuild recovered). h_seq h < length recovered"
    using seq by (metis atLeastLessThan_iff imageI list.set_map set_upt)
  ultimately show ?thesis using seq by (simp add: heap_ok_def)
qed

lemma rmap_map: "rmap f (map g xs) = rmap (\<lambda>x. f (g x)) xs"
  by (induction xs) simp_all

lemma recovered_sorted:
  assumes wf: "delay_wf dq" and bounds: "\<forall>h \<in> set (dq_holding dq). \<bar>h_ready h - now\<bar> \<le> 2 ^ 52"
    and d: "0 \<le> d" "d \<le> 2 ^ 52" and now': "0 \<le> now'" "now' \<le> 2 ^ 52"
  shows "sorted (map (\<lambda>(ready, deadline, _). (ready, deadline))
    (map (\<lambda>h. (restored_deadline now' d (remaining_delay now h), remaining_delay now h, h_item h, h_priority h))
      (dq_holding dq)))"
proof -
  have rem: "remaining_delay now h \<le> remaining_delay now g"
    if "h \<in> set (dq_holding dq)" "g \<in> set (dq_holding dq)" "h_ready h \<le> h_ready g" for h g
    using rd_mono [of "h_ready h - now" "h_ready g - now"] bounds that
    by (fastforce simp: remaining_delay_def)
  have "restored_deadline now' d (remaining_delay now h) \<le> restored_deadline now' d (remaining_delay now g)"
    if "h \<in> set (dq_holding dq)" "g \<in> set (dq_holding dq)" "h_ready h \<le> h_ready g" for h g
    using restored_deadline_mono [OF d now' _ rem [OF that]] remaining_delay_bound bounds that
    by (metis abs_of_nonneg)
  with rem have key: "(restored_deadline now' d (remaining_delay now h), remaining_delay now h)
      \<le> (restored_deadline now' d (remaining_delay now g), remaining_delay now g)"
    if "h \<in> set (dq_holding dq)" "g \<in> set (dq_holding dq)" "held_key h \<le> held_key g" for h g
    using that by (fastforce simp: held_key_def less_eq_prod_def)
  have "sorted_wrt (\<lambda>h g. held_key h \<le> held_key g) (dq_holding dq)"
    using wf by (simp add: delay_wf_def heap_ok_def sorted_map)
  then have "sorted_wrt (\<lambda>h g. (restored_deadline now' d (remaining_delay now h), remaining_delay now h)
      \<le> (restored_deadline now' d (remaining_delay now g), remaining_delay now g)) (dq_holding dq)"
    by (rule sorted_wrt_mono_rel [rotated]) (rule key)
  then show ?thesis by (simp add: sorted_map sorted_wrt_map)
qed

text \<open>
  C21. Snapshot and restore: a snapshot of a non-empty heap, restored into any delay strategy (on
  another host, after any downtime), holds the same items with the same priorities in the same
  release order. The deadline of each is the restoring clock plus what remained of its delay at
  the snapshot less the downtime, never below zero, in floating point; and sequence numbers start
  over behind the restored items. Times lie within $2^{52}$ seconds, so no sum overflows.
\<close>

theorem delay_snapshot_restore:
  assumes wf: "delay_wf dq" and held: "dq_holding dq \<noteq> []"
    and snap: "read_clock clock s = (Inr now, s1)" "read_clock wall s1 = (Inr w, s2)"
    and rest: "read_clock clock' s3 = (Inr now', s4)" "wall' s4 = (PyFloat (Fin w'), s5)"
    and bounds: "\<forall>h \<in> set (dq_holding dq). \<bar>h_ready h - now\<bar> \<le> 2 ^ 52" "\<bar>w' - w\<bar> \<le> 2 ^ 52" "0 \<le> now'" "now' \<le> 2 ^ 52"
  obtains blob hs where "delay_snapshot clock wall dq s = (Inr (Some blob), s2)"
    "delay_restore clock' wall' (Some blob) dq0 s3 = (Inr (), dq0\<lparr>dq_holding := hs, dq_seq := length hs\<rparr>, s5)"
    "map (\<lambda>h. (h_item h, h_priority h)) hs = map (\<lambda>h. (h_item h, h_priority h)) (dq_holding dq)"
    "map h_ready hs = map (\<lambda>h. restored_deadline now' (max 0 (rd (w' - w))) (remaining_delay now h)) (dq_holding dq)"
    "heap_ok (length hs) hs"
proof -
  let ?d = "max 0 (rd (w' - w))" and ?hs = "dq_holding dq"
  let ?rec = "map (\<lambda>h. (restored_deadline now' ?d (remaining_delay now h), remaining_delay now h, h_item h, h_priority h)) ?hs"
  have d: "0 \<le> ?d" "?d \<le> 2 ^ 52" using rd_bound [OF bounds(2)] by simp_all
  define blob where "blob = json_dumps (PyDict
      [(''version'', PyInt 2), (''strategy'', PyStr ''delay''), (''snapshot_wall_time'', PyFloat (Fin w)),
       (''items'', PyList (map (snapshot_entry now) ?hs))])"
  have entries: "rmap (delay_restore_entry True now' (Fin ?d)) (map (snapshot_entry now) ?hs) = Inr ?rec"
    unfolding rmap_map using bounds d by (intro rmap_Inr restore_snapshot_entry) auto
  have "nonneg_gap w' w = Fin ?d"
    using round_double_rd [of "w' - w"] bounds(2) by (simp add: nonneg_gap_def fsub_def fmax_zero_Fin)
  with rest entries have "delay_recover clock' wall' blob s3 = (Inr (rebuild ?rec), s5)"
    by (simp add: delay_recover_def delay_header_def blob_def downtime_of_def)
  then have restore: "delay_restore clock' wall' (Some blob) dq0 s3
      = (Inr (), dq0\<lparr>dq_holding := rebuild ?rec, dq_seq := length (rebuild ?rec)\<rparr>, s5)"
    by (simp add: delay_restore_def)
  have snapshot: "delay_snapshot clock wall dq s = (Inr (Some blob), s2)"
    using snap held by (simp add: delay_snapshot_def blob_def)
  have stable: "sort_key (\<lambda>(ready, deadline, _). (ready, deadline)) ?rec = ?rec"
    by (rule sort_key_id_if_sorted [OF recovered_sorted [OF wf bounds(1) d bounds(3,4)]])
  have nth: "rebuild ?rec ! i = \<lparr>h_ready = restored_deadline now' ?d (remaining_delay now (?hs ! i)), h_seq = i,
      h_item = h_item (?hs ! i), h_priority = h_priority (?hs ! i)\<rparr>" if "i < length ?hs" for i
    using that nth_rebuild [of i ?rec] unfolding stable by simp
  have "map (\<lambda>h. (h_item h, h_priority h)) (rebuild ?rec) = map (\<lambda>h. (h_item h, h_priority h)) ?hs"
    "map h_ready (rebuild ?rec) = map (\<lambda>h. restored_deadline now' ?d (remaining_delay now h)) ?hs"
    by (rule nth_equalityI, simp_all add: nth)+
  with that [OF snapshot restore] rebuild_heap_ok show ?thesis by blast
qed

theorem delay_snapshot_restore_witness:
  "\<exists>blob hs. delay_snapshot (clock_at 4) (clock_at 100) delay_demo () = (Inr (Some blob), ())
     \<and> delay_restore (clock_at 50) (clock_at 101) (Some blob) delay_demo ()
         = (Inr (), delay_demo\<lparr>dq_holding := hs, dq_seq := length hs\<rparr>, ())
     \<and> map (\<lambda>h. (h_item h, h_priority h)) hs = [([7], 3), ([8], 0)]"
proof -
  have reads: "read_clock (clock_at t) u = (Inr t, u)" for t and u :: unit by (simp add: read_clock_def)
  have held: "dq_holding delay_demo \<noteq> []" by (simp add: delay_demo_def)
  have bounds: "\<forall>h \<in> set (dq_holding delay_demo). \<bar>h_ready h - 4\<bar> \<le> 2 ^ 52" "\<bar>101 - (100::rat)\<bar> \<le> 2 ^ 52"
    "(0::rat) \<le> 50" "(50::rat) \<le> 2 ^ 52"
    by (simp_all add: delay_demo_def)
  obtain blob hs where "delay_snapshot (clock_at 4) (clock_at 100) delay_demo () = (Inr (Some blob), ())"
    "delay_restore (clock_at 50) (clock_at 101) (Some blob) delay_demo ()
         = (Inr (), delay_demo\<lparr>dq_holding := hs, dq_seq := length hs\<rparr>, ())"
    "map (\<lambda>h. (h_item h, h_priority h)) hs = map (\<lambda>h. (h_item h, h_priority h)) (dq_holding delay_demo)"
    by (rule delay_snapshot_restore [where ?dq0.0 = delay_demo, OF delay_demo_wf held reads reads reads refl bounds])
  then show ?thesis by (intro exI [of _ blob] exI [of _ hs]) (simp add: delay_demo_def)
qed

section \<open>Well-formedness is kept\<close>

lemma delay_init_wf: "delay_init d m = Inr dq \<Longrightarrow> delay_wf dq"
  by (auto simp: delay_init_def rbind_eq_Inr_iff delay_wf_def split: if_splits pyval.splits)

lemma delay_bind_wf: "delay_wf dq \<Longrightarrow> delay_bind q dq = (r, dq') \<Longrightarrow> delay_wf dq'"
  by (auto simp: delay_bind_def delay_wf_def split: prod.splits)

lemma hold_item_wf: "delay_wf dq \<Longrightarrow> hold_item clock item p d dq s = (r, dq', s') \<Longrightarrow> delay_wf dq'"
  by (auto simp: hold_item_def delay_wf_def heap_ok_heappush split: prod.splits sum.splits)

lemma delay_push_wf: "delay_wf dq \<Longrightarrow> delay_push B clock q item p d dq s = (r, dq', s') \<Longrightarrow> delay_wf dq'"
  unfolding delay_push_def
  by (auto simp: Let_def dest: delay_bind_wf hold_item_wf split: prod.splits sum.splits if_splits)

lemma delay_restore_wf: "delay_wf dq \<Longrightarrow> delay_restore clock wall st dq s = (r, dq', s') \<Longrightarrow> delay_wf dq'"
  using rebuild_heap_ok
  by (auto simp: delay_restore_def delay_recover_def delay_wf_def rbind_eq_Inr_iff
      split: option.splits prod.splits sum.splits)

lemma delay_clear_wf: "delay_wf dq \<Longrightarrow> delay_clear B q dq s = (r, dq', s') \<Longrightarrow> delay_wf dq'"
  unfolding delay_clear_def
  by (auto simp: delay_bind_def delay_wf_def split: prod.splits sum.splits)

text \<open>
  A delayed item is held until its deadline: a push with a positive effective delay that
  returns normally, at the clock reading \<open>t\<close>, adds one entry to the heap with deadline
  \<open>t + delay\<close> (as a double) and the caller's item and priority, touches the backend not at all,
  keeps the strategy well-formed, and no drain at a reading before that deadline removes the entry.
\<close>

lemma delay_push_holds_until_deadline:
  assumes wf: "delay_wf dq" and args: "delay_args delay priority = Inr (d, p)"
    and eff: "effective = (if 0 < d then d else dq_default_delay dq)" "0 < effective"
    and clock: "read_clock clock s = (Inr t, s0)"
    and push: "delay_push B clock q item priority delay dq s = (Inr (), dq', s')"
  shows "s' = s0 \<and> delay_wf dq'
    \<and> (\<exists>ready. fadd t effective = Fin ready
        \<and> mset (dq_holding dq') = add_mset \<lparr>h_ready = ready, h_seq = dq_seq dq, h_item = item, h_priority = p\<rparr> (mset (dq_holding dq))
        \<and> (\<forall>now r dq2 s1 s2. now < ready \<longrightarrow> delay_drain_at B q now dq' s1 = (r, dq2, s2)
              \<longrightarrow> \<lparr>h_ready = ready, h_seq = dq_seq dq, h_item = item, h_priority = p\<rparr> \<in> set (dq_holding dq2)))"
proof -
  have wf': "delay_wf dq'" using delay_push_wf [OF wf push] .
  obtain rb dq1 where b: "delay_bind q dq = (rb, dq1)" by fastforce
  then have keep: "dq_holding dq1 = dq_holding dq" "dq_seq dq1 = dq_seq dq" "dq_default_delay dq1 = dq_default_delay dq"
    by (auto simp: delay_bind_def split: prod.splits)
  from push args b have ok: "rb = Inr ()" by (auto simp: delay_push_def split: sum.splits)
  have "hold_item clock item p effective dq1 s = (Inr (), dq', s')"
    using push args b ok keep eff by (auto simp: delay_push_def Let_def split: if_splits)
  with clock keep obtain ready where ready: "fadd t effective = Fin ready" "s' = s0"
    "mset (dq_holding dq') = add_mset \<lparr>h_ready = ready, h_seq = dq_seq dq, h_item = item, h_priority = p\<rparr> (mset (dq_holding dq))"
    by (auto simp: hold_item_def split: sum.splits)
  let ?h = "\<lparr>h_ready = ready, h_seq = dq_seq dq, h_item = item, h_priority = p\<rparr>"
  have "?h \<in> set (dq_holding dq2)" if "now < ready" "delay_drain_at B q now dq' s1 = (r, dq2, s2)" for now r dq2 s1 s2
    using delay_store.drain_never_early [OF wf' that(2), of ?h] that(1) ready(3)
    by (metis (no_types, lifting) count_add_mset count_greater_zero_iff held.select_convs(1) set_mset_mset zero_less_Suc)
  with ready wf' show ?thesis by blast
qed

end
