(* ===== verification/Time_Wheel.thy ===== *)
theory Time_Wheel
  imports Held_Items
begin

text \<open>
  The time-wheel strategy, \<open>queue/strategies/time_wheel.py\<close>: short delays wait in the slots of a
  hashed wheel, long ones in an overflow heap, and a drain merges what is due from both.

  The code keeps a slot's entries and their sequence numbers in two deques that every path changes
  together; here a slot is one list of entries that carry their sequence number. The roll-back
  branches for process-control signals between two container mutations, the log records and the
  locks, which make each operation one transition, are left out.
\<close>

section \<open>State\<close>

record wheel =
  tw_bound :: "string option"
  tw_size :: nat
  tw_tps :: rat
  tw_duration :: rat
  tw_default_delay :: rat
  tw_slots :: "held list list"
  tw_mins :: "rat option list"
  tw_overflow :: "held list"
  tw_seq :: nat
  tw_last_tick :: int

definition max_wheel_size :: nat where
  "max_wheel_size = 100000"

text \<open>\<open>_tick_at\<close>, the tick of the first slot not before a deadline, and \<open>_slot_at\<close>.\<close>

definition tick_at :: "rat \<Rightarrow> rat \<Rightarrow> int result" where
  "tick_at tps timestamp = (case fmul timestamp tps of Fin x \<Rightarrow> Inr \<lfloor>x\<rfloor> | _ \<Rightarrow> Inl ValueError)"

definition release_tick :: "rat \<Rightarrow> rat \<Rightarrow> int result" where
  "release_tick tps ready = (case fmul ready tps of Fin x \<Rightarrow> Inr \<lceil>x\<rceil> | _ \<Rightarrow> Inl ValueError)"

definition slot_at :: "wheel \<Rightarrow> rat \<Rightarrow> nat result" where
  "slot_at w ready = rbind (release_tick (tw_tps w) ready) (\<lambda>t. Inr (nat (t mod int (tw_size w))))"

definition wheel_init ::
  "('s \<Rightarrow> pyval \<times> 's) \<Rightarrow> pyval \<Rightarrow> pyval \<Rightarrow> pyval \<Rightarrow> 's \<Rightarrow> (wheel, 's) outcome" where
  "wheel_init clock wheel_size ticks_per_second default_delay s =
     (case wheel_size of
        PyInt n \<Rightarrow>
          (if n < 1 \<or> int max_wheel_size < n then (Inl ValueError, s)
           else case rbind (require_finite ticks_per_second) (\<lambda>tps.
               if tps \<le> 0 then Inl ValueError
               else rbind (require_finite default_delay) (\<lambda>d.
                 if d < 0 then Inl ValueError
                 else rbind (finite_float (fdiv (of_int n) tps)) (\<lambda>duration. Inr (tps, d, duration)))) of
             Inl e \<Rightarrow> (Inl e, s)
           | Inr (tps, d, duration) \<Rightarrow>
               (case read_clock clock s of
                  (Inl e, s') \<Rightarrow> (Inl e, s')
                | (Inr now, s') \<Rightarrow>
                    (rbind (tick_at tps now) (\<lambda>tick. Inr
                       \<lparr>tw_bound = None, tw_size = nat n, tw_tps = tps, tw_duration = duration, tw_default_delay = d,
                        tw_slots = replicate (nat n) [], tw_mins = replicate (nat n) None, tw_overflow = [],
                        tw_seq = 0, tw_last_tick = tick\<rparr>), s')))
      | _ \<Rightarrow> (Inl ValueError, s))"

definition wheel_bind :: "string \<Rightarrow> wheel \<Rightarrow> (unit, wheel) outcome" where
  "wheel_bind q w = (case bind_single_queue q (tw_bound w) of (r, b) \<Rightarrow> (r, w\<lparr>tw_bound := b\<rparr>))"

section \<open>Pushing\<close>

text \<open>\<open>_append_wheel_entry\<close>: append and update the slot's minimum.\<close>

definition min_opt :: "rat option \<Rightarrow> rat \<Rightarrow> rat" where
  "min_opt m x = (case m of None \<Rightarrow> x | Some y \<Rightarrow> if x < y then x else y)"

definition append_wheel_entry :: "nat \<Rightarrow> held \<Rightarrow> wheel \<Rightarrow> wheel" where
  "append_wheel_entry slot h w =
     w\<lparr>tw_slots := (tw_slots w)[slot := tw_slots w ! slot @ [h]],
       tw_mins := (tw_mins w)[slot := Some (min_opt (tw_mins w ! slot) (h_ready h))],
       tw_seq := Suc (tw_seq w)\<rparr>"

text \<open>\<open>_recompute_slot_min_deadline\<close>\<close>

definition slot_min :: "held list \<Rightarrow> rat option" where
  "slot_min hs = (case hs of [] \<Rightarrow> None | h # r \<Rightarrow> Some (foldl min (h_ready h) (map h_ready r)))"

definition recompute_min :: "nat \<Rightarrow> wheel \<Rightarrow> wheel" where
  "recompute_min slot w = w\<lparr>tw_mins := (tw_mins w)[slot := slot_min (tw_slots w ! slot)]\<rparr>"

definition wheel_hold ::
  "('s \<Rightarrow> pyval \<times> 's) \<Rightarrow> bytes \<Rightarrow> rat \<Rightarrow> rat \<Rightarrow> wheel \<Rightarrow> 's \<Rightarrow> (unit, wheel \<times> 's) outcome" where
  "wheel_hold clock item priority effective w s =
     (case read_clock clock s of
        (Inl e, s') \<Rightarrow> (Inl e, w, s')
      | (Inr now, s') \<Rightarrow>
          (case finite_float (fadd now effective) of
             Inl e \<Rightarrow> (Inl e, w, s')
           | Inr ready \<Rightarrow>
               (let h = \<lparr>h_ready = ready, h_seq = tw_seq w, h_item = item, h_priority = priority\<rparr> in
                if effective \<le> tw_duration w then
                  (case slot_at w ready of
                     Inl e \<Rightarrow> (Inl e, w, s')
                   | Inr slot \<Rightarrow> (Inr (), append_wheel_entry slot h w, s'))
                else (Inr (), w\<lparr>tw_overflow := heappush h (tw_overflow w), tw_seq := Suc (tw_seq w)\<rparr>, s'))))"

definition wheel_args :: "pyval \<Rightarrow> pyval \<Rightarrow> (rat \<times> rat) result" where
  "wheel_args priority delay =
     rbind (require_finite priority) (\<lambda>p.
     rbind (require_finite delay) (\<lambda>d.
       if d < 0 then Inl ValueError else Inr (p, d)))"

definition wheel_push ::
  "('tok, 's) queue_backend \<Rightarrow> ('s \<Rightarrow> pyval \<times> 's) \<Rightarrow> string \<Rightarrow> bytes \<Rightarrow> pyval \<Rightarrow> pyval
    \<Rightarrow> wheel \<Rightarrow> 's \<Rightarrow> (unit, wheel \<times> 's) outcome" where
  "wheel_push B clock q item priority delay w s =
     (case wheel_args priority delay of
        Inl e \<Rightarrow> (Inl e, w, s)
      | Inr (p, d) \<Rightarrow>
          (case wheel_bind q w of
             (Inl e, w1) \<Rightarrow> (Inl e, w1, s)
           | (Inr _, w1) \<Rightarrow>
               (let effective = (if 0 < d then d else tw_default_delay w1) in
                if effective \<le> 0 then (case qb_push B q item p s of (r, s') \<Rightarrow> (r, w1, s'))
                else wheel_hold clock item p effective w1 s)))"

definition wheel_push_durable :: "pyval \<Rightarrow> wheel \<Rightarrow> bool result" where
  "wheel_push_durable delay w =
     rbind (py_positive delay) (\<lambda>pos. Inr (\<not> pos \<and> tw_default_delay w \<le> 0))"

definition wheel_publish ::
  "('s \<Rightarrow> pyval \<times> 's) \<Rightarrow> pyval \<Rightarrow> pyval \<Rightarrow> bytes \<Rightarrow> wheel \<times> 's \<Rightarrow> (unit, wheel \<times> 's) outcome" where
  "wheel_publish clock priority delay item st =
     (case wheel_args priority delay of
        Inl e \<Rightarrow> (Inl e, st)
      | Inr (p, d) \<Rightarrow>
          wheel_hold clock item p (if 0 < d then d else tw_default_delay (fst st)) (fst st) (snd st))"

definition wheel_commit ::
  "('tok, 's) queue_backend \<Rightarrow> ('s \<Rightarrow> pyval \<times> 's) \<Rightarrow> string \<Rightarrow> pyval \<Rightarrow> pyval \<Rightarrow> bytes \<Rightarrow> bool
    \<Rightarrow> wheel \<times> 's \<Rightarrow> (bool, wheel \<times> 's) outcome" where
  "wheel_commit B clock q priority delay item require_durable st =
     (case wheel_bind q (fst st) of
        (Inl e, w1) \<Rightarrow> (Inl e, w1, snd st)
      | (Inr _, w1) \<Rightarrow>
          (case wheel_push_durable delay w1 of
             Inl e \<Rightarrow> (Inl e, w1, snd st)
           | Inr True \<Rightarrow>
               (case wheel_args priority delay of
                  Inl e \<Rightarrow> (Inl e, w1, snd st)
                | Inr (p, d) \<Rightarrow>
                    (case push_backend_prepared B q p item require_durable (snd st) of
                       (r, s') \<Rightarrow> (r, w1, s')))
           | Inr False \<Rightarrow>
               local_commit (wheel_publish clock priority delay) item require_durable (w1, snd st)))"

section \<open>Draining\<close>

text \<open>
  A candidate of a drain: a wheel entry with its slot and its index in the slot at the time of the
  scan, or an overflow entry. The scanned slots are a set of small integers in the code; the merge
  sorts the candidates by distinct keys, so the order of the scan does not matter.
\<close>

datatype candidate = WheelCand nat nat held | OverflowCand held

fun cand_held :: "candidate \<Rightarrow> held" where
  "cand_held (WheelCand _ _ h) = h"
| "cand_held (OverflowCand h) = h"

definition scanned_slots :: "wheel \<Rightarrow> int \<Rightarrow> nat list" where
  "scanned_slots w now_tick =
     (let span = nat (max 0 (min (now_tick - tw_last_tick w) (int (tw_size w)))) in
      filter (\<lambda>k. k \<in> (\<lambda>offset. nat ((tw_last_tick w + 1 + int offset) mod int (tw_size w))) ` set [0..<span])
        [0..<tw_size w])"

definition slot_candidates :: "rat \<Rightarrow> wheel \<Rightarrow> nat \<Rightarrow> candidate list" where
  "slot_candidates now w slot =
     map (\<lambda>i. WheelCand slot i (tw_slots w ! slot ! i))
       (filter (\<lambda>i. h_ready (tw_slots w ! slot ! i) \<le> now) [0..<length (tw_slots w ! slot)])"

definition candidates :: "rat \<Rightarrow> int \<Rightarrow> wheel \<Rightarrow> candidate list" where
  "candidates now now_tick w =
     sort_key (\<lambda>c. held_key (cand_held c))
       (concat (map (slot_candidates now w) (scanned_slots w now_tick))
        @ map OverflowCand (filter (\<lambda>h. h_ready h \<le> now) (tw_overflow w)))"

text \<open>
  \<open>bisect_left\<close> on the ascending list of the indices already removed from a slot turns the index
  at the scan into the live one.
\<close>

definition bisect_left :: "nat list \<Rightarrow> nat \<Rightarrow> nat" where
  "bisect_left xs x = length (takeWhile (\<lambda>y. y < x) xs)"

definition delete_at :: "nat \<Rightarrow> 'a list \<Rightarrow> 'a list" where
  "delete_at i xs = take i xs @ drop (Suc i) xs"

fun settle ::
  "('tok, 's) queue_backend \<Rightarrow> string \<Rightarrow> candidate \<Rightarrow> wheel \<Rightarrow> (nat \<Rightarrow> nat list) \<Rightarrow> 's
    \<Rightarrow> (unit, wheel \<times> (nat \<Rightarrow> nat list) \<times> 's) outcome" where
  "settle B q (WheelCand slot origin h) w removed s =
     (let entries = tw_slots w ! slot; index = origin - bisect_left (removed slot) origin in
      if length entries \<le> index \<or> h_seq (entries ! index) \<noteq> h_seq h then (Inr (), w, removed, s)
      else case qb_push B q (h_item h) (h_priority h) s of
        (Inl e, s') \<Rightarrow> (Inl e, recompute_min slot w, removed, s')
      | (Inr _, s') \<Rightarrow>
          (Inr (), recompute_min slot (w\<lparr>tw_slots := (tw_slots w)[slot := delete_at index entries]\<rparr>),
           removed(slot := insort origin (removed slot)), s'))"
| "settle B q (OverflowCand h) w removed s =
     (if tw_overflow w \<noteq> [] \<and> hd (tw_overflow w) = h then
        (case qb_push B q (h_item h) (h_priority h) s of
           (Inl e, s') \<Rightarrow> (Inl e, w, removed, s')
         | (Inr _, s') \<Rightarrow> (Inr (), w\<lparr>tw_overflow := tl (tw_overflow w)\<rparr>, removed, s'))
      else if h \<notin> set (tw_overflow w) then (Inr (), w, removed, s)
      else (case qb_push B q (h_item h) (h_priority h) s of
           (Inl e, s') \<Rightarrow> (Inl e, w, removed, s')
         | (Inr _, s') \<Rightarrow> (Inr (), w\<lparr>tw_overflow := remove1 h (tw_overflow w)\<rparr>, removed, s')))"

fun settle_all ::
  "('tok, 's) queue_backend \<Rightarrow> string \<Rightarrow> candidate list \<Rightarrow> wheel \<Rightarrow> (nat \<Rightarrow> nat list) \<Rightarrow> 's
    \<Rightarrow> (unit, wheel \<times> 's) outcome" where
  "settle_all B q [] w removed s = (Inr (), w, s)"
| "settle_all B q (c # cs) w removed s =
     (case settle B q c w removed s of
        (Inl e, w', _, s') \<Rightarrow> (Inl e, w', s')
      | (Inr _, w', removed', s') \<Rightarrow> settle_all B q cs w' removed' s')"

definition wheel_drain_at ::
  "('tok, 's) queue_backend \<Rightarrow> string \<Rightarrow> rat \<Rightarrow> int \<Rightarrow> wheel \<Rightarrow> 's \<Rightarrow> (unit, wheel \<times> 's) outcome" where
  "wheel_drain_at B q now now_tick w s =
     (case settle_all B q (candidates now now_tick w) w (\<lambda>_. []) s of
        (Inl e, w', s') \<Rightarrow> (Inl e, w', s')
      | (Inr _, w', s') \<Rightarrow> (Inr (), w'\<lparr>tw_last_tick := now_tick\<rparr>, s'))"

definition wheel_drain_ready ::
  "('tok, 's) queue_backend \<Rightarrow> ('s \<Rightarrow> pyval \<times> 's) \<Rightarrow> string \<Rightarrow> wheel \<Rightarrow> 's \<Rightarrow> (unit, wheel \<times> 's) outcome" where
  "wheel_drain_ready B clock q w s =
     (case read_clock clock s of
        (Inl e, s') \<Rightarrow> (Inl e, w, s')
      | (Inr now, s') \<Rightarrow>
          (case tick_at (tw_tps w) now of
             Inl e \<Rightarrow> (Inl e, w, s')
           | Inr now_tick \<Rightarrow> wheel_drain_at B q now now_tick w s'))"

section \<open>Popping, length and clearing\<close>

text \<open>\<open>_wheel_release_at\<close>; a push refused any deadline whose tick is not finite.\<close>

definition wheel_release_at :: "rat \<Rightarrow> rat \<Rightarrow> pyfloat" where
  "wheel_release_at tps ready =
     (case release_tick tps ready of Inr t \<Rightarrow> fdiv (of_int t) tps | Inl _ \<Rightarrow> PInf)"

definition next_release_at :: "wheel \<Rightarrow> pyfloat option" where
  "next_release_at w =
     foldl (\<lambda>best m. case m of
          None \<Rightarrow> best
        | Some ready \<Rightarrow>
            (let release = wheel_release_at (tw_tps w) ready in
             case best of None \<Rightarrow> Some release | Some b \<Rightarrow> if fless release b then Some release else Some b))
       (case tw_overflow w of [] \<Rightarrow> None | h # _ \<Rightarrow> Some (Fin (h_ready h))) (tw_mins w)"

definition wheel_pop_until_deadline ::
  "('tok, 's) queue_backend \<Rightarrow> ('s \<Rightarrow> pyval \<times> 's) \<Rightarrow> string \<Rightarrow> rat \<Rightarrow> (pyfloat \<Rightarrow> 's \<Rightarrow> ('r option, 's) outcome)
    \<Rightarrow> wheel \<Rightarrow> 's \<Rightarrow> ('r option, wheel \<times> 's) outcome option" where
  "wheel_pop_until_deadline B clock q timeout backend_pop w s =
     pop_loop (pop_round (wheel_drain_ready B clock q) next_release_at Inr clock backend_pop timeout)
       None (w, s)"

definition wheel_pop ::
  "('tok, 's) queue_backend \<Rightarrow> ('s \<Rightarrow> pyval \<times> 's) \<Rightarrow> string \<Rightarrow> pyval \<Rightarrow> wheel \<Rightarrow> 's
    \<Rightarrow> (bytes option, wheel \<times> 's) outcome option" where
  "wheel_pop B clock q timeout w s =
     (case normalize_queue_timeout timeout of
        Inl e \<Rightarrow> Some (Inl e, w, s)
      | Inr t \<Rightarrow>
          (case wheel_bind q w of
             (Inl e, w1) \<Rightarrow> Some (Inl e, w1, s)
           | (Inr _, w1) \<Rightarrow> wheel_pop_until_deadline B clock q t (qb_pop B q) w1 s))"

definition wheel_pop_with_ack ::
  "('tok, 's) queue_backend \<Rightarrow> ('s \<Rightarrow> pyval \<times> 's) \<Rightarrow> string \<Rightarrow> pyval \<Rightarrow> wheel \<Rightarrow> 's
    \<Rightarrow> (bytes option \<times> 'tok ack_ref option, wheel \<times> 's) outcome option" where
  "wheel_pop_with_ack B clock q timeout w s =
     (case normalize_queue_timeout timeout of
        Inl e \<Rightarrow> Some (Inl e, w, s)
      | Inr t \<Rightarrow>
          (case wheel_bind q w of
             (Inl e, w1) \<Rightarrow> Some (Inl e, w1, s)
           | (Inr _, w1) \<Rightarrow>
               map_option (\<lambda>(r, st). (ack_result r, st))
                 (wheel_pop_until_deadline B clock q t (ack_call B q) w1 s)))"

definition wheel_queue_len ::
  "('tok, 's) queue_backend \<Rightarrow> string \<Rightarrow> wheel \<Rightarrow> 's \<Rightarrow> (nat, wheel \<times> 's) outcome" where
  "wheel_queue_len B q w s =
     (case wheel_bind q w of
        (Inl e, w1) \<Rightarrow> (Inl e, w1, s)
      | (Inr _, w1) \<Rightarrow>
          (case qb_queue_len B q s of
             (Inl e, s') \<Rightarrow> (Inl e, w1, s')
           | (Inr n, s') \<Rightarrow> (Inr (n + sum_list (map length (tw_slots w1)) + length (tw_overflow w1)), w1, s')))"

definition wheel_emptied :: "wheel \<Rightarrow> wheel" where
  "wheel_emptied w =
     w\<lparr>tw_slots := replicate (tw_size w) [], tw_mins := replicate (tw_size w) None, tw_overflow := []\<rparr>"

definition wheel_clear ::
  "('tok, 's) queue_backend \<Rightarrow> string \<Rightarrow> wheel \<Rightarrow> 's \<Rightarrow> (unit, wheel \<times> 's) outcome" where
  "wheel_clear B q w s =
     (case wheel_bind q w of
        (Inl e, w1) \<Rightarrow> (Inl e, w1, s)
      | (Inr _, w1) \<Rightarrow>
          (case qb_clear_queue B q s of
             (Inl e, s') \<Rightarrow> (Inl e, w1, s')
           | (Inr _, s') \<Rightarrow> (Inr (), wheel_emptied w1, s')))"

definition wheel_close :: "wheel \<Rightarrow> wheel" where
  "wheel_close w = wheel_emptied w"

section \<open>Snapshot and restore\<close>

definition wheel_entry :: "rat \<Rightarrow> held \<Rightarrow> pyval" where
  "wheel_entry now h =
     PyDict [(''remaining'', PyFloat (nonneg_gap (h_ready h) now)),
             (''deadline'', PyFloat (fsub (h_ready h) now)),
             (''item_b64'', PyStr (b64encode (h_item h))),
             (''priority'', PyFloat (Fin (h_priority h))),
             (''sequence'', PyInt (int (h_seq h)))]"

text \<open>\<open>math.isfinite(v)\<close>, which raises on values that are not numbers.\<close>

fun check_finite :: "pyval \<Rightarrow> unit result" where
  "check_finite (PyStr _) = Inl TypeError"
| "check_finite v = rbind (py_float v) (\<lambda>x. rbind (finite_float x) (\<lambda>_. Inr ()))"

definition wheel_snapshot ::
  "('s \<Rightarrow> pyval \<times> 's) \<Rightarrow> ('s \<Rightarrow> pyval \<times> 's) \<Rightarrow> wheel \<Rightarrow> 's \<Rightarrow> (blob option, 's) outcome" where
  "wheel_snapshot clock wall_clock w s =
     (if concat (tw_slots w) = [] \<and> tw_overflow w = [] then (Inr None, s)
      else case read_clock clock s of
        (Inl e, s1) \<Rightarrow> (Inl e, s1)
      | (Inr now, s1) \<Rightarrow>
          (case wall_clock s1 of (wall, s2) \<Rightarrow>
             (rbind (check_finite wall) (\<lambda>_. Inr (Some (json_dumps (PyDict
                [(''version'', PyInt 2), (''strategy'', PyStr ''time_wheel''), (''snapshot_wall_time'', wall),
                 (''wheel_size'', PyInt (int (tw_size w))),
                 (''slots_flat'', PyList (map (wheel_entry now) (concat (tw_slots w)))),
                 (''overflow'', PyList (map (wheel_entry now) (tw_overflow w)))])))), s2)))"

definition wheel_header :: "blob \<Rightarrow> (bool \<times> pyval \<times> pyval list) result" where
  "wheel_header state =
     rbind (json_loads state) (\<lambda>data.
       if py_get data ''strategy'' \<noteq> Some (PyStr ''time_wheel'') then Inl ValueError
       else if py_get data ''version'' \<noteq> Some (PyInt 1) \<and> py_get data ''version'' \<noteq> Some (PyInt 2)
       then Inl ValueError
       else rbind (as_list (py_get data ''slots_flat'')) (\<lambda>flat.
            rbind (as_list (py_get data ''overflow'')) (\<lambda>overflow.
              Inr (py_get data ''version'' = Some (PyInt 2), data, flat @ overflow))))"

definition restored_timing :: "bool \<Rightarrow> rat \<Rightarrow> pyfloat \<Rightarrow> pyval \<Rightarrow> (rat \<times> rat) result" where
  "restored_timing v2 now downtime entry =
     (case entry of
        PyDict _ \<Rightarrow>
          (if \<not> v2 then
             rbind (case py_get entry ''ready_at'' of None \<Rightarrow> Inr (Fin now) | Some v \<Rightarrow> py_float v) (\<lambda>x.
             rbind (finite_float x) (\<lambda>old_ready. Inr (now, old_ready)))
           else
             rbind (rbind (py_item entry ''remaining'') require_finite) (\<lambda>remaining.
               if remaining < 0 then Inl ValueError
               else rbind (case py_get entry ''deadline'' of None \<Rightarrow> Inr remaining | Some v \<Rightarrow> require_finite v) (\<lambda>deadline.
                    rbind (finite_float (fadd_of now (fmax (Fin 0) (fsub_of deadline downtime)))) (\<lambda>ready.
                      Inr (ready, deadline)))))
      | _ \<Rightarrow> Inl ValueError)"

fun stage_sequence :: "nat list \<Rightarrow> pyval option \<Rightarrow> nat option result" where
  "stage_sequence seen None = Inr None"
| "stage_sequence seen (Some PyNone) = Inr None"
| "stage_sequence seen (Some (PyInt n)) =
     (if n < 0 \<or> nat n \<in> set seen then Inl ValueError else Inr (Some (nat n)))"
| "stage_sequence seen (Some _) = Inl ValueError"

record staged =
  st_ready :: rat
  st_deadline :: rat
  st_order :: nat
  st_seq :: "nat option"
  st_item :: bytes
  st_priority :: rat

fun stage_entries :: "bool \<Rightarrow> rat \<Rightarrow> pyfloat \<Rightarrow> nat \<Rightarrow> nat list \<Rightarrow> pyval list \<Rightarrow> staged list result" where
  "stage_entries v2 now downtime order seen [] = Inr []"
| "stage_entries v2 now downtime order seen (entry # es) =
     rbind (restored_timing v2 now downtime entry) (\<lambda>(ready, deadline).
     rbind (rbind (py_item entry ''item_b64'') b64decode_val) (\<lambda>item.
     rbind (rbind (rbind (py_item entry ''priority'') py_float) finite_float) (\<lambda>priority.
     rbind (stage_sequence seen (py_get entry ''sequence'')) (\<lambda>seq.
     rbind (stage_entries v2 now downtime (Suc order) (case seq of None \<Rightarrow> seen | Some n \<Rightarrow> n # seen) es) (\<lambda>rest.
       Inr (\<lparr>st_ready = ready, st_deadline = deadline, st_order = order, st_seq = seq, st_item = item,
             st_priority = priority\<rparr> # rest))))))"

definition stage_key :: "staged \<Rightarrow> rat \<times> nat \<times> nat" where
  "stage_key e = (st_deadline e, (case st_seq e of Some n \<Rightarrow> (0, n) | None \<Rightarrow> (1, st_order e)))"

definition fle_rat :: "pyfloat \<Rightarrow> rat \<Rightarrow> bool" where
  "fle_rat x d \<longleftrightarrow> (case x of Fin y \<Rightarrow> y \<le> d | NInf \<Rightarrow> True | _ \<Rightarrow> False)"

definition place_entry :: "rat \<Rightarrow> staged \<Rightarrow> wheel \<Rightarrow> wheel result" where
  "place_entry now e w =
     (let h = \<lparr>h_ready = st_ready e, h_seq = tw_seq w, h_item = st_item e, h_priority = st_priority e\<rparr> in
      if now < st_ready e \<and> fle_rat (fsub (st_ready e) now) (tw_duration w) then
        rbind (slot_at w (st_ready e)) (\<lambda>slot. Inr (append_wheel_entry slot h w))
      else Inr (w\<lparr>tw_overflow := heappush h (tw_overflow w), tw_seq := Suc (tw_seq w)\<rparr>))"

fun place_all :: "rat \<Rightarrow> staged list \<Rightarrow> wheel \<Rightarrow> wheel result" where
  "place_all now [] w = Inr w"
| "place_all now (e # es) w = rbind (place_entry now e w) (place_all now es)"

definition wheel_recover ::
  "('s \<Rightarrow> pyval \<times> 's) \<Rightarrow> ('s \<Rightarrow> pyval \<times> 's) \<Rightarrow> blob \<Rightarrow> wheel \<Rightarrow> 's \<Rightarrow> (wheel, 's) outcome" where
  "wheel_recover clock wall_clock state w s =
     (case wheel_header state of
        Inl e \<Rightarrow> (Inl e, s)
      | Inr (v2, data, entries) \<Rightarrow>
          (case read_clock clock s of
             (Inl e, s1) \<Rightarrow> (Inl e, s1)
           | (Inr now, s1) \<Rightarrow>
               (case downtime_of wall_clock v2 data s1 of
                  (Inl e, s2) \<Rightarrow> (Inl e, s2)
                | (Inr downtime, s2) \<Rightarrow>
                    (rbind (stage_entries v2 now downtime 0 [] entries) (\<lambda>staged.
                     rbind (place_all now (sort_key stage_key staged) ((wheel_emptied w)\<lparr>tw_seq := 0\<rparr>)) (\<lambda>w'.
                     rbind (tick_at (tw_tps w) now) (\<lambda>tick. Inr (w'\<lparr>tw_last_tick := tick\<rparr>)))), s2))))"

definition wheel_restore ::
  "('s \<Rightarrow> pyval \<times> 's) \<Rightarrow> ('s \<Rightarrow> pyval \<times> 's) \<Rightarrow> blob option \<Rightarrow> wheel \<Rightarrow> 's \<Rightarrow> (unit, wheel \<times> 's) outcome" where
  "wheel_restore clock wall_clock state w s =
     (case state of
        None \<Rightarrow> (Inr (), w, s)
      | Some b \<Rightarrow>
          (case wheel_recover clock wall_clock b w s of
             (Inl _, s') \<Rightarrow> (Inl QueueStrategyRestoreError, w, s')
           | (Inr w', s') \<Rightarrow> (Inr (), w', s')))"

section \<open>Removing entries by their scanned index\<close>

lemma nths_split_at:
  assumes "i < length xs"
  shows "nths xs A = nths (take i xs) A @ (if i \<in> A then [xs ! i] else []) @ nths (drop (Suc i) xs) {j. Suc i + j \<in> A}"
proof -
  have "nths (take i xs @ xs ! i # drop (Suc i) xs) A
      = nths (take i xs) A @ (if i \<in> A then [xs ! i] else []) @ nths (drop (Suc i) xs) {j. Suc i + j \<in> A}"
    using assms by (simp add: nths_append nths_Cons min_def add.commute)
  then show ?thesis using id_take_nth_drop [OF assms] by simp
qed

lemma nths_cong_take:
  assumes "\<And>j. j < i \<Longrightarrow> j \<in> A \<longleftrightarrow> j \<in> B"
  shows "nths (take i xs) A = nths (take i xs) B"
  unfolding nths_def by (rule arg_cong [where f = "map fst"], rule filter_cong) (auto simp: assms in_set_zip)

lemma bisect_left_card: "sorted xs \<Longrightarrow> distinct xs \<Longrightarrow> bisect_left xs x = card {y \<in> set xs. y < x}"
proof (induction xs)
  case (Cons a xs)
  show ?case
  proof (cases "a < x")
    case True
    then have "{y \<in> set (a # xs). y < x} = insert a {y \<in> set xs. y < x}" by auto
    then show ?thesis using Cons True by (simp add: bisect_left_def)
  next
    case False
    then have "{y \<in> set (a # xs). y < x} = {}" using Cons.prems by auto
    then show ?thesis using False by (simp add: bisect_left_def)
  qed
qed (simp add: bisect_left_def)

lemma live_index:
  assumes "i < length xs" and "sorted r" and "distinct r" and "i \<notin> set r"
  shows "i - bisect_left r i = length (nths (take i xs) (- set r))"
proof -
  have "{j. j < length (take i xs) \<and> j \<in> - set r} = {..<i} - {y \<in> set r. y < i}" using assms(1) by auto
  then have "length (nths (take i xs) (- set r)) = card ({..<i} - {y \<in> set r. y < i})"
    by (simp add: length_nths)
  also have "\<dots> = i - card {y \<in> set r. y < i}" by (subst card_Diff_subset) auto
  finally show ?thesis using bisect_left_card [OF assms(2,3)] by simp
qed

text \<open>The bisection finds the entry, and deleting it there keeps the slot in step with the scan.\<close>

lemma live_entry:
  assumes i: "i < length xs" and r: "sorted r" "distinct r" "i \<notin> set r"
  defines "k \<equiv> i - bisect_left r i" and "live \<equiv> nths xs (- set r)"
  shows "k < length live" "live ! k = xs ! i" "delete_at k live = nths xs (- set (insort i r))"
proof -
  let ?P = "nths (take i xs) (- set r)" and ?S = "nths (drop (Suc i) xs) {j. Suc i + j \<in> - set r}"
  have live: "live = ?P @ xs ! i # ?S"
    using nths_split_at [OF i, of "- set r"] r(3) by (simp add: live_def)
  have k: "k = length ?P" using live_index [OF i r] by (simp add: k_def)
  show "k < length live" "live ! k = xs ! i" using live k by simp_all
  have "nths (take i xs) (- set (insort i r)) = ?P"
    by (rule nths_cong_take) (auto simp: set_insort_key)
  moreover have "{j. Suc i + j \<in> - set (insort i r)} = {j. Suc i + j \<in> - set r}" by (auto simp: set_insort_key)
  ultimately have "nths xs (- set (insort i r)) = ?P @ ?S"
    using nths_split_at [OF i, of "- set (insort i r)"] by (simp add: set_insort_key)
  with live k show "delete_at k live = nths xs (- set (insort i r))" by (simp add: delete_at_def)
qed

section \<open>Well-formed wheels\<close>

definition wheel_held :: "wheel \<Rightarrow> held multiset" where
  "wheel_held w = mset (concat (tw_slots w)) + mset (tw_overflow w)"

definition wheel_wf :: "wheel \<Rightarrow> bool" where
  "wheel_wf w \<longleftrightarrow>
     0 < tw_size w \<and> length (tw_slots w) = tw_size w \<and> tw_mins w = map slot_min (tw_slots w)
   \<and> (\<forall>k < tw_size w. \<forall>h \<in> set (tw_slots w ! k). slot_at w (h_ready h) = Inr k)
   \<and> sorted (map held_key (tw_overflow w))
   \<and> distinct (map h_seq (concat (tw_slots w) @ tw_overflow w))
   \<and> (\<forall>h \<in># wheel_held w. h_seq h < tw_seq w)"

lemma distinct_submset:
  assumes "mset ys \<subseteq># mset xs" and "distinct (map f xs)"
  shows "distinct (map f ys)"
proof -
  have "mset (map f ys) \<subseteq># mset (map f xs)" using assms(1) by (simp add: image_mset_subseteq_mono)
  then have "count (mset (map f ys)) a \<le> count (mset (map f xs)) a" for a by (rule mset_subset_eq_count)
  moreover have "count (mset (map f xs)) a \<le> 1" for a
    using assms(2) by (simp add: distinct_count_atmost_1)
  ultimately have "count (mset (map f ys)) a \<le> 1" for a using order_trans by blast
  then show ?thesis
    by (metis One_nat_def count_eq_zero_iff distinct_count_atmost_1 le_Suc_eq le_zero_eq set_mset_mset)
qed

lemma mset_delete_at: "i < length xs \<Longrightarrow> add_mset (xs ! i) (mset (delete_at i xs)) = mset xs"
proof -
  assume "i < length xs"
  then have "mset xs = mset (take i xs @ xs ! i # drop (Suc i) xs)" by (simp flip: id_take_nth_drop)
  then show ?thesis by (simp add: delete_at_def)
qed

lemma mset_concat_update:
  "k < length xss \<Longrightarrow> mset (concat (xss[k := ys])) + mset (xss ! k) = mset (concat xss) + mset ys"
proof (induction xss arbitrary: k)
  case (Cons xs xss)
  then show ?case by (cases k) (auto simp: ac_simps)
qed simp

lemma set_delete_at: "set (delete_at i xs) \<subseteq> set xs"
  by (auto simp: delete_at_def dest: in_set_takeD in_set_dropD)

section \<open>The drain transfers exactly its candidates\<close>

text \<open>
  The state of a drain that has settled the candidates \<open>handled\<close> of a wheel \<open>w0\<close>: each slot is
  what is left of the scanned one, and the removed indices are those of the settled candidates.
\<close>

definition same_config :: "wheel \<Rightarrow> wheel \<Rightarrow> bool" where
  "same_config w w0 \<longleftrightarrow> tw_bound w = tw_bound w0 \<and> tw_size w = tw_size w0 \<and> tw_tps w = tw_tps w0
     \<and> tw_duration w = tw_duration w0 \<and> tw_default_delay w = tw_default_delay w0 \<and> tw_seq w = tw_seq w0
     \<and> tw_last_tick w = tw_last_tick w0"

definition track :: "wheel \<Rightarrow> candidate set \<Rightarrow> wheel \<Rightarrow> (nat \<Rightarrow> nat list) \<Rightarrow> bool" where
  "track w0 handled w removed \<longleftrightarrow>
     same_config w w0 \<and> tw_mins w = map slot_min (tw_slots w)
   \<and> length (tw_slots w) = length (tw_slots w0)
   \<and> wheel_held w \<subseteq># wheel_held w0
   \<and> tw_overflow w = filter (\<lambda>h. OverflowCand h \<notin> handled) (tw_overflow w0)
   \<and> (\<forall>k < length (tw_slots w0).
        tw_slots w ! k = nths (tw_slots w0 ! k) (- set (removed k))
        \<and> sorted (removed k) \<and> distinct (removed k)
        \<and> set (removed k) = {i. i < length (tw_slots w0 ! k) \<and> WheelCand k i (tw_slots w0 ! k ! i) \<in> handled})"

fun valid_cand :: "wheel \<Rightarrow> candidate \<Rightarrow> bool" where
  "valid_cand w (WheelCand k i h) \<longleftrightarrow>
     k < length (tw_slots w) \<and> i < length (tw_slots w ! k) \<and> h = tw_slots w ! k ! i"
| "valid_cand w (OverflowCand h) \<longleftrightarrow> h \<in> set (tw_overflow w)"

lemma track_start: "wheel_wf w \<Longrightarrow> track w {} w (\<lambda>_. [])"
  by (simp add: track_def same_config_def wheel_wf_def nths_all)

lemma track_mins: "track w0 handled w removed \<Longrightarrow> tw_mins w = map slot_min (tw_slots w)"
  by (simp add: track_def)

lemma track_wf:
  assumes wf: "wheel_wf w0" and tr: "track w0 handled w removed"
  shows "wheel_wf w"
proof -
  have same: "tw_size w = tw_size w0" "tw_tps w = tw_tps w0" "tw_seq w = tw_seq w0"
    using tr by (simp_all add: track_def same_config_def)
  have len: "length (tw_slots w) = tw_size w0" and sub: "wheel_held w \<subseteq># wheel_held w0"
    and over: "tw_overflow w = filter (\<lambda>h. OverflowCand h \<notin> handled) (tw_overflow w0)"
    using tr wf by (simp_all add: track_def wheel_wf_def)
  have "set (tw_slots w ! k) \<subseteq> set (tw_slots w0 ! k)" if "k < tw_size w0" for k
    using tr wf that by (simp add: track_def wheel_wf_def set_nths_subset)
  moreover have "slot_at w = slot_at w0" by (simp add: fun_eq_iff slot_at_def same)
  ultimately have "\<forall>k < tw_size w0. \<forall>h \<in> set (tw_slots w ! k). slot_at w (h_ready h) = Inr k"
    using wf unfolding wheel_wf_def by (metis subsetD)
  moreover have "distinct (map h_seq (concat (tw_slots w) @ tw_overflow w))"
    by (rule distinct_submset [of _ "concat (tw_slots w0) @ tw_overflow w0"])
       (use sub wf in \<open>simp_all add: wheel_held_def wheel_wf_def\<close>)
  moreover have "sorted (map held_key (tw_overflow w))"
    using wf unfolding over by (simp add: wheel_wf_def sorted_filter)
  moreover have "\<forall>h \<in># wheel_held w. h_seq h < tw_seq w0"
    using sub wf by (meson mset_subset_eqD wheel_wf_def)
  ultimately show ?thesis
    using wf len track_mins [OF tr] by (auto simp: wheel_wf_def same)
qed

lemma overflow_distinct: "wheel_wf w \<Longrightarrow> distinct (tw_overflow w)"
  by (auto simp: wheel_wf_def distinct_map)

lemma recompute_min_id:
  assumes "tw_mins w = map slot_min (tw_slots w)"
  shows "recompute_min k w = w"
proof (cases "k < length (tw_slots w)")
  case True
  then have "(tw_mins w)[k := slot_min (tw_slots w ! k)] = tw_mins w"
    using assms by (metis length_map list_update_id nth_map)
  then show ?thesis by (simp add: recompute_min_def)
next
  case False
  with assms show ?thesis by (simp add: recompute_min_def list_update_beyond)
qed

lemma settle_wheel:
  assumes wf: "wheel_wf w0" and tr: "track w0 handled w removed"
    and valid: "valid_cand w0 (WheelCand k i h)" and new: "WheelCand k i h \<notin> handled"
  obtains w' removed' where
    "track w0 (insert (WheelCand k i h) handled) w' removed'"
    "add_mset h (wheel_held w') = wheel_held w"
    "\<And>s. settle B q (WheelCand k i h) w removed s =
       (case qb_push B q (h_item h) (h_priority h) s of
          (Inl e, s') \<Rightarrow> (Inl e, w, removed, s') | (Inr _, s') \<Rightarrow> (Inr (), w', removed', s'))"
proof -
  let ?xs = "tw_slots w0 ! k" and ?r = "removed k"
  let ?idx = "i - bisect_left ?r i"
  let ?w' = "recompute_min k (w\<lparr>tw_slots := (tw_slots w)[k := delete_at ?idx (tw_slots w ! k)]\<rparr>)"
  let ?removed' = "removed(k := insort i ?r)"
  have k: "k < length (tw_slots w0)" "i < length ?xs" "h = ?xs ! i" using valid by simp_all
  have slot: "tw_slots w ! k = nths ?xs (- set ?r)" and r: "sorted ?r" "distinct ?r"
    and set_r: "set ?r = {i. i < length ?xs \<and> WheelCand k i (?xs ! i) \<in> handled}"
    and len: "length (tw_slots w) = length (tw_slots w0)"
    using tr k unfolding track_def by blast+
  have fresh: "i \<notin> set ?r" using set_r new k by simp
  note live = live_entry [OF k(2) r fresh, folded slot]
  have mins: "tw_mins w = map slot_min (tw_slots w)" using track_mins [OF tr] .
  have "mset (concat (tw_slots ?w')) + add_mset h (mset (delete_at ?idx (tw_slots w ! k)))
      = mset (concat (tw_slots w)) + mset (delete_at ?idx (tw_slots w ! k))"
    using mset_concat_update [of k "tw_slots w" "delete_at ?idx (tw_slots w ! k)"] mset_delete_at [OF live(1)] live(2) k len
    by (simp add: recompute_min_def)
  then have held: "add_mset h (wheel_held ?w') = wheel_held w"
    by (simp add: wheel_held_def recompute_min_def)
  have "wheel_held ?w' \<subseteq># wheel_held w0"
    using held tr unfolding track_def by (metis mset_subset_eq_insertD subset_mset.less_imp_le)
  moreover have "set (?removed' l)
      = {j. j < length (tw_slots w0 ! l) \<and> WheelCand l j (tw_slots w0 ! l ! j) \<in> insert (WheelCand k i h) handled}"
    "tw_slots ?w' ! l = nths (tw_slots w0 ! l) (- set (?removed' l))" "sorted (?removed' l)" "distinct (?removed' l)"
    if "l < length (tw_slots w0)" for l
    using that tr set_r live(3) r fresh k len
    by (auto simp: track_def recompute_min_def set_insort_key sorted_insort distinct_insort slot)
  moreover have "same_config ?w' w0" "length (tw_slots ?w') = length (tw_slots w0)"
    "tw_mins ?w' = map slot_min (tw_slots ?w')"
    "tw_overflow ?w' = filter (\<lambda>g. OverflowCand g \<notin> insert (WheelCand k i h) handled) (tw_overflow w0)"
    using tr mins len k(1) by (simp_all add: track_def same_config_def recompute_min_def map_update)
  ultimately have "track w0 (insert (WheelCand k i h) handled) ?w' ?removed'"
    unfolding track_def by blast
  moreover have "settle B q (WheelCand k i h) w removed s =
       (case qb_push B q (h_item h) (h_priority h) s of
          (Inl e, s') \<Rightarrow> (Inl e, w, removed, s') | (Inr _, s') \<Rightarrow> (Inr (), ?w', ?removed', s'))" for s
    using live k by (simp add: Let_def recompute_min_id [OF mins] split: prod.split sum.split)
  ultimately show ?thesis using that held by blast
qed

lemma settle_overflow:
  assumes wf: "wheel_wf w0" and tr: "track w0 handled w removed"
    and valid: "valid_cand w0 (OverflowCand h)" and new: "OverflowCand h \<notin> handled"
  obtains w' where
    "track w0 (insert (OverflowCand h) handled) w' removed"
    "add_mset h (wheel_held w') = wheel_held w"
    "\<And>s. settle B q (OverflowCand h) w removed s =
       (case qb_push B q (h_item h) (h_priority h) s of
          (Inl e, s') \<Rightarrow> (Inl e, w, removed, s') | (Inr _, s') \<Rightarrow> (Inr (), w', removed, s'))"
proof -
  let ?w' = "w\<lparr>tw_overflow := remove1 h (tw_overflow w)\<rparr>"
  have over: "tw_overflow w = filter (\<lambda>h. OverflowCand h \<notin> handled) (tw_overflow w0)"
    and sub: "wheel_held w \<subseteq># wheel_held w0"
    using tr by (simp_all add: track_def)
  have mem: "h \<in> set (tw_overflow w)" using over valid new by simp
  have held: "add_mset h (wheel_held ?w') = wheel_held w" using mem by (simp add: wheel_held_def)
  then have "wheel_held ?w' \<subseteq># wheel_held w0" using sub by (metis mset_subset_eq_insertD subset_mset.less_imp_le)
  moreover have "remove1 h (tw_overflow w) = filter (\<lambda>g. OverflowCand g \<notin> insert (OverflowCand h) handled) (tw_overflow w0)"
    using overflow_distinct [OF wf] unfolding over
    by (simp add: distinct_remove1_removeAll removeAll_filter_not_eq conj_commute cong: filter_cong) metis
  ultimately have "track w0 (insert (OverflowCand h) handled) ?w' removed"
    using tr by (simp add: track_def same_config_def)
  moreover have "settle B q (OverflowCand h) w removed s =
       (case qb_push B q (h_item h) (h_priority h) s of
          (Inl e, s') \<Rightarrow> (Inl e, w, removed, s') | (Inr _, s') \<Rightarrow> (Inr (), ?w', removed, s'))" for s
    using mem by (cases "tw_overflow w") (auto split: prod.split sum.split)
  ultimately show ?thesis using that held by blast
qed

lemma settle_step:
  assumes "wheel_wf w0" "track w0 handled w removed" "valid_cand w0 c" "c \<notin> handled"
  obtains w' removed' where
    "track w0 (insert c handled) w' removed'"
    "add_mset (cand_held c) (wheel_held w') = wheel_held w"
    "\<And>s. settle B q c w removed s =
       (case qb_push B q (h_item (cand_held c)) (h_priority (cand_held c)) s of
          (Inl e, s') \<Rightarrow> (Inl e, w, removed, s') | (Inr _, s') \<Rightarrow> (Inr (), w', removed', s'))"
proof (cases c)
  case (WheelCand k i h)
  with assms(3,4) have v: "valid_cand w0 (WheelCand k i h)" and n: "WheelCand k i h \<notin> handled" by simp_all
  show ?thesis
    by (rule settle_wheel [OF assms(1,2) v n, of B q], rule that) (simp_all add: WheelCand del: settle.simps)
next
  case (OverflowCand h)
  with assms(3,4) have v: "valid_cand w0 (OverflowCand h)" and n: "OverflowCand h \<notin> handled" by simp_all
  show ?thesis
    by (rule settle_overflow [OF assms(1,2) v n, of B q], rule that) (simp_all add: OverflowCand del: settle.simps)
qed

lemma settle_all_run:
  assumes wf: "wheel_wf w0"
    and "track w0 handled w removed" "distinct cs" "set cs \<inter> handled = {}" "\<forall>c \<in> set cs. valid_cand w0 c"
    and "push_run B q (map cand_held cs) s = (r, rest, s')"
  shows "\<exists>w' handled' removed'. settle_all B q cs w removed s = (r, w', s') \<and> track w0 handled' w' removed'
      \<and> wheel_held w' + mset (map cand_held cs) = wheel_held w + mset rest
      \<and> (r = Inr () \<longrightarrow> handled' = handled \<union> set cs)"
  using assms(2-)
proof (induction cs arbitrary: w removed handled s)
  case (Cons c cs)
  obtain w1 removed1 where step: "track w0 (insert c handled) w1 removed1"
    "add_mset (cand_held c) (wheel_held w1) = wheel_held w"
    "\<And>s. settle B q c w removed s =
       (case qb_push B q (h_item (cand_held c)) (h_priority (cand_held c)) s of
          (Inl e, s') \<Rightarrow> (Inl e, w, removed, s') | (Inr _, s') \<Rightarrow> (Inr (), w1, removed1, s'))"
    using settle_step [OF wf Cons.prems(1), of c B q] Cons.prems by auto
  obtain rp s1 where p: "qb_push B q (h_item (cand_held c)) (h_priority (cand_held c)) s = (rp, s1)" by fastforce
  show ?case
  proof (cases rp)
    case (Inl e)
    with p Cons.prems(5) have "r = Inl e" "rest = map cand_held (c # cs)" "s' = s1" by simp_all
    with p Inl step(3) [of s] Cons.prems(1) show ?thesis by (intro exI [of _ w]) auto
  next
    case (Inr u)
    with p Cons.prems(5) have run: "push_run B q (map cand_held cs) s1 = (r, rest, s')" by simp
    have "set cs \<inter> insert c handled = {}" "distinct cs" "\<forall>c \<in> set cs. valid_cand w0 c" using Cons.prems by auto
    then obtain w' handled' removed' where ih: "settle_all B q cs w1 removed1 s1 = (r, w', s')"
      "track w0 handled' w' removed'" "wheel_held w' + mset (map cand_held cs) = wheel_held w1 + mset rest"
      "r = Inr () \<longrightarrow> handled' = insert c handled \<union> set cs"
      using Cons.IH [OF step(1) _ _ _ run] by blast
    have "wheel_held w' + mset (map cand_held (c # cs)) = wheel_held w + mset rest"
      using ih(3) step(2) by (metis add_mset_add_single list.simps(9) mset.simps(2) union_mset_add_mset_left union_mset_add_mset_right)
    with p Inr step(3) [of s] ih show ?thesis by (intro exI [of _ w'] exI [of _ handled'] exI [of _ removed']) auto
  qed
qed auto

lemma set_candidates:
  "set (candidates now tick w) =
     {WheelCand k i (tw_slots w ! k ! i) |k i. k \<in> set (scanned_slots w tick) \<and> i < length (tw_slots w ! k)
        \<and> h_ready (tw_slots w ! k ! i) \<le> now}
   \<union> {OverflowCand h |h. h \<in> set (tw_overflow w) \<and> h_ready h \<le> now}"
  by (auto simp: candidates_def slot_candidates_def image_iff)

lemma scanned_slots_bound: "k \<in> set (scanned_slots w tick) \<Longrightarrow> k < tw_size w"
  by (simp add: scanned_slots_def Let_def)

lemma candidates_valid: "wheel_wf w \<Longrightarrow> c \<in> set (candidates now tick w) \<Longrightarrow> valid_cand w c"
  by (auto simp: set_candidates wheel_wf_def dest: scanned_slots_bound)

lemma candidates_ready: "c \<in> set (candidates now tick w) \<Longrightarrow> h_ready (cand_held c) \<le> now"
  by (auto simp: set_candidates)

lemma distinct_slot_candidates:
  "distinct ks \<Longrightarrow> distinct (concat (map (slot_candidates now w) ks))"
  by (induction ks) (auto simp: slot_candidates_def distinct_map inj_on_def)

lemma candidates_distinct: "wheel_wf w \<Longrightarrow> distinct (candidates now tick w)"
  using distinct_slot_candidates [of "scanned_slots w tick" now w] overflow_distinct [of w]
  by (auto simp: candidates_def distinct_map inj_on_def slot_candidates_def scanned_slots_def Let_def)

definition wheel_due :: "int \<Rightarrow> rat \<Rightarrow> wheel \<Rightarrow> held list" where
  "wheel_due tick now w = map cand_held (candidates now tick w)"

lemma wheel_drain_run:
  assumes wf: "wheel_wf w" and run: "push_run B q (wheel_due tick now w) s = (r, rest, s')"
  obtains w' handled removed where "settle_all B q (candidates now tick w) w (\<lambda>_. []) s = (r, w', s')"
    "track w handled w' removed" "wheel_held w' + mset (wheel_due tick now w) = wheel_held w + mset rest"
    "r = Inr () \<longrightarrow> handled = set (candidates now tick w)"
  using settle_all_run [OF wf track_start [OF wf] candidates_distinct [OF wf], of now tick B q s r rest s']
    candidates_valid [OF wf] run that
  by (auto simp: wheel_due_def)

lemma wheel_wf_tick: "wheel_wf (w\<lparr>tw_last_tick := t\<rparr>) = wheel_wf w"
  by (simp add: wheel_wf_def wheel_held_def slot_at_def)

interpretation wheel_store: holding_store B q "\<lambda>now. wheel_drain_at B q now tick" "wheel_due tick" wheel_held wheel_wf
  for B q tick
proof
  fix w now s r rest s'
  assume wf: "wheel_wf w" and run: "push_run B q (wheel_due tick now w) s = (r, rest, s')"
  obtain w' handled removed where d: "settle_all B q (candidates now tick w) w (\<lambda>_. []) s = (r, w', s')"
    "track w handled w' removed" "wheel_held w' + mset (wheel_due tick now w) = wheel_held w + mset rest"
    using wheel_drain_run [OF wf run] by blast
  have wf': "wheel_wf w'" using track_wf [OF wf d(2)] .
  have held: "wheel_held (w'\<lparr>tw_last_tick := tick\<rparr>) = wheel_held w'" by (simp add: wheel_held_def)
  show "\<exists>h'. wheel_drain_at B q now tick w s = (r, h', s') \<and> wheel_wf h'
      \<and> wheel_held h' + mset (wheel_due tick now w) = wheel_held w + mset rest"
    using d wf' held by (cases r) (auto simp: wheel_drain_at_def wheel_wf_tick)
next
  show "mset (wheel_due tick now w) \<subseteq># wheel_held w" if wf: "wheel_wf w" for now w
  proof -
    have "push_run list_backend q hs s = (Inr (), [], snd (snd (push_run list_backend q hs s)))" for q hs s
      by (induction hs arbitrary: s) (simp_all add: list_backend_def)
    from wheel_drain_run [OF wf this [of q "wheel_due tick now w" "\<lambda>_. []"]]
    obtain w' where "wheel_held w' + mset (wheel_due tick now w) = wheel_held w" by (metis add.right_neutral mset.simps(1))
    then show ?thesis by (metis mset_subset_eq_add_right)
  qed
next
  show "h_ready x \<le> now" if "x \<in> set (wheel_due tick now w)" for x now w
    using that candidates_ready by (auto simp: wheel_due_def)
next
  show "sorted (map held_key (wheel_due tick now w))" for now w
    unfolding wheel_due_def candidates_def by (simp add: comp_def)
qed

section \<open>Timely wheels\<close>

text \<open>
  At the default granularity of one tick per second scaling is exact. A wheel is timely when every
  entry of a slot is due at a tick the drains have not passed yet.
\<close>

definition timely :: "wheel \<Rightarrow> bool" where
  "timely w \<longleftrightarrow> tw_tps w = 1
     \<and> (\<forall>h \<in> set (concat (tw_slots w)). is_double (h_ready h) \<and> tw_last_tick w < \<lceil>h_ready h\<rceil>)"

lemma release_tick_one: "is_double x \<Longrightarrow> release_tick 1 x = Inr \<lceil>x\<rceil>"
  by (simp add: release_tick_def)

lemma tick_at_one: "is_double x \<Longrightarrow> tick_at 1 x = Inr \<lfloor>x\<rfloor>"
  by (simp add: tick_at_def)

lemma scanned_slot_of_tick:
  assumes "0 < tw_size w" and "tw_last_tick w < t" and "t \<le> now_tick"
  shows "nat (t mod int (tw_size w)) \<in> set (scanned_slots w now_tick)"
proof -
  let ?n = "int (tw_size w)" and ?L = "tw_last_tick w"
  let ?span = "nat (max 0 (min (now_tick - ?L) ?n))"
  define off where "off = nat ((t - ?L - 1) mod ?n)"
  have off: "int off = (t - ?L - 1) mod ?n" using assms(1) by (simp add: off_def)
  have "int off < ?n" using off assms(1) by simp
  moreover have "int off \<le> t - ?L - 1"
    unfolding off by (rule zmod_le_nonneg_dividend) (use assms in simp)
  ultimately have lt: "off < ?span" using assms(3) by simp
  have "(?L + 1 + int off) mod ?n = t mod ?n"
    unfolding off by (simp add: mod_simps)
  moreover have "nat (t mod ?n) < tw_size w" using assms(1) by (simp add: nat_less_iff)
  ultimately show ?thesis
    unfolding scanned_slots_def Let_def using lt by (auto simp: image_iff intro!: bexI [of _ off])
qed

lemma drained_slot_entry:
  assumes wf: "wheel_wf w" and tr: "track w (set (candidates now tick w)) w' removed"
    and k: "k < tw_size w" and h: "h \<in> set (tw_slots w' ! k)" and scanned: "k \<in> set (scanned_slots w tick)"
  shows "now < h_ready h"
proof (rule ccontr)
  assume "\<not> now < h_ready h"
  then have due: "h_ready h \<le> now" by simp
  let ?xs = "tw_slots w ! k"
  have k': "k < length (tw_slots w)" using wf k by (simp add: wheel_wf_def)
  then have slot: "tw_slots w' ! k = nths ?xs (- set (removed k))"
    and rem: "set (removed k) = {i. i < length ?xs \<and> WheelCand k i (?xs ! i) \<in> set (candidates now tick w)}"
    using tr unfolding track_def by blast+
  from h slot obtain i where i: "i < length ?xs" "i \<notin> set (removed k)" "h = ?xs ! i"
    by (auto simp: set_nths)
  with due scanned have "WheelCand k i (?xs ! i) \<in> set (candidates now tick w)" by (auto simp: set_candidates)
  with rem i show False by simp
qed

lemma timely_drain_settled:
  assumes wf: "wheel_wf w" and t: "timely w" and now: "is_double now"
    and tr: "track w (set (candidates now \<lfloor>now\<rfloor> w)) w' removed"
    and h: "h \<in> set (concat (tw_slots w'))"
  shows "\<lfloor>now\<rfloor> < \<lceil>h_ready h\<rceil> \<and> is_double (h_ready h)"
proof -
  obtain k where k: "k < length (tw_slots w')" "h \<in> set (tw_slots w' ! k)"
    using h by (metis UN_E in_set_conv_nth set_concat)
  have len: "length (tw_slots w') = tw_size w" using tr wf by (simp add: track_def wheel_wf_def)
  then have h0: "h \<in> set (tw_slots w ! k)"
    using tr k wf unfolding track_def wheel_wf_def by (metis in_set_nthsD)
  then have mem: "h \<in> set (concat (tw_slots w))" using k len wf by (auto simp: wheel_wf_def)
  then have d: "is_double (h_ready h)" "tw_last_tick w < \<lceil>h_ready h\<rceil>" using t unfolding timely_def by blast+
  have "slot_at w (h_ready h) = Inr k" using wf h0 k len by (simp add: wheel_wf_def)
  then have slot: "k = nat (\<lceil>h_ready h\<rceil> mod int (tw_size w))"
    using t d by (simp add: slot_at_def timely_def release_tick_one)
  have "\<lfloor>now\<rfloor> < \<lceil>h_ready h\<rceil>"
  proof (rule ccontr)
    assume "\<not> \<lfloor>now\<rfloor> < \<lceil>h_ready h\<rceil>"
    then have "\<lceil>h_ready h\<rceil> \<le> \<lfloor>now\<rfloor>" by simp
    then have "k \<in> set (scanned_slots w \<lfloor>now\<rfloor>)"
      using scanned_slot_of_tick [of w] wf d slot by (simp add: wheel_wf_def)
    then have "now < h_ready h" using drained_slot_entry [OF wf tr _ k(2)] k len by simp
    moreover have "h_ready h \<le> now" using \<open>\<lceil>h_ready h\<rceil> \<le> \<lfloor>now\<rfloor>\<close> by linarith
    ultimately show False by simp
  qed
  with d show ?thesis by simp
qed

section \<open>Properties\<close>

text \<open>
  C9. The merged drain: on a well-formed wheel, a drain at the clock reading \<open>now\<close> is the transfer
  loop over a list of held entries that are all due, in the order of deadlines and then sequence
  numbers across wheel and overflow. It raises exactly when a live push raises; every entry whose
  push did not return is still held, every other one is gone, and the wheel stays well-formed
  (slots, slot minima, heap order and sequence numbers included). The index bookkeeping of the
  commit loop never skips or mistakes an entry.
\<close>

theorem wheel_drain_transfers:
  assumes "wheel_wf w" and "read_clock clock s = (Inr now, s1)" and "tick_at (tw_tps w) now = Inr tick"
    and "wheel_drain_ready B clock q w s = (r, w', s')"
  obtains released rest where "push_run B q released s1 = (r, rest, s')"
    "wheel_held w' + mset released = wheel_held w + mset rest"
    "\<forall>h \<in> set released. h_ready h \<le> now" "sorted (map held_key released)" "wheel_wf w'"
proof -
  have at: "wheel_drain_at B q now tick w s1 = (r, w', s')"
    using assms by (simp add: wheel_drain_ready_def)
  obtain rest where "push_run B q (wheel_due tick now w) s1 = (r, rest, s')" "wheel_wf w'"
    "wheel_held w' + mset (wheel_due tick now w) = wheel_held w + mset rest"
    using wheel_store.drain_run [OF assms(1) at] by blast
  with wheel_store.due_ready [OF assms(1)] wheel_store.due_sorted [OF assms(1)] show ?thesis
    using that by blast
qed

definition wheel_demo :: wheel where
  "wheel_demo = \<lparr>tw_bound = Some ''q'', tw_size = 2, tw_tps = 1, tw_duration = 2, tw_default_delay = 0,
     tw_slots = [[\<lparr>h_ready = 2, h_seq = 1, h_item = [7], h_priority = 3\<rparr>], []],
     tw_mins = [Some 2, None], tw_overflow = [\<lparr>h_ready = 1, h_seq = 0, h_item = [8], h_priority = 0\<rparr>],
     tw_seq = 2, tw_last_tick = 0\<rparr>"

lemma wheel_demo_wf: "wheel_wf wheel_demo"
  by (simp add: wheel_wf_def wheel_demo_def slot_min_def slot_at_def release_tick_one wheel_held_def All_less_Suc numeral_2_eq_2)

lemma wheel_demo_tick: "tick_at (tw_tps wheel_demo) 2 = Inr 2"
  by (simp add: wheel_demo_def tick_at_one)

lemma wheel_demo_drain:
  "wheel_drain_ready list_backend (\<lambda>s. (PyFloat (Fin 2), s)) ''q'' wheel_demo (\<lambda>_. [])
     = (Inr (), wheel_demo\<lparr>tw_slots := [[], []], tw_mins := [None, None], tw_overflow := [], tw_last_tick := 2\<rparr>,
        (\<lambda>_. [])(''q'' := [[8], [7]]))"
proof -
  let ?a = "\<lparr>h_ready = 2, h_seq = 1, h_item = [7], h_priority = 3\<rparr> :: held"
    and ?b = "\<lparr>h_ready = 1, h_seq = 0, h_item = [8], h_priority = 0\<rparr> :: held"
  have slots: "scanned_slots wheel_demo 2 = [0, 1]" by code_simp
  have "candidates 2 2 wheel_demo = [OverflowCand ?b, WheelCand 0 0 ?a]"
    unfolding candidates_def slots
    by (simp add: slot_candidates_def wheel_demo_def held_key_def less_eq_prod_def)
  then show ?thesis
    using wheel_demo_tick
    by (simp add: wheel_drain_ready_def read_clock_def wheel_drain_at_def)
       (simp add: wheel_demo_def bisect_left_def list_backend_def recompute_min_def slot_min_def delete_at_def)
qed

theorem wheel_drain_transfers_witness:
  "\<exists>w' s' released. wheel_drain_ready list_backend (\<lambda>s. (PyFloat (Fin 2), s)) ''q'' wheel_demo (\<lambda>_. []) = (Inr (), w', s')
     \<and> s' ''q'' = [[8], [7]] \<and> wheel_held w' + mset released = wheel_held wheel_demo \<and> (\<forall>h \<in> set released. h_ready h \<le> 2)"
proof -
  define s0 :: "string \<Rightarrow> bytes list" where "s0 = (\<lambda>_. [])"
  have c: "read_clock (\<lambda>s. (PyFloat (Fin 2), s)) s0 = (Inr 2, s0)" by (simp add: read_clock_def)
  obtain released rest where r: "push_run list_backend ''q'' released s0 = (Inr (), rest, s0(''q'' := [[8], [7]]))"
    "wheel_held (wheel_demo\<lparr>tw_slots := [[], []], tw_mins := [None, None], tw_overflow := [], tw_last_tick := 2\<rparr>)
        + mset released = wheel_held wheel_demo + mset rest" "\<forall>h \<in> set released. h_ready h \<le> 2"
    by (rule wheel_drain_transfers [OF wheel_demo_wf c wheel_demo_tick wheel_demo_drain [folded s0_def]])
  have "rest = []" using push_run_split [OF r(1)] by blast
  with r wheel_demo_drain show ?thesis by (intro exI [of _ released] exI conjI) (rule wheel_demo_drain, simp_all)
qed



text \<open>
  A deadline that rounding absorbs: $100 + 2^{-60}$ is the double 100.
\<close>

lemma concat_update_replicate: "k < n \<Longrightarrow> concat ((replicate n [])[k := xs]) = xs"
  by (induction n arbitrary: k) (auto split: nat.splits)

lemma fadd_absorbs: "fadd 100 (1 / 2 ^ 60) = Fin 100"
proof -
  have p: "(2::rat) ^ 1074 = 2 ^ 46 * 2 ^ 1028" by (simp only: power_add [symmetric]) simp
  have "(100 + 1 / 2 ^ 60) * (2::rat) ^ 46 = of_int (100 * 2 ^ 46) + 1 / 2 ^ 14" by simp
  then have scaled: "(100 + 1 / 2 ^ 60) * (2::rat) ^ 1074 = (of_int (100 * 2 ^ 46) + 1 / 2 ^ 14) * 2 ^ 1028"
    unfolding p by (metis mult.assoc)
  have "round_scaled ((of_int (100 * 2 ^ 46) + 1 / 2 ^ 14) * 2 ^ 1028) = of_int (100 * 2 ^ 46) * 2 ^ 1028"
    by (rule round_scaled_absorbs) simp_all
  also have "\<dots> = 100 * 2 ^ 1074" unfolding p by simp
  finally have "round_mag (100 + 1 / 2 ^ 60) = 100" unfolding round_mag_def scaled by simp
  moreover have "(100::rat) < 2 ^ 1024" using two_power_53_less by (rule less_trans [rotated]) simp
  ultimately show ?thesis unfolding fadd_def round_double_def by simp
qed

definition stranded_entry :: held where
  "stranded_entry = \<lparr>h_ready = 100, h_seq = 0, h_item = [9], h_priority = 0\<rparr>"

definition fresh_wheel :: wheel where
  "fresh_wheel = \<lparr>tw_bound = None, tw_size = 60, tw_tps = 1, tw_duration = 60, tw_default_delay = 0,
     tw_slots = replicate 60 [], tw_mins = replicate 60 None, tw_overflow = [], tw_seq = 0, tw_last_tick = 100\<rparr>"

definition stranded_wheel :: wheel where
  "stranded_wheel = (append_wheel_entry 40 stranded_entry fresh_wheel)\<lparr>tw_bound := Some ''q''\<rparr>"

lemma stranded_wf: "wheel_wf stranded_wheel"
proof -
  have "slot_at stranded_wheel 100 = Inr 40"
    by (simp add: slot_at_def stranded_wheel_def append_wheel_entry_def fresh_wheel_def release_tick_one)
  then show ?thesis
    by (auto simp: wheel_wf_def stranded_wheel_def append_wheel_entry_def fresh_wheel_def stranded_entry_def
        slot_min_def min_opt_def wheel_held_def nth_list_update map_update concat_update_replicate split: if_splits)
qed

lemma stranded_no_candidates:
  assumes "100 \<le> tick" "tick < 160"
  shows "candidates now tick stranded_wheel = []"
proof -
  have "40 \<notin> set (scanned_slots stranded_wheel tick)"
  proof
    assume "40 \<in> set (scanned_slots stranded_wheel tick)"
    then obtain off where off: "off < nat (tick - 100)" "nat ((101 + int off) mod 60) = 40"
      using assms by (auto simp: scanned_slots_def Let_def stranded_wheel_def append_wheel_entry_def fresh_wheel_def)
    then have "int off < 59" "(101 + int off) mod 60 = 40" using assms by simp_all
    then show False by presburger
  qed
  moreover have "tw_slots stranded_wheel ! k = []" if "k < 60" "k \<noteq> 40" for k
    using that by (simp add: stranded_wheel_def append_wheel_entry_def fresh_wheel_def)
  moreover have "k < 60" if "k \<in> set (scanned_slots stranded_wheel tick)" for k
    using scanned_slots_bound [OF that] by (simp add: stranded_wheel_def append_wheel_entry_def fresh_wheel_def)
  ultimately have "\<forall>k \<in> set (scanned_slots stranded_wheel tick). tw_slots stranded_wheel ! k = []" by metis
  moreover have "tw_overflow stranded_wheel = []"
    by (simp add: stranded_wheel_def append_wheel_entry_def fresh_wheel_def)
  ultimately have "set (candidates now tick stranded_wheel) = {}" unfolding set_candidates by fastforce
  then show ?thesis by simp
qed



section \<open>Well-formedness is kept\<close>

lemma slot_min_snoc: "slot_min (xs @ [h]) = Some (min_opt (slot_min xs) (h_ready h))"
  by (cases xs) (auto simp: slot_min_def min_opt_def min_def)

lemma slot_at_bound: "0 < tw_size w \<Longrightarrow> slot_at w x = Inr k \<Longrightarrow> k < tw_size w"
  by (auto simp: slot_at_def rbind_eq_Inr_iff nat_less_iff)

lemma wheel_held_append:
  assumes "k < length (tw_slots w)"
  shows "wheel_held (append_wheel_entry k h w) = add_mset h (wheel_held w)"
  using mset_concat_update [OF assms, of "tw_slots w ! k @ [h]"]
  by (simp add: wheel_held_def append_wheel_entry_def)

lemma distinct_seq_held:
  assumes "distinct (map h_seq (concat (tw_slots w) @ tw_overflow w))" and "\<forall>g \<in># wheel_held w. h_seq g < n"
    and "wheel_held w' = add_mset h (wheel_held w)" and "h_seq h = n"
  shows "distinct (map h_seq (concat (tw_slots w') @ tw_overflow w'))"
proof -
  have "mset (concat (tw_slots w') @ tw_overflow w') = mset (h # concat (tw_slots w) @ tw_overflow w)"
    using assms(3) by (simp add: wheel_held_def)
  moreover have "distinct (map h_seq (h # concat (tw_slots w) @ tw_overflow w))"
    using assms(1,2,4) by (force simp: wheel_held_def)
  ultimately show ?thesis using distinct_map_mset by blast
qed

lemma append_wheel_entry_wf:
  assumes wf: "wheel_wf w" and slot: "slot_at w (h_ready h) = Inr k" and seq: "h_seq h = tw_seq w"
  shows "wheel_wf (append_wheel_entry k h w)"
proof -
  let ?w' = "append_wheel_entry k h w"
  have k: "k < tw_size w" "k < length (tw_slots w)"
    using slot_at_bound [OF _ slot] wf by (simp_all add: wheel_wf_def)
  have held: "wheel_held ?w' = add_mset h (wheel_held w)" using wheel_held_append [OF k(2)] .
  have "distinct (map h_seq (concat (tw_slots ?w') @ tw_overflow ?w'))"
    using distinct_seq_held [OF _ _ held seq] wf by (simp add: wheel_wf_def)
  moreover have "tw_mins ?w' = map slot_min (tw_slots ?w')"
    using wf k by (simp add: append_wheel_entry_def wheel_wf_def map_update slot_min_snoc)
  moreover have "\<forall>j < tw_size w. \<forall>g \<in> set (tw_slots ?w' ! j). slot_at w (h_ready g) = Inr j"
    using wf slot k by (auto simp: append_wheel_entry_def wheel_wf_def nth_list_update split: if_splits)
  moreover have "slot_at ?w' = slot_at w" by (simp add: fun_eq_iff slot_at_def append_wheel_entry_def)
  moreover have "\<forall>g \<in># wheel_held ?w'. h_seq g < Suc (tw_seq w)"
    using wf seq unfolding held by (fastforce simp: wheel_wf_def)
  ultimately show ?thesis using wf k by (simp add: wheel_wf_def append_wheel_entry_def)
qed

lemma push_overflow_wf:
  assumes wf: "wheel_wf w" and seq: "h_seq h = tw_seq w"
  shows "wheel_wf (w\<lparr>tw_overflow := heappush h (tw_overflow w), tw_seq := Suc (tw_seq w)\<rparr>)"
proof -
  let ?w' = "w\<lparr>tw_overflow := heappush h (tw_overflow w), tw_seq := Suc (tw_seq w)\<rparr>"
  have held: "wheel_held ?w' = add_mset h (wheel_held w)" by (simp add: wheel_held_def)
  have "distinct (map h_seq (concat (tw_slots ?w') @ tw_overflow ?w'))"
    using distinct_seq_held [OF _ _ held seq] wf by (simp add: wheel_wf_def)
  moreover have "\<forall>g \<in># wheel_held ?w'. h_seq g < Suc (tw_seq w)"
    using wf seq unfolding held by (fastforce simp: wheel_wf_def)
  ultimately show ?thesis
    using wf by (simp add: wheel_wf_def slot_at_def heappush_def sorted_insort_key)
qed

lemma wheel_wf_bound: "wheel_wf (w\<lparr>tw_bound := b\<rparr>) = wheel_wf w"
  by (simp add: wheel_wf_def wheel_held_def slot_at_def)

lemma wheel_bind_wf: "wheel_wf w \<Longrightarrow> wheel_bind q w = (r, w') \<Longrightarrow> wheel_wf w'"
  by (auto simp: wheel_bind_def wheel_wf_bound split: prod.splits)

lemma wheel_hold_wf: "wheel_wf w \<Longrightarrow> wheel_hold clock item p d w s = (r, w', s') \<Longrightarrow> wheel_wf w'"
  by (auto simp: wheel_hold_def Let_def intro: append_wheel_entry_wf push_overflow_wf
      split: prod.splits sum.splits if_splits)

lemma wheel_push_wf: "wheel_wf w \<Longrightarrow> wheel_push B clock q item p d w s = (r, w', s') \<Longrightarrow> wheel_wf w'"
  unfolding wheel_push_def
  by (auto simp: Let_def dest: wheel_bind_wf wheel_hold_wf split: prod.splits sum.splits if_splits)

lemma wheel_emptied_wf: "wheel_wf w \<Longrightarrow> wheel_wf (wheel_emptied w)"
  by (auto simp: wheel_emptied_def wheel_wf_def slot_min_def wheel_held_def)

lemma wheel_init_wf: "wheel_init clock n tps d s = (Inr w, s') \<Longrightarrow> wheel_wf w"
  by (auto simp: wheel_init_def wheel_wf_def slot_min_def wheel_held_def rbind_eq_Inr_iff
      split: pyval.splits if_splits sum.splits prod.splits)

section \<open>Restoring\<close>

definition placed :: "nat \<Rightarrow> staged list \<Rightarrow> held list" where
  "placed n es = map (\<lambda>(i, e). \<lparr>h_ready = st_ready e, h_seq = i, h_item = st_item e, h_priority = st_priority e\<rparr>)
     (enumerate n es)"

lemma placed_simps [simp]:
  "placed n [] = []"
  "placed n (e # es) = \<lparr>h_ready = st_ready e, h_seq = n, h_item = st_item e, h_priority = st_priority e\<rparr> # placed (Suc n) es"
  by (simp_all add: placed_def)

lemma place_entry_facts:
  assumes "wheel_wf w" and "place_entry now e w = Inr w'"
  shows "wheel_wf w' \<and> tw_seq w' = Suc (tw_seq w) \<and> tw_tps w' = tw_tps w
    \<and> wheel_held w' = add_mset \<lparr>h_ready = st_ready e, h_seq = tw_seq w, h_item = st_item e, h_priority = st_priority e\<rparr> (wheel_held w)"
proof -
  have "k < length (tw_slots w)" if "slot_at w x = Inr k" for k x
    using slot_at_bound [OF _ that] assms(1) by (simp add: wheel_wf_def)
  with assms show ?thesis
    by (auto simp: place_entry_def Let_def rbind_eq_Inr_iff wheel_held_append
        intro: append_wheel_entry_wf push_overflow_wf split: if_splits)
       (simp_all add: append_wheel_entry_def wheel_held_def)
qed

lemma place_all_facts:
  assumes "wheel_wf w" and "place_all now es w = Inr w'"
  shows "wheel_wf w' \<and> tw_tps w' = tw_tps w \<and> wheel_held w' = wheel_held w + mset (placed (tw_seq w) es)"
  using assms
proof (induction es arbitrary: w)
  case (Cons e es)
  then obtain w1 where w1: "place_entry now e w = Inr w1" "place_all now es w1 = Inr w'"
    by (auto simp: rbind_eq_Inr_iff)
  from place_entry_facts [OF Cons.prems(1) w1(1)] Cons.IH [OF _ w1(2)] show ?case by simp
qed simp

lemma place_all_succeeds:
  assumes "\<forall>e \<in> set es. \<exists>t. release_tick (tw_tps w) (st_ready e) = Inr t"
  shows "\<exists>w'. place_all now es w = Inr w'"
  using assms
proof (induction es arbitrary: w)
  case (Cons e es)
  then obtain t where t: "release_tick (tw_tps w) (st_ready e) = Inr t" by auto
  then obtain w1 where w1: "place_entry now e w = Inr w1" "tw_tps w1 = tw_tps w"
    by (cases "now < st_ready e \<and> fle_rat (fsub (st_ready e) now) (tw_duration w)")
       (auto simp: place_entry_def Let_def slot_at_def append_wheel_entry_def)
  with Cons.IH [of w1] Cons.prems show ?case by simp
qed simp

text \<open>The staged form of a snapshot entry, and how far its deadline was at the snapshot.\<close>

definition rebased :: "rat \<Rightarrow> held \<Rightarrow> held" where
  "rebased now h = h\<lparr>h_ready := rd (h_ready h - now)\<rparr>"

definition staged_of :: "rat \<Rightarrow> rat \<Rightarrow> nat \<times> held \<Rightarrow> staged" where
  "staged_of now' d ih =
     \<lparr>st_ready = restored_deadline now' d (h_ready (snd ih)), st_deadline = h_ready (snd ih), st_order = fst ih,
      st_seq = Some (h_seq (snd ih)), st_item = h_item (snd ih), st_priority = h_priority (snd ih)\<rparr>"

lemma restored_timing_entry:
  assumes "\<bar>h_ready h - now\<bar> \<le> 2 ^ 52" "0 \<le> d" "d \<le> 2 ^ 52" "0 \<le> now'" "now' \<le> 2 ^ 52"
  shows "restored_timing True now' (Fin d) (wheel_entry now h)
    = Inr (restored_deadline now' d (rd (h_ready h - now)), rd (h_ready h - now))"
proof -
  have gap: "fsub (h_ready h) now = Fin (rd (h_ready h - now))"
    using round_double_rd [of "h_ready h - now"] assms(1) by (simp add: fsub_def)
  have "\<bar>rd (h_ready h - now)\<bar> \<le> 2 ^ 52" using rd_bound [OF assms(1)] by simp
  then have "fadd_of now' (fmax (Fin 0) (fsub_of (rd (h_ready h - now)) (Fin d)))
      = Fin (restored_deadline now' d (rd (h_ready h - now)))"
    using restored_sum assms by blast
  then show ?thesis
    by (simp add: restored_timing_def wheel_entry_def nonneg_gap_def gap fmax_zero_Fin del: fsub_of.simps)
qed

lemma stage_snapshot:
  assumes "\<forall>h \<in> set hs. \<bar>h_ready h - now\<bar> \<le> 2 ^ 52" "0 \<le> d" "d \<le> 2 ^ 52" "0 \<le> now'" "now' \<le> 2 ^ 52"
    and "distinct (map h_seq hs)" "h_seq ` set hs \<inter> set seen = {}"
  shows "stage_entries True now' (Fin d) n seen (map (wheel_entry now) hs)
    = Inr (map (staged_of now' d) (enumerate n (map (rebased now) hs)))"
  using assms
proof (induction hs arbitrary: n seen)
  case (Cons h hs)
  have time: "restored_timing True now' (Fin d) (wheel_entry now h)
      = Inr (restored_deadline now' d (rd (h_ready h - now)), rd (h_ready h - now))"
    using Cons.prems by (intro restored_timing_entry) auto
  have seq: "stage_sequence seen (py_get (wheel_entry now h) ''sequence'') = Inr (Some (h_seq h))"
    using Cons.prems(7) by (simp add: wheel_entry_def)
  have rest: "stage_entries True now' (Fin d) (Suc n) (h_seq h # seen) (map (wheel_entry now) hs)
      = Inr (map (staged_of now' d) (enumerate (Suc n) (map (rebased now) hs)))"
    using Cons.prems by (intro Cons.IH) auto
  have "rbind (py_item (wheel_entry now h) ''item_b64'') b64decode_val = Inr (h_item h)"
    "rbind (rbind (py_item (wheel_entry now h) ''priority'') py_float) finite_float = Inr (h_priority h)"
    by (simp_all add: wheel_entry_def)
  moreover have "staged_of now' d (n, rebased now h) =
      \<lparr>st_ready = restored_deadline now' d (rd (h_ready h - now)), st_deadline = rd (h_ready h - now), st_order = n,
       st_seq = Some (h_seq h), st_item = h_item h, st_priority = h_priority h\<rparr>"
    by (simp add: staged_of_def rebased_def)
  ultimately show ?case using time seq rest by simp
qed simp

lemma stage_key_staged: "stage_key (staged_of now' d ih) = (h_ready (snd ih), 0, h_seq (snd ih))"
  by (simp add: stage_key_def staged_of_def)

lemma inj_held_key: "distinct (map h_seq hs) \<Longrightarrow> inj_on held_key (set hs)"
  by (auto simp: inj_on_def held_key_def distinct_map)

lemma insort_key_map: "insort_key f (g x) (map g xs) = map g (insort_key (\<lambda>p. f (g p)) x xs)"
  by (induction xs) simp_all

lemma sort_key_map_key: "sort_key f (map g xs) = map g (sort_key (\<lambda>p. f (g p)) xs)"
  by (induction xs) (simp_all add: insort_key_map)

text \<open>Staging, sorting and placing release in the order of the rebased entries.\<close>

lemma sorted_staged:
  assumes "distinct (map h_seq hs)"
  shows "\<exists>ns. length ns = length hs \<and> sort_key stage_key (map (staged_of now' d) (enumerate n hs))
    = map (staged_of now' d) (zip ns (sort_key held_key hs))"
proof -
  let ?st = "map (staged_of now' d) (enumerate n hs)"
  let ?ps = "sort_key (\<lambda>p. stage_key (staged_of now' d p)) (enumerate n hs)"
  have map: "sort_key stage_key ?st = map (staged_of now' d) ?ps"
    by (rule sort_key_map_key)
  have "sorted (map held_key (map snd ?ps))"
    using sorted_sort_key [of "\<lambda>p. stage_key (staged_of now' d p)" "enumerate n hs"]
    by (simp add: sorted_map sorted_wrt_map stage_key_staged held_key_def less_eq_prod_def)
  moreover have "mset hs = mset (map snd ?ps)" by (metis map_snd_enumerate mset_map mset_sort)
  ultimately have "sort_key held_key hs = map snd ?ps"
    using inj_held_key [OF assms] by (intro sort_key_inj_key_eq) auto
  then have "?ps = zip (map fst ?ps) (sort_key held_key hs)" by (simp add: zip_map_fst_snd)
  with map show ?thesis by (intro exI [of _ "map fst ?ps"]) simp
qed

lemma placed_staged:
  assumes "length ns = length hs"
  shows "map (\<lambda>h. (h_ready h, h_item h, h_priority h)) (placed n (map (staged_of now' d) (zip ns hs)))
    = map (\<lambda>h. (restored_deadline now' d (h_ready h), h_item h, h_priority h)) hs"
  using assms
proof (induction hs arbitrary: n ns)
  case (Cons h hs)
  then obtain m ms where "ns = m # ms" "length ms = length hs" by (cases ns) auto
  with Cons.IH [of ms "Suc n"] show ?case by (simp add: staged_of_def)
qed simp

lemma placed_sorted:
  assumes "sorted (map st_ready es)"
  shows "sorted (map held_key (placed n es)) \<and> (\<forall>h \<in> set (placed n es). n \<le> h_seq h \<and> h_ready h \<in> set (map st_ready es))"
  using assms
proof (induction es arbitrary: n)
  case (Cons e es)
  then have ih: "sorted (map held_key (placed (Suc n) es))"
    "\<forall>h \<in> set (placed (Suc n) es). Suc n \<le> h_seq h \<and> h_ready h \<in> set (map st_ready es)" by simp_all
  have "\<forall>h \<in> set (placed (Suc n) es). (st_ready e, n) \<le> held_key h"
    using ih(2) Cons.prems by (fastforce simp: held_key_def less_eq_prod_def)
  moreover have "held_key \<lparr>h_ready = st_ready e, h_seq = n, h_item = st_item e, h_priority = st_priority e\<rparr> = (st_ready e, n)"
    by (simp add: held_key_def)
  ultimately show ?case using ih by auto
qed simp

lemma restored_bounds:
  assumes "0 \<le> d" "d \<le> 2 ^ 52" "0 \<le> now'" "now' \<le> 2 ^ 52" "\<bar>r\<bar> \<le> 2 ^ 52"
  shows "0 \<le> restored_deadline now' d r" "restored_deadline now' d r \<le> 2 ^ 53"
proof -
  let ?x = "now' + max 0 (rd (r - d))"
  have x: "0 \<le> ?x" "?x \<le> 2 ^ 53" using offset_bound [OF assms(1,2,5)] assms by auto
  then have "\<bar>rd ?x\<bar> \<le> 2 ^ 53" using rd_bound [of ?x 53] by simp
  then show "restored_deadline now' d r \<le> 2 ^ 53" by (simp add: restored_deadline_def)
  have "rd 0 \<le> rd ?x" using x by (intro rd_mono) simp_all
  then show "0 \<le> restored_deadline now' d r" by (simp add: restored_deadline_def rd_def)
qed

text \<open>The restored wheel, from the staged entries on.\<close>

lemma recover_staged:
  assumes wf0: "wheel_wf w0" and seqs: "distinct (map h_seq gs)"
    and bounds: "\<forall>g \<in> set gs. \<bar>h_ready g\<bar> \<le> 2 ^ 52" "0 \<le> d" "d \<le> 2 ^ 52" "0 \<le> now'" "now' \<le> 2 ^ 52"
    and scale: "\<forall>x. 0 \<le> x \<and> x \<le> 2 ^ 53 \<longrightarrow> (\<exists>y. fmul x (tw_tps w0) = Fin y)"
  obtains w' where "place_all now' (sort_key stage_key (map (staged_of now' d) (enumerate 0 gs))) ((wheel_emptied w0)\<lparr>tw_seq := 0\<rparr>) = Inr w'"
    "wheel_wf w'" "map (\<lambda>h. (h_ready h, h_item h, h_priority h)) (sort_key held_key (concat (tw_slots w') @ tw_overflow w'))
      = map (\<lambda>h. (restored_deadline now' d (h_ready h), h_item h, h_priority h)) (sort_key held_key gs)"
proof -
  let ?start = "(wheel_emptied w0)\<lparr>tw_seq := 0\<rparr>" and ?L = "sort_key held_key gs"
  obtain ns where ns: "length ns = length gs"
    "sort_key stage_key (map (staged_of now' d) (enumerate 0 gs)) = map (staged_of now' d) (zip ns ?L)"
    using sorted_staged [OF seqs] by blast
  let ?es = "map (staged_of now' d) (zip ns ?L)"
  have ready: "map st_ready ?es = map (\<lambda>h. restored_deadline now' d (h_ready h)) ?L"
  proof -
    have "map st_ready ?es = map (\<lambda>h. restored_deadline now' d (h_ready h)) (map snd (zip ns ?L))"
      by (simp add: staged_of_def comp_def)
    then show ?thesis using ns(1) by simp
  qed
  have start: "wheel_wf ?start" "wheel_held ?start = {#}" "tw_tps ?start = tw_tps w0"
    using wheel_emptied_wf [OF wf0] by (auto simp: wheel_wf_def wheel_emptied_def wheel_held_def slot_at_def)
  have "\<exists>t. release_tick (tw_tps ?start) x = Inr t" if "x \<in> set (map st_ready ?es)" for x
    using that restored_bounds [OF bounds(2-5)] bounds(1) scale start(3) unfolding ready
    by (fastforce simp: release_tick_def)
  then obtain w' where w': "place_all now' ?es ?start = Inr w'"
    using place_all_succeeds [of ?es ?start now'] by (metis image_eqI list.set_map)
  have facts: "wheel_wf w'" "wheel_held w' = mset (placed 0 ?es)"
    using place_all_facts [OF start(1) w'] start(2) by simp_all
  have "sorted (map h_ready ?L)"
    using sorted_map_fst [OF sorted_sort_key [of held_key gs]] by (simp add: held_key_def comp_def)
  then have "sorted (map st_ready ?es)"
    unfolding ready sorted_map
    by (rule sorted_wrt_mono_rel [rotated]) (use bounds in \<open>auto intro!: restored_deadline_mono\<close>)
  then have "sorted (map held_key (placed 0 ?es))" using placed_sorted by blast
  moreover have "mset (concat (tw_slots w') @ tw_overflow w') = mset (placed 0 ?es)"
    using facts(2) by (simp add: wheel_held_def)
  moreover have "inj_on held_key (set (concat (tw_slots w') @ tw_overflow w'))"
    using facts(1) by (intro inj_held_key) (simp add: wheel_wf_def)
  ultimately have "sort_key held_key (concat (tw_slots w') @ tw_overflow w') = placed 0 ?es"
    by (intro sort_key_inj_key_eq)
  with placed_staged [of ns ?L 0 now' d] ns w' facts(1) that show ?thesis by simp
qed

text \<open>
  Snapshot and restore: a snapshot of a wheel that holds something, restored into any
  well-formed wheel of any size and granularity (after any downtime), succeeds and yields a
  well-formed wheel. Its entries, in the order in which they will be released, are the snapshotted
  ones ordered by the time they had left at the snapshot and then by their sequence numbers, with
  the same items and priorities; the deadline of each is the restoring clock plus the time left
  less the downtime, never negative, in floating point. Times lie within $2^{52}$ seconds and the
  granularity scales them to finite doubles.
\<close>

lemma wheel_snapshot_restore:
  assumes wf: "wheel_wf w" and held: "wheel_held w \<noteq> {#}" and wf0: "wheel_wf w0"
    and snap: "read_clock clock s = (Inr now, s1)" "wall s1 = (PyFloat (Fin t), s2)"
    and rest: "read_clock clock' s3 = (Inr now', s4)" "wall' s4 = (PyFloat (Fin t'), s5)"
    and bounds: "\<forall>h \<in># wheel_held w. \<bar>h_ready h - now\<bar> \<le> 2 ^ 52" "\<bar>t' - t\<bar> \<le> 2 ^ 52" "0 \<le> now'" "now' \<le> 2 ^ 52"
    and scale: "\<forall>x. 0 \<le> x \<and> x \<le> 2 ^ 53 \<longrightarrow> (\<exists>y. fmul x (tw_tps w0) = Fin y)"
  obtains blob w' where "wheel_snapshot clock wall w s = (Inr (Some blob), s2)"
    "wheel_restore clock' wall' (Some blob) w0 s3 = (Inr (), w', s5)" "wheel_wf w'"
    "map (\<lambda>h. (h_ready h, h_item h, h_priority h)) (sort_key held_key (concat (tw_slots w') @ tw_overflow w'))
      = map (\<lambda>h. (restored_deadline now' (max 0 (rd (t' - t))) (h_ready h), h_item h, h_priority h))
          (sort_key held_key (map (rebased now) (concat (tw_slots w) @ tw_overflow w)))"
proof -
  let ?d = "max 0 (rd (t' - t))" and ?hs = "concat (tw_slots w) @ tw_overflow w"
  define blob where "blob = json_dumps (PyDict
      [(''version'', PyInt 2), (''strategy'', PyStr ''time_wheel''), (''snapshot_wall_time'', PyFloat (Fin t)),
       (''wheel_size'', PyInt (int (tw_size w))), (''slots_flat'', PyList (map (wheel_entry now) (concat (tw_slots w)))),
       (''overflow'', PyList (map (wheel_entry now) (tw_overflow w)))])"
  have d: "0 \<le> ?d" "?d \<le> 2 ^ 52" using rd_bound [OF bounds(2)] by simp_all
  have hs: "\<forall>h \<in> set ?hs. \<bar>h_ready h - now\<bar> \<le> 2 ^ 52" "distinct (map h_seq ?hs)"
    using bounds(1) wf by (auto simp: wheel_held_def wheel_wf_def)
  have snapshot: "wheel_snapshot clock wall w s = (Inr (Some blob), s2)"
    using snap held by (auto simp: wheel_snapshot_def blob_def wheel_held_def)
  have staged: "stage_entries True now' (Fin ?d) 0 [] (map (wheel_entry now) ?hs)
      = Inr (map (staged_of now' ?d) (enumerate 0 (map (rebased now) ?hs)))"
    using stage_snapshot [OF hs(1) d bounds(3,4) hs(2), of "[]" 0] by simp
  have "distinct (map h_seq (map (rebased now) ?hs))" using hs(2) by (simp add: rebased_def comp_def)
  moreover have "\<forall>g \<in> set (map (rebased now) ?hs). \<bar>h_ready g\<bar> \<le> 2 ^ 52"
  proof
    fix g
    assume "g \<in> set (map (rebased now) ?hs)"
    then obtain h where h: "h \<in> set ?hs" "g = rebased now h" by (metis imageE list.set_map)
    from rd_bound [OF hs(1) [rule_format, OF h(1)]] show "\<bar>h_ready g\<bar> \<le> 2 ^ 52" by (simp add: h(2) rebased_def)
  qed
  ultimately obtain w' where w': "place_all now' (sort_key stage_key (map (staged_of now' ?d) (enumerate 0 (map (rebased now) ?hs))))
        ((wheel_emptied w0)\<lparr>tw_seq := 0\<rparr>) = Inr w'" "wheel_wf w'"
    "map (\<lambda>h. (h_ready h, h_item h, h_priority h)) (sort_key held_key (concat (tw_slots w') @ tw_overflow w'))
      = map (\<lambda>h. (restored_deadline now' ?d (h_ready h), h_item h, h_priority h)) (sort_key held_key (map (rebased now) ?hs))"
    using recover_staged [OF wf0 _ _ d bounds(3,4) scale, of "map (rebased now) ?hs"] by blast
  obtain tick where tick: "tick_at (tw_tps w0) now' = Inr tick"
    using scale bounds(3,4) by (fastforce simp: tick_at_def)
  have gap: "nonneg_gap t' t = Fin ?d"
    using round_double_rd [of "t' - t"] bounds(2) by (simp add: nonneg_gap_def fsub_def fmax_zero_Fin)
  have header: "wheel_header blob = Inr (True, PyDict
      [(''version'', PyInt 2), (''strategy'', PyStr ''time_wheel''), (''snapshot_wall_time'', PyFloat (Fin t)),
       (''wheel_size'', PyInt (int (tw_size w))), (''slots_flat'', PyList (map (wheel_entry now) (concat (tw_slots w)))),
       (''overflow'', PyList (map (wheel_entry now) (tw_overflow w)))], map (wheel_entry now) ?hs)"
    by (simp add: wheel_header_def blob_def)
  have "wheel_restore clock' wall' (Some blob) w0 s3 = (Inr (), w'\<lparr>tw_last_tick := tick\<rparr>, s5)"
    using rest staged w'(1) tick by (simp add: wheel_restore_def wheel_recover_def header downtime_of_def gap)
  from that [OF snapshot this] w'(2,3) show ?thesis by (simp add: wheel_wf_tick)
qed

lemma settle_keeps_time:
  assumes "\<And>x p. keeps_time t (qb_push B q x p)" and "settle B q c w removed s = (r, w', removed', s')"
  shows "t s \<le> t s'"
proof -
  have "t s \<le> t s1" if "qb_push B q x p s = (r1, s1)" for x p r1 s1
    using assms(1) that by (metis keeps_time_def snd_conv)
  then show ?thesis using assms(2)
    by (cases c) (auto simp: Let_def split: if_splits prod.splits sum.splits)
qed

lemma settle_all_keeps_time:
  assumes "\<And>x p. keeps_time t (qb_push B q x p)" and "settle_all B q cs w removed s = (r, w', s')"
  shows "t s \<le> t s'"
  using assms(2)
proof (induction cs arbitrary: w removed s)
  case (Cons c cs)
  obtain r1 w1 removed1 s1 where c: "settle B q c w removed s = (r1, w1, removed1, s1)" using prod_cases4 by blast
  have "t s \<le> t s1" using settle_keeps_time [OF assms(1) c] .
  with c Cons show ?case by (cases r1) (auto intro: order_trans)
qed simp

text \<open>
  The pop loop of the time wheel ends under the same conditions as the one of the delay
  strategy: a monotone clock of finite doubles and backend calls that do not turn the time back.
\<close>

lemma wheel_pop_returns:
  assumes "monotone_clock clock t" and "\<And>x p. keeps_time t (qb_push B q x p)"
    and "\<And>w. keeps_time t (qb_pop B q w)"
  shows "\<exists>out. wheel_pop B clock q timeout w s = Some out"
proof -
  have "\<forall>h s. t s \<le> t (snd (snd (wheel_drain_ready B clock q h s)))"
  proof (intro allI)
    fix h :: wheel and s
    obtain x s1 where x: "read_clock clock s = (Inr x, s1)" "t s \<le> x" "x \<le> t s1"
      using read_clock_monotone [OF assms(1)] by blast
    then have "t s \<le> t s1" by simp
    with x settle_all_keeps_time [OF assms(2)] show "t s \<le> t (snd (snd (wheel_drain_ready B clock q h s)))"
      by (force simp: wheel_drain_ready_def wheel_drain_at_def split: sum.splits prod.splits)
  qed
  from pop_loop_returns [OF assms(1) this assms(3)] show ?thesis
    unfolding wheel_pop_def wheel_pop_until_deadline_def
    by (auto split: sum.splits prod.splits)
qed

end
