(* ===== verification/Strategy_Factory.thy ===== *)
theory Strategy_Factory
  imports Ring_Buffer Round_Robin Priority_Strategy Work_Stealing Delay_Queue Time_Wheel
begin

text \<open>
  The selection of a queue strategy, \<open>queue/strategies/factory.py\<close>: the setting's value names the
  strategy, and the factory hands each constructor the options that belong to it. The result is the
  object the scheduler's queue works with, one constructor per strategy class.
\<close>

section \<open>Selection\<close>

datatype queue_strategy_type =
  PASSTHROUGH | DELAY | ROUND_ROBIN | THROTTLE | PRIORITY | TIME_WHEEL | WORK_STEALING | RING_BUFFER

definition queue_strategy_names :: "(string \<times> queue_strategy_type) list" where
  "queue_strategy_names =
     [(''passthrough'', PASSTHROUGH), (''delay'', DELAY), (''round_robin'', ROUND_ROBIN), (''throttle'', THROTTLE),
      (''priority'', PRIORITY), (''time_wheel'', TIME_WHEEL), (''work_stealing'', WORK_STEALING),
      (''ring_buffer'', RING_BUFFER)]"

definition queue_strategy_type_of :: "string \<Rightarrow> queue_strategy_type result" where
  "queue_strategy_type_of v =
     (case map_of queue_strategy_names v of None \<Rightarrow> Inl ValueError | Some t \<Rightarrow> Inr t)"

datatype queue_strategy =
    Passthrough
  | Delay delayq
  | RoundRobin rr
  | Throttle throttle
  | Priority prio
  | TimeWheel wheel
  | WorkStealing ws
  | RingBuffer ring

record strategy_options =
  so_default_delay :: pyval
  so_min_interval :: pyval
  so_max_held :: pyval
  so_priority_levels :: pyval
  so_wheel_size :: pyval
  so_ticks_per_second :: pyval
  so_worker_id :: pyval
  so_peer_ids :: "pyval list"
  so_steal_timeout :: pyval
  so_capacity :: pyval
  so_full_policy :: pyval
  so_name_generation :: pyval

definition strategy_defaults :: strategy_options where
  "strategy_defaults = \<lparr>so_default_delay = PyFloat (Fin 0), so_min_interval = PyFloat (Fin 0), so_max_held = PyNone,
     so_priority_levels = PyInt 3, so_wheel_size = PyInt 60, so_ticks_per_second = PyFloat (Fin 1),
     so_worker_id = PyNone, so_peer_ids = [], so_steal_timeout = PyFloat (Fin (3602879701896397 / 2 ^ 56)),
     so_capacity = PyInt 1024, so_full_policy = PyStr ''reject'', so_name_generation = PyStr ''v2''\<rparr>"

text \<open>The default of \<open>max_held\<close> in the delay strategy's constructor.\<close>

definition default_max_held :: int where
  "default_max_held = 100000"

text \<open>
  \<open>clock\<close> is the wall clock the wheel reads when it is constructed, \<open>fresh_id\<close> the generated worker
  id, \<open>backend_type\<close> the connection manager's.
\<close>

definition build_queue_strategy ::
  "('s \<Rightarrow> pyval \<times> 's) \<Rightarrow> string \<Rightarrow> pyval \<Rightarrow> queue_strategy_type \<Rightarrow> strategy_options \<Rightarrow> 's \<Rightarrow> (queue_strategy, 's) outcome" where
  "build_queue_strategy clock fresh_id backend_type st opts s =
     (case st of
        PASSTHROUGH \<Rightarrow> (Inr Passthrough, s)
      | DELAY \<Rightarrow> (rbind (delay_init (so_default_delay opts)
            (if so_max_held opts = PyNone then PyInt default_max_held else so_max_held opts)) (\<lambda>x. Inr (Delay x)), s)
      | ROUND_ROBIN \<Rightarrow> (Inr (RoundRobin rr_init), s)
      | THROTTLE \<Rightarrow> (rbind (throttle_init (so_min_interval opts)) (\<lambda>x. Inr (Throttle x)), s)
      | PRIORITY \<Rightarrow> (rbind (prio_init backend_type (so_priority_levels opts) (so_name_generation opts)) (\<lambda>x. Inr (Priority x)), s)
      | TIME_WHEEL \<Rightarrow> (case wheel_init clock (so_wheel_size opts) (so_ticks_per_second opts) (so_default_delay opts) s of
            (r, s') \<Rightarrow> (rbind r (\<lambda>x. Inr (TimeWheel x)), s'))
      | WORK_STEALING \<Rightarrow> (rbind (ws_init fresh_id backend_type (so_worker_id opts) (so_peer_ids opts)
            (so_steal_timeout opts) (so_name_generation opts)) (\<lambda>x. Inr (WorkStealing x)), s)
      | RING_BUFFER \<Rightarrow> (rbind (ring_init (so_capacity opts) (so_full_policy opts)) (\<lambda>x. Inr (RingBuffer x)), s))"

section \<open>Every strategy starts well-formed and empty\<close>

fun strategy_type :: "queue_strategy \<Rightarrow> queue_strategy_type" where
  "strategy_type Passthrough = PASSTHROUGH"
| "strategy_type (Delay _) = DELAY"
| "strategy_type (RoundRobin _) = ROUND_ROBIN"
| "strategy_type (Throttle _) = THROTTLE"
| "strategy_type (Priority _) = PRIORITY"
| "strategy_type (TimeWheel _) = TIME_WHEEL"
| "strategy_type (WorkStealing _) = WORK_STEALING"
| "strategy_type (RingBuffer _) = RING_BUFFER"

text \<open>The items a strategy keeps in the process, outside the backend.\<close>

fun local_items :: "queue_strategy \<Rightarrow> bytes multiset" where
  "local_items (Delay dq) = image_mset h_item (mset (dq_holding dq))"
| "local_items (RoundRobin r) = mset (concat (map snd (rr_sources r)))"
| "local_items (TimeWheel w) = image_mset h_item (wheel_held w)"
| "local_items (RingBuffer r) = mset (rb_buffer r)"
| "local_items _ = {#}"

fun strategy_wf :: "queue_strategy \<Rightarrow> bool" where
  "strategy_wf (Delay dq) \<longleftrightarrow> delay_wf dq"
| "strategy_wf (RoundRobin r) \<longleftrightarrow> sources_wf (rr_sources r)"
| "strategy_wf (Throttle th) \<longleftrightarrow> 0 \<le> th_min_interval th \<and> th_min_interval th \<le> throttle_max_min_interval"
| "strategy_wf (Priority p) \<longleftrightarrow> 1 \<le> pr_levels p \<and> pr_levels p \<le> 256"
| "strategy_wf (TimeWheel w) \<longleftrightarrow> wheel_wf w"
| "strategy_wf (WorkStealing w) \<longleftrightarrow> ws_worker_id w \<notin> set (ws_peer_ids w) \<and> distinct (ws_peer_ids w)"
| "strategy_wf (RingBuffer r) \<longleftrightarrow> ring_wf r"
| "strategy_wf Passthrough \<longleftrightarrow> True"

lemma wheel_init_empty: "wheel_init clock n tps d s = (Inr w, s') \<Longrightarrow> wheel_held w = {#}"
  by (auto simp: wheel_init_def wheel_held_def rbind_eq_Inr_iff split: pyval.splits if_splits sum.splits prod.splits)

lemma delay_init_ok: "delay_init d m = Inr dq \<Longrightarrow> delay_wf dq \<and> dq_holding dq = []"
  by (cases m) (auto simp: delay_init_def delay_wf_def heap_ok_def rbind_eq_Inr_iff split: if_splits)

text \<open>
  C27. Whatever options are given, a strategy the factory returns is of the selected kind, satisfies
  the invariant on which that strategy's theorems rest, and holds no item yet.
\<close>

theorem built_strategy_ready:
  assumes "build_queue_strategy clock fresh bt st opts s = (Inr x, s')"
  shows "strategy_type x = st \<and> strategy_wf x \<and> local_items x = {#}"
proof (cases st)
  case TIME_WHEEL
  then obtain w where w: "wheel_init clock (so_wheel_size opts) (so_ticks_per_second opts) (so_default_delay opts) s = (Inr w, s')"
    and x: "x = TimeWheel w"
    using assms by (auto simp: build_queue_strategy_def rbind_eq_Inr_iff split: prod.splits)
  with wheel_init_wf [OF w] wheel_init_empty [OF w] show ?thesis by (simp add: TIME_WHEEL)
next
  case WORK_STEALING
  then obtain w where "ws_init fresh bt (so_worker_id opts) (so_peer_ids opts) (so_steal_timeout opts)
      (so_name_generation opts) = Inr w" and x: "x = WorkStealing w"
    using assms by (auto simp: build_queue_strategy_def rbind_eq_Inr_iff)
  with ws_init_ok show ?thesis by (simp add: WORK_STEALING)
next
  case RING_BUFFER
  then obtain r where r: "ring_init (so_capacity opts) (so_full_policy opts) = Inr r" "x = RingBuffer r"
    using assms by (auto simp: build_queue_strategy_def rbind_eq_Inr_iff)
  then have "rb_buffer r = []" by (auto simp: ring_init_def split: pyval.splits option.splits if_splits)
  with r ring_init_wf show ?thesis by (simp add: RING_BUFFER)
next
  case DELAY
  then obtain m dq where "delay_init (so_default_delay opts) m = Inr dq" and x: "x = Delay dq"
    using assms by (auto simp: build_queue_strategy_def rbind_eq_Inr_iff)
  with delay_init_ok show ?thesis by (auto simp: DELAY)
next
  case PRIORITY
  with assms show ?thesis
    by (auto simp: build_queue_strategy_def rbind_eq_Inr_iff prio_init_def max_priority_levels_def
        split: pyval.splits if_splits)
next
  case THROTTLE
  with assms show ?thesis
    by (auto simp: build_queue_strategy_def rbind_eq_Inr_iff throttle_init_def split: if_splits)
qed (use assms in \<open>auto simp: build_queue_strategy_def rr_init_def sources_wf_def\<close>)

theorem built_strategy_ready_witness:
  "\<exists>r. build_queue_strategy (Pair (PyFloat (Fin 0))) ''w'' (PyStr ''redis'') RING_BUFFER strategy_defaults () = (Inr (RingBuffer r), ())
     \<and> ring_wf r"
proof -
  obtain r where r: "build_queue_strategy (Pair (PyFloat (Fin 0))) ''w'' (PyStr ''redis'') RING_BUFFER strategy_defaults ()
      = (Inr (RingBuffer r), ())"
    by (simp add: build_queue_strategy_def strategy_defaults_def ring_init_def)
  from built_strategy_ready [OF r] r show ?thesis by auto
qed

end
