(* ===== verification/Filter_Spec.thy ===== *)
theory Filter_Spec
  imports Prelude
begin

text \<open>
  The contract of a membership filter, \<open>dupefilter/filters/base.py\<close>: \<open>add\<close> records an item and
  says whether it was new, \<open>contains\<close> asks without recording, and an item that was recorded is
  never denied afterwards. Both operations may raise; what was recorded before survives that.

  The locale states the laws; what a crawl relies on, that no request is let through twice, is
  proved once for every sequence of calls and holds for each filter that is interpreted below.
\<close>

datatype fop = Add bytes | Ask bytes

text \<open>Run a sequence of calls, collecting the items whose \<open>add\<close> returned.\<close>

fun run_filter ::
  "(bytes \<Rightarrow> 'f \<Rightarrow> (bool, 'f) outcome) \<Rightarrow> (bytes \<Rightarrow> 'f \<Rightarrow> (bool, 'f) outcome) \<Rightarrow> fop list \<Rightarrow> 'f
    \<Rightarrow> bytes list \<times> 'f" where
  "run_filter add contains [] f = ([], f)"
| "run_filter add contains (Add x # ops) f =
     (case add x f of
        (Inl e, f') \<Rightarrow> run_filter add contains ops f'
      | (Inr b, f') \<Rightarrow> (case run_filter add contains ops f' of (xs, g) \<Rightarrow> (x # xs, g)))"
| "run_filter add contains (Ask x # ops) f =
     (case contains x f of (_, f') \<Rightarrow> run_filter add contains ops f')"

locale membership_filter =
  fixes add :: "bytes \<Rightarrow> 'f \<Rightarrow> (bool, 'f) outcome"
    and contains :: "bytes \<Rightarrow> 'f \<Rightarrow> (bool, 'f) outcome"
    and reports :: "bytes \<Rightarrow> 'f \<Rightarrow> bool"
    and wf :: "'f \<Rightarrow> bool"
  assumes reports_contains: "wf f \<Longrightarrow> reports x f \<longleftrightarrow> fst (contains x f) = Inr True"
    and add_ok: "wf f \<Longrightarrow> add x f = (Inr b, f') \<Longrightarrow> reports x f' \<and> (b \<longleftrightarrow> \<not> reports x f)"
    and add_keeps: "wf f \<Longrightarrow> add x f = (r, f') \<Longrightarrow> wf f' \<and> (\<forall>y. reports y f \<longrightarrow> reports y f')"
    and contains_keeps: "wf f \<Longrightarrow> contains x f = (r, f') \<Longrightarrow> wf f' \<and> (\<forall>y. reports y f \<longrightarrow> reports y f')"
begin

lemma run_keeps:
  assumes "wf f" and "run_filter add contains ops f = (xs, g)"
  shows "wf g \<and> (\<forall>y. reports y f \<longrightarrow> reports y g) \<and> (\<forall>x \<in> set xs. reports x g)"
  using assms
proof (induction ops arbitrary: f xs)
  case (Cons op ops)
  show ?case
  proof (cases op)
    case (Add x)
    obtain r f' where a: "add x f = (r, f')" by fastforce
    note keep = add_keeps [OF Cons.prems(1) a]
    show ?thesis
    proof (cases r)
      case (Inl e)
      with Add a keep Cons.IH Cons.prems(2) show ?thesis by auto
    next
      case (Inr b)
      then obtain ys where ys: "run_filter add contains ops f' = (ys, g)" "xs = x # ys"
        using Add a Cons.prems(2) by (auto split: prod.splits)
      with Cons.IH [of f' ys] keep add_ok [OF Cons.prems(1)] a Inr show ?thesis by auto
    qed
  next
    case (Ask x)
    obtain r f' where a: "contains x f = (r, f')" by fastforce
    with Ask contains_keeps [OF Cons.prems(1) a] Cons show ?thesis by auto
  qed
qed simp

text \<open>No false negatives: whatever was recorded is found, and adding it again says "duplicate".\<close>

lemma no_false_negatives:
  assumes "wf f" and "run_filter add contains ops f = (xs, g)" and "x \<in> set xs"
  shows "fst (contains x g) = Inr True \<and> (\<forall>b g'. add x g = (Inr b, g') \<longrightarrow> \<not> b)"
proof -
  have "wf g" "reports x g" using run_keeps [OF assms(1,2)] assms(3) by auto
  then show ?thesis using reports_contains add_ok by blast
qed

end

end
