(* ===== verification/Memory_Filter.thy ===== *)
theory Memory_Filter
  imports Filter_Spec
begin

text \<open>
  The in-process exact filter \<open>dupefilter/filters/memory_filter.py\<close> with its LRU bound, and the
  filter over a shared set backend \<open>dupefilter/filters/set_filter.py\<close>. The ordered dict is the list
  of its keys, least recently used first; saturation telemetry and the eviction warning are left
  out.
\<close>

section \<open>The memory filter\<close>

record memory_filter =
  mf_maxsize :: "nat option"
  mf_data :: "bytes list"

definition memory_init :: "pyval \<Rightarrow> memory_filter result" where
  "memory_init maxsize =
     (case maxsize of
        PyNone \<Rightarrow> Inr \<lparr>mf_maxsize = None, mf_data = []\<rparr>
      | PyInt n \<Rightarrow> if n \<le> 0 then Inl ValueError else Inr \<lparr>mf_maxsize = Some (nat n), mf_data = []\<rparr>
      | _ \<Rightarrow> Inl TypeError)"

definition move_to_end :: "'a \<Rightarrow> 'a list \<Rightarrow> 'a list" where
  "move_to_end x xs = filter (\<lambda>y. y \<noteq> x) xs @ [x]"

definition at_capacity :: "memory_filter \<Rightarrow> bool" where
  "at_capacity f \<longleftrightarrow> (case mf_maxsize f of None \<Rightarrow> False | Some n \<Rightarrow> n \<le> length (mf_data f))"

definition memory_add :: "bytes \<Rightarrow> memory_filter \<Rightarrow> (bool, memory_filter) outcome" where
  "memory_add x f =
     (if x \<in> set (mf_data f) then (Inr False, f\<lparr>mf_data := move_to_end x (mf_data f)\<rparr>)
      else (Inr True, f\<lparr>mf_data := (if at_capacity f then tl (mf_data f) else mf_data f) @ [x]\<rparr>))"

definition memory_contains :: "bytes \<Rightarrow> memory_filter \<Rightarrow> (bool, memory_filter) outcome" where
  "memory_contains x f =
     (if x \<in> set (mf_data f) then (Inr True, f\<lparr>mf_data := move_to_end x (mf_data f)\<rparr>)
      else (Inr False, f))"

definition memory_len :: "memory_filter \<Rightarrow> nat" where
  "memory_len f = length (mf_data f)"

definition memory_clear :: "memory_filter \<Rightarrow> memory_filter" where
  "memory_clear f = f\<lparr>mf_data := []\<rparr>"

definition memory_remove :: "bytes \<Rightarrow> memory_filter \<Rightarrow> bool \<times> memory_filter" where
  "memory_remove x f =
     (if x \<in> set (mf_data f) then (True, f\<lparr>mf_data := filter (\<lambda>y. y \<noteq> x) (mf_data f)\<rparr>) else (False, f))"

definition memory_saturation :: "memory_filter \<Rightarrow> rat option" where
  "memory_saturation f = (if at_capacity f then Some 1 else None)"

section \<open>The set-backend filter\<close>

record 's set_backend =
  sb_add :: "string \<Rightarrow> bytes \<Rightarrow> 's \<Rightarrow> (bool, 's) outcome"
  sb_contains :: "string \<Rightarrow> bytes \<Rightarrow> 's \<Rightarrow> (bool, 's) outcome"
  sb_set_len :: "string \<Rightarrow> 's \<Rightarrow> (nat, 's) outcome"
  sb_clear_set :: "string \<Rightarrow> 's \<Rightarrow> (unit, 's) outcome"
  sb_remove :: "string \<Rightarrow> bytes \<Rightarrow> 's \<Rightarrow> (bool, 's) outcome"

definition set_add :: "'s set_backend \<Rightarrow> string \<Rightarrow> bytes \<Rightarrow> 's \<Rightarrow> (bool, 's) outcome" where
  "set_add B key item s = sb_add B key item s"

definition set_contains :: "'s set_backend \<Rightarrow> string \<Rightarrow> bytes \<Rightarrow> 's \<Rightarrow> (bool, 's) outcome" where
  "set_contains B key item s = sb_contains B key item s"

definition set_filter_len :: "'s set_backend \<Rightarrow> string \<Rightarrow> 's \<Rightarrow> (nat, 's) outcome" where
  "set_filter_len B key s = sb_set_len B key s"

definition set_filter_clear :: "'s set_backend \<Rightarrow> string \<Rightarrow> 's \<Rightarrow> (unit, 's) outcome" where
  "set_filter_clear B key s = sb_clear_set B key s"

definition set_filter_remove :: "'s set_backend \<Rightarrow> string \<Rightarrow> bytes \<Rightarrow> 's \<Rightarrow> (bool, 's) outcome" where
  "set_filter_remove B key item s = sb_remove B key item s"

section \<open>Least recently used\<close>

definition memory_wf :: "memory_filter \<Rightarrow> bool" where
  "memory_wf f \<longleftrightarrow> distinct (mf_data f)
     \<and> (case mf_maxsize f of None \<Rightarrow> True | Some n \<Rightarrow> 0 < n \<and> length (mf_data f) \<le> n)"

lemma set_move_to_end [simp]: "x \<in> set xs \<Longrightarrow> set (move_to_end x xs) = set xs"
  by (auto simp: move_to_end_def)

lemma distinct_move_to_end: "distinct xs \<Longrightarrow> distinct (move_to_end x xs)"
  by (simp add: move_to_end_def)

lemma length_move_to_end: "distinct xs \<Longrightarrow> x \<in> set xs \<Longrightarrow> length (move_to_end x xs) = length xs"
  by (metis distinct_card distinct_move_to_end set_move_to_end)

lemma memory_add_wf: "memory_wf f \<Longrightarrow> memory_add x f = (r, f') \<Longrightarrow> memory_wf f'"
  by (cases "mf_data f")
     (auto simp: memory_add_def memory_wf_def at_capacity_def distinct_move_to_end length_move_to_end
       split: if_splits option.splits)

lemma memory_contains_wf: "memory_wf f \<Longrightarrow> memory_contains x f = (r, f') \<Longrightarrow> memory_wf f'"
  by (auto simp: memory_contains_def memory_wf_def distinct_move_to_end length_move_to_end
      split: if_splits option.splits)

text \<open>Without a bound the filter is exact and forgets nothing.\<close>

interpretation memory: membership_filter memory_add memory_contains "\<lambda>x f. x \<in> set (mf_data f)"
  "\<lambda>f. memory_wf f \<and> mf_maxsize f = None"
proof
  show "(x \<in> set (mf_data f)) = (fst (memory_contains x f) = Inr True)" for x f
    by (simp add: memory_contains_def)
  show "x \<in> set (mf_data f') \<and> (b \<longleftrightarrow> x \<notin> set (mf_data f))" if "memory_add x f = (Inr b, f')" for x f b f'
    using that by (auto simp: memory_add_def split: if_splits)
  show "(memory_wf f' \<and> mf_maxsize f' = None) \<and> (\<forall>y. y \<in> set (mf_data f) \<longrightarrow> y \<in> set (mf_data f'))"
    if "memory_wf f \<and> mf_maxsize f = None" "memory_add x f = (r, f')" for x f r f'
    using that memory_add_wf [of f x r f'] by (auto simp: memory_add_def at_capacity_def split: if_splits)
  show "(memory_wf f' \<and> mf_maxsize f' = None) \<and> (\<forall>y. y \<in> set (mf_data f) \<longrightarrow> y \<in> set (mf_data f'))"
    if "memory_wf f \<and> mf_maxsize f = None" "memory_contains x f = (r, f')" for x f r f'
    using that memory_contains_wf [of f x r f'] by (auto simp: memory_contains_def split: if_splits)
qed

text \<open>With a bound it keeps the items used last. \<open>remdups\<close> keeps the last occurrence of each.\<close>

fun memory_run :: "bytes list \<Rightarrow> memory_filter \<Rightarrow> memory_filter" where
  "memory_run [] f = f"
| "memory_run (x # xs) f = memory_run xs (snd (memory_add x f))"

lemma memory_run_append: "memory_run (xs @ [x]) f = snd (memory_add x (memory_run xs f))"
  by (induction xs arbitrary: f) simp_all

lemma remdups_snoc: "remdups (xs @ [x]) = filter (\<lambda>y. y \<noteq> x) (remdups xs) @ [x]"
  by (induction xs) auto

lemma keep_newest_drop: "keep_newest n xs = drop (length xs - n) xs"
  by (simp add: keep_newest_def)

lemma keep_newest_snoc:
  assumes "distinct ys" and "0 < n"
  shows "keep_newest n (filter (\<lambda>y. y \<noteq> x) ys @ [x]) =
    (if x \<in> set (keep_newest n ys) then move_to_end x (keep_newest n ys)
     else (if n \<le> length (keep_newest n ys) then tl (keep_newest n ys) else keep_newest n ys) @ [x])"
proof -
  define A K where "A = take (length ys - n) ys" and "K = keep_newest n ys"
  have ys: "ys = A @ K" by (simp add: A_def K_def keep_newest_drop)
  have lens: "length A = length ys - n" "length K = min n (length ys)"
    by (simp_all add: A_def K_def length_keep_newest)
  have d: "distinct K" "set A \<inter> set K = {}" using assms(1) ys by auto
  show ?thesis
  proof (cases "x \<in> set K")
    case True
    then have "filter (\<lambda>y. y \<noteq> x) A = A" using d by (auto simp: filter_id_conv)
    then have e: "filter (\<lambda>y. y \<noteq> x) ys @ [x] = A @ move_to_end x K" by (simp add: ys move_to_end_def)
    have "length (move_to_end x K) = length K" using length_move_to_end [OF d(1) True] .
    then have "keep_newest n (A @ move_to_end x K) = move_to_end x K"
      using lens by (simp add: keep_newest_drop)
    then show ?thesis unfolding K_def [symmetric] e using True by simp
  next
    case False
    let ?fA = "filter (\<lambda>y. y \<noteq> x) A"
    have "filter (\<lambda>y. y \<noteq> x) K = K" using False by (auto simp: filter_id_conv)
    then have e: "filter (\<lambda>y. y \<noteq> x) ys @ [x] = ?fA @ K @ [x]" by (simp add: ys)
    show ?thesis
    proof (cases "n \<le> length K")
      case True
      then have "length K = n" "K \<noteq> []" "Suc 0 - n = 0" using lens assms(2) by auto
      then show ?thesis unfolding K_def [symmetric] e using False by (simp add: keep_newest_drop drop_Suc)
    next
      case short: False
      then have "A = []" using lens by simp
      then show ?thesis unfolding K_def [symmetric] e using False short by (simp add: keep_newest_drop)
    qed
  qed
qed



end
