(* ===== verification/Bloom_Filter.thy ===== *)
theory Bloom_Filter
  imports Filter_Spec Physical_Names
begin

unbundle bit_operations_syntax

text \<open>
  The Bloom filter \<open>dupefilter/filters/bloom_filter.py\<close>: sizing by a binary search per hash count,
  unbiased index derivation by rejection, Floyd's sampling of \<open>k\<close> distinct bit positions, and the
  bit vector as a byte array.

  SHA-256 is the parameter \<open>sha\<close>. The false-positive bound is computed with \<open>math.log1p\<close>,
  \<open>math.expm1\<close> and \<open>math.log\<close>, whose rounding the platform decides; the comparison of the bound
  with the logarithm of the error rate is the parameter \<open>fits\<close> of the sizing.
\<close>

section \<open>Sizing\<close>

definition max_hashes :: nat where
  "max_hashes = 64"

definition max_filter_bytes :: nat where
  "max_filter_bytes = 128 * 1024 * 1024"

text \<open>\<open>fits n m k\<close>: the bound for \<open>n\<close> items, \<open>m\<close> bits and \<open>k\<close> hashes is within the error rate.\<close>

function bisect_bits :: "(nat \<Rightarrow> bool) \<Rightarrow> nat \<Rightarrow> nat \<Rightarrow> nat" where
  "bisect_bits ok lower upper =
     (if lower < upper then
        (let midpoint = (lower + upper) div 2 in
         if ok midpoint then bisect_bits ok lower midpoint else bisect_bits ok (Suc midpoint) upper)
      else lower)"
  by pat_completeness auto
termination
  by (relation "measure (\<lambda>(ok, lower, upper). upper - lower)") auto

declare bisect_bits.simps [simp del]

definition minimum_num_bits :: "(nat \<Rightarrow> nat \<Rightarrow> nat \<Rightarrow> bool) \<Rightarrow> nat \<Rightarrow> nat \<Rightarrow> nat \<Rightarrow> nat" where
  "minimum_num_bits fits capacity k max_bits =
     (if max_bits \<le> k then max_bits + 1
      else if max_hashes * max_bits < capacity then max_bits + 1
      else if \<not> fits capacity max_bits k then max_bits + 1
      else bisect_bits (\<lambda>m. fits capacity m k) (k + 1) max_bits)"

fun min_sizing :: "(nat \<times> nat) \<Rightarrow> (nat \<times> nat) \<Rightarrow> nat \<times> nat" where
  "min_sizing (m, k) (m', k') = (if m' < m \<or> m' = m \<and> k' < k then (m', k') else (m, k))"

definition select_sizing :: "(nat \<Rightarrow> nat \<Rightarrow> nat \<Rightarrow> bool) \<Rightarrow> nat \<Rightarrow> nat \<Rightarrow> nat \<times> nat" where
  "select_sizing fits capacity max_bits =
     foldl (\<lambda>best k. min_sizing best (minimum_num_bits fits capacity k max_bits, k))
       (max_bits + 1, 1) [1..<max_hashes + 1]"

record bloom =
  bl_num_bits :: nat
  bl_num_hashes :: nat
  bl_bits :: bytes
  bl_count :: nat
  bl_capacity :: nat

definition check_allocation :: "nat \<Rightarrow> unit result" where
  "check_allocation num_bits = (if max_filter_bytes < (num_bits + 7) div 8 then Inl ValueError else Inr ())"

definition bloom_init :: "(rat \<Rightarrow> nat \<Rightarrow> nat \<Rightarrow> nat \<Rightarrow> bool) \<Rightarrow> pyval \<Rightarrow> pyval \<Rightarrow> bloom result" where
  "bloom_init fits capacity error_rate =
     (case capacity of
        PyInt n \<Rightarrow>
          (if n \<le> 0 then Inl ValueError
           else case error_rate of
             PyFloat (Fin p) \<Rightarrow>
               (if p \<le> 0 \<or> 1 \<le> p then Inl ValueError
                else case select_sizing (fits p) (nat n) (max_filter_bytes * 8) of
                  (m, k) \<Rightarrow> rbind (check_allocation m) (\<lambda>_.
                    Inr \<lparr>bl_num_bits = m, bl_num_hashes = k, bl_bits = replicate ((m + 7) div 8) 0,
                         bl_count = 0, bl_capacity = nat n\<rparr>))
           | PyFloat _ \<Rightarrow> Inl ValueError
           | _ \<Rightarrow> Inl TypeError)
      | _ \<Rightarrow> Inl TypeError)"

section \<open>Positions\<close>

definition bytes_to_nat :: "bytes \<Rightarrow> nat" where
  "bytes_to_nat bs = foldl (\<lambda>n b. 256 * n + unat b) 0 bs"

definition hash_domain :: bytes where
  "hash_domain = utf8_encode ''scrapy-extension:bloom:v1'' @ [0]"

text \<open>The largest multiple of the bound that a 256-bit sample can stay below.\<close>

definition sample_limit :: "nat \<Rightarrow> nat" where
  "sample_limit upper_bound = 2 ^ 256 - 2 ^ 256 mod upper_bound"

definition bloom_sample :: "(bytes \<Rightarrow> bytes) \<Rightarrow> bytes \<Rightarrow> nat \<Rightarrow> nat \<Rightarrow> nat" where
  "bloom_sample sha item hash_index attempt =
     bytes_to_nat (sha (hash_domain @ be_bytes 1 hash_index @ be_bytes 4 attempt @ item))"

text \<open>
  \<open>_uniform_index\<close>: retry with the next attempt number until a sample is below the limit; the
  attempt number is encoded in four bytes, and \<open>to_bytes\<close> raises when it no longer fits.
\<close>

function uniform_index :: "(bytes \<Rightarrow> bytes) \<Rightarrow> bytes \<Rightarrow> nat \<Rightarrow> nat \<Rightarrow> nat \<Rightarrow> nat result" where
  "uniform_index sha item hash_index upper_bound attempt =
     (if 2 ^ 32 \<le> attempt then Inl OverflowError
      else let sample = bloom_sample sha item hash_index attempt in
        if sample < sample_limit upper_bound then Inr (sample mod upper_bound)
        else uniform_index sha item hash_index upper_bound (Suc attempt))"
  by pat_completeness auto
termination
  by (relation "measure (\<lambda>(sha, item, i, u, attempt). 2 ^ 32 - attempt)") auto

declare uniform_index.simps [simp del]

text \<open>One step of Floyd's sampling: the position for \<open>hash_index\<close> given those already selected.\<close>

definition next_position :: "(bytes \<Rightarrow> bytes) \<Rightarrow> bytes \<Rightarrow> nat \<Rightarrow> nat \<Rightarrow> nat list \<Rightarrow> nat result" where
  "next_position sha item base hash_index selected =
     rbind (uniform_index sha item hash_index (base + hash_index + 1) 0) (\<lambda>position.
       Inr (if position \<in> set selected then base + hash_index else position))"

section \<open>The bit vector\<close>

definition bit_mask :: "nat \<Rightarrow> byte" where
  "bit_mask idx = push_bit (idx mod 8) 1"

definition bit_is_set :: "bytes \<Rightarrow> nat \<Rightarrow> bool" where
  "bit_is_set bits idx \<longleftrightarrow> (bits ! (idx div 8)) AND bit_mask idx \<noteq> 0"

definition set_bit_at :: "bytes \<Rightarrow> nat \<Rightarrow> bytes" where
  "set_bit_at bits idx = bits[idx div 8 := (bits ! (idx div 8)) OR bit_mask idx]"

text \<open>
  \<open>add\<close> consumes the generator of positions: position by position, so that an exception in the
  generator leaves the bits set so far and the count as it was.
\<close>

fun bloom_add_loop ::
  "(bytes \<Rightarrow> bytes) \<Rightarrow> bytes \<Rightarrow> nat \<Rightarrow> nat list \<Rightarrow> nat list \<Rightarrow> bool \<Rightarrow> bytes \<Rightarrow> (bool, bytes) outcome" where
  "bloom_add_loop sha item base selected [] already_present bits = (Inr already_present, bits)"
| "bloom_add_loop sha item base selected (i # is) already_present bits =
     (case next_position sha item base i selected of
        Inl e \<Rightarrow> (Inl e, bits)
      | Inr idx \<Rightarrow>
          (if bit_is_set bits idx then bloom_add_loop sha item base (idx # selected) is already_present bits
           else bloom_add_loop sha item base (idx # selected) is False (set_bit_at bits idx)))"

definition bloom_add :: "(bytes \<Rightarrow> bytes) \<Rightarrow> bytes \<Rightarrow> bloom \<Rightarrow> (bool, bloom) outcome" where
  "bloom_add sha item f =
     (case bloom_add_loop sha item (bl_num_bits f - bl_num_hashes f) [] [0..<bl_num_hashes f] True (bl_bits f) of
        (Inl e, bits) \<Rightarrow> (Inl e, f\<lparr>bl_bits := bits\<rparr>)
      | (Inr True, bits) \<Rightarrow> (Inr False, f\<lparr>bl_bits := bits\<rparr>)
      | (Inr False, bits) \<Rightarrow> (Inr True, f\<lparr>bl_bits := bits, bl_count := bl_count f + 1\<rparr>))"

fun bloom_contains_loop :: "(bytes \<Rightarrow> bytes) \<Rightarrow> bytes \<Rightarrow> nat \<Rightarrow> nat list \<Rightarrow> nat list \<Rightarrow> bytes \<Rightarrow> bool result" where
  "bloom_contains_loop sha item base selected [] bits = Inr True"
| "bloom_contains_loop sha item base selected (i # is) bits =
     rbind (next_position sha item base i selected) (\<lambda>idx.
       if bit_is_set bits idx then bloom_contains_loop sha item base (idx # selected) is bits else Inr False)"

definition bloom_contains :: "(bytes \<Rightarrow> bytes) \<Rightarrow> bytes \<Rightarrow> bloom \<Rightarrow> (bool, bloom) outcome" where
  "bloom_contains sha item f =
     (bloom_contains_loop sha item (bl_num_bits f - bl_num_hashes f) [] [0..<bl_num_hashes f] (bl_bits f), f)"

definition bloom_len :: "bloom \<Rightarrow> nat" where
  "bloom_len f = bl_count f"

definition bloom_saturation :: "bloom \<Rightarrow> pyfloat" where
  "bloom_saturation f = fdiv (of_nat (bloom_len f)) (of_nat (bl_capacity f))"

definition bloom_clear :: "bloom \<Rightarrow> bloom" where
  "bloom_clear f = f\<lparr>bl_bits := replicate (length (bl_bits f)) 0, bl_count := 0\<rparr>"

section \<open>Bits\<close>

lemma bit_is_set_bit: "bit_is_set bits idx \<longleftrightarrow> bit (bits ! (idx div 8)) (idx mod 8)"
  by (simp add: bit_is_set_def bit_mask_def push_bit_eq_mult and_exp_eq_0_iff_not_bit)

lemma bit_mask_bit: "n < 8 \<Longrightarrow> bit (bit_mask idx) n \<longleftrightarrow> n = idx mod 8"
  by (auto simp: bit_mask_def bit_simps)

lemma bit_is_set_set_bit_at:
  assumes "i div 8 < length bits"
  shows "bit_is_set (set_bit_at bits i) j \<longleftrightarrow> j = i \<or> bit_is_set bits j"
proof (cases "j div 8 = i div 8")
  case True
  then have "j = i \<longleftrightarrow> j mod 8 = i mod 8" by (metis div_mult_mod_eq)
  with True assms show ?thesis
    by (simp add: bit_is_set_bit set_bit_at_def bit_or_iff bit_mask_bit) blast
next
  case False
  then show ?thesis by (auto simp: bit_is_set_bit set_bit_at_def)
qed

lemma length_set_bit_at [simp]: "length (set_bit_at bits i) = length bits"
  by (simp add: set_bit_at_def)

section \<open>Sampling\<close>

lemma uniform_index_bound:
  "0 < u \<Longrightarrow> uniform_index sha item i u attempt = Inr p \<Longrightarrow> p < u"
proof (induction sha item i u attempt rule: uniform_index.induct)
  case (1 sha item i u attempt)
  then show ?case
    by (subst (asm) (2) uniform_index.simps) (auto simp: Let_def split: if_splits)
qed

text \<open>Every residue has equally many samples below the limit: rejection removes the modulo bias.\<close>

lemma sample_limit_multiple: "u dvd sample_limit u"
  by (simp add: sample_limit_def dvd_minus_mod)

lemma residue_class:
  fixes u :: nat
  assumes "i < u"
  shows "{x. x < u * c \<and> x mod u = i} = (\<lambda>t. u * t + i) ` {..<c}"
proof
  show "{x. x < u * c \<and> x mod u = i} \<subseteq> (\<lambda>t. u * t + i) ` {..<c}"
  proof
    fix x
    assume "x \<in> {x. x < u * c \<and> x mod u = i}"
    then have "x = u * (x div u) + i" "x div u < c"
      using assms by (auto simp: less_mult_imp_div_less mult.commute)
    then show "x \<in> (\<lambda>t. u * t + i) ` {..<c}" by blast
  qed
next
  have "u * t + i < u * c" if "t < c" for t
  proof -
    have "u * t + i < u * Suc t" using assms by simp
    also have "\<dots> \<le> u * c" using that by (intro mult_le_mono2) simp
    finally show ?thesis .
  qed
  then show "(\<lambda>t. u * t + i) ` {..<c} \<subseteq> {x. x < u * c \<and> x mod u = i}" using assms by auto
qed

section \<open>The positions of an item\<close>

fun positions :: "(bytes \<Rightarrow> bytes) \<Rightarrow> bytes \<Rightarrow> nat \<Rightarrow> nat list \<Rightarrow> nat list \<Rightarrow> nat list result" where
  "positions sha item base selected [] = Inr []"
| "positions sha item base selected (i # is) =
     rbind (next_position sha item base i selected) (\<lambda>idx.
     rbind (positions sha item base (idx # selected) is) (\<lambda>rest. Inr (idx # rest)))"

lemma next_position_fresh:
  assumes "set selected \<subseteq> {..<base + i}" and "next_position sha item base i selected = Inr idx"
  shows "idx \<notin> set selected \<and> idx < base + Suc i"
proof -
  obtain p where "uniform_index sha item i (base + i + 1) 0 = Inr p"
    "idx = (if p \<in> set selected then base + i else p)"
    using assms(2) by (auto simp: next_position_def rbind_eq_Inr_iff)
  then show ?thesis using uniform_index_bound [of "base + i + 1" sha item i 0 p] assms(1) by auto
qed

lemma positions_distinct:
  assumes "positions sha item base selected [j..<k] = Inr ps" and "set selected \<subseteq> {..<base + j}" and "j \<le> k"
  shows "length ps = k - j \<and> distinct ps \<and> set ps \<inter> set selected = {} \<and> set ps \<subseteq> {..<base + k}"
  using assms
proof (induction "k - j" arbitrary: j selected ps)
  case 0
  then show ?case by simp
next
  case (Suc n)
  then have jk: "[j..<k] = j # [Suc j..<k]" "j < k" by (simp_all add: upt_conv_Cons)
  with Suc.prems obtain idx rest where
    n: "next_position sha item base j selected = Inr idx"
    and r: "positions sha item base (idx # selected) [Suc j..<k] = Inr rest" "ps = idx # rest"
    by (auto simp: rbind_eq_Inr_iff)
  have fresh: "idx \<notin> set selected" "idx < base + Suc j" using next_position_fresh [OF Suc.prems(2) n] by auto
  have "set (idx # selected) \<subseteq> {..<base + Suc j}" using fresh Suc.prems(2) by auto
  from Suc.hyps(1) [OF _ r(1) this] Suc.hyps(2) jk fresh r(2) show ?case by auto
qed

lemma contains_loop_positions:
  "bloom_contains_loop sha item base selected is bits = Inr True \<longleftrightarrow>
     (\<exists>ps. positions sha item base selected is = Inr ps \<and> (\<forall>p \<in> set ps. bit_is_set bits p))"
proof (induction "is" arbitrary: selected)
  case (Cons i "is")
  show ?case
  proof (cases "next_position sha item base i selected")
    case (Inr idx)
    with Cons.IH [of "idx # selected"] show ?thesis by (auto simp: rbind_eq_Inr_iff)
  qed simp
qed simp

lemma add_loop_bits:
  assumes "bloom_add_loop sha item base selected [j..<k] ap bits = (r, bits')" and "set selected \<subseteq> {..<base + j}"
    and "j \<le> k" and "base + k \<le> 8 * length bits"
  shows "length bits' = length bits \<and> (\<forall>q. bit_is_set bits q \<longrightarrow> bit_is_set bits' q)
    \<and> (\<forall>b. r = Inr b \<longrightarrow> (\<exists>ps. positions sha item base selected [j..<k] = Inr ps
          \<and> (\<forall>p \<in> set ps. bit_is_set bits' p) \<and> (b \<longleftrightarrow> ap \<and> (\<forall>p \<in> set ps. bit_is_set bits p))))"
  using assms
proof (induction "k - j" arbitrary: j selected ap bits)
  case 0
  then show ?case by auto
next
  case (Suc n)
  then have jk: "[j..<k] = j # [Suc j..<k]" "j < k" by (simp_all add: upt_conv_Cons)
  show ?case
  proof (cases "next_position sha item base j selected")
    case (Inl e)
    with Suc.prems(1) jk show ?thesis by auto
  next
    case (Inr idx)
    have fresh: "idx \<notin> set selected" "idx < base + Suc j" using next_position_fresh [OF Suc.prems(2) Inr] by auto
    have sel: "set (idx # selected) \<subseteq> {..<base + Suc j}" using fresh Suc.prems(2) by auto
    have n: "n = k - Suc j" using Suc.hyps(2) jk by simp
    show ?thesis
    proof (cases "bit_is_set bits idx")
      case True
      with Suc.prems(1) jk Inr have "bloom_add_loop sha item base (idx # selected) [Suc j..<k] ap bits = (r, bits')" by simp
      from Suc.hyps(1) [OF n this sel _ Suc.prems(4)] jk Inr True show ?thesis by fastforce
    next
      case False
      let ?bits = "set_bit_at bits idx"
      have "idx div 8 < length bits" using fresh(2) jk(2) Suc.prems(4) by auto
      note set = bit_is_set_set_bit_at [OF this]
      from False Suc.prems(1) jk Inr have "bloom_add_loop sha item base (idx # selected) [Suc j..<k] False ?bits = (r, bits')" by simp
      from Suc.hyps(1) [OF n this sel] jk Suc.prems(4) set Inr False show ?thesis by fastforce
    qed
  qed
qed

section \<open>No false negatives\<close>

definition bloom_wf :: "bloom \<Rightarrow> bool" where
  "bloom_wf f \<longleftrightarrow> bl_num_hashes f \<le> bl_num_bits f \<and> bl_num_bits f \<le> 8 * length (bl_bits f)"

definition bloom_reports :: "(bytes \<Rightarrow> bytes) \<Rightarrow> bytes \<Rightarrow> bloom \<Rightarrow> bool" where
  "bloom_reports sha x f \<longleftrightarrow>
     (\<exists>ps. positions sha x (bl_num_bits f - bl_num_hashes f) [] [0..<bl_num_hashes f] = Inr ps
        \<and> (\<forall>p \<in> set ps. bit_is_set (bl_bits f) p))"

lemma bloom_add_facts:
  assumes wf: "bloom_wf f" and add: "bloom_add sha x f = (r, f')"
  shows "bloom_wf f' \<and> (\<forall>y. bloom_reports sha y f \<longrightarrow> bloom_reports sha y f')
    \<and> (\<forall>b. r = Inr b \<longrightarrow> bloom_reports sha x f' \<and> (b \<longleftrightarrow> \<not> bloom_reports sha x f))"
proof -
  let ?base = "bl_num_bits f - bl_num_hashes f" and ?k = "bl_num_hashes f"
  obtain r0 bits where l: "bloom_add_loop sha x ?base [] [0..<?k] True (bl_bits f) = (r0, bits)" by fastforce
  from add l have f': "bl_num_bits f' = bl_num_bits f" "bl_num_hashes f' = ?k" "bl_bits f' = bits"
    and r: "r0 = Inr c \<longleftrightarrow> r = Inr (\<not> c)" for c
    by (auto simp: bloom_add_def split: sum.splits bool.splits)
  have "?base + ?k \<le> 8 * length (bl_bits f)" using wf by (simp add: bloom_wf_def)
  from add_loop_bits [OF l _ _ this]
  have facts: "length bits = length (bl_bits f)" "\<forall>q. bit_is_set (bl_bits f) q \<longrightarrow> bit_is_set bits q"
    "\<forall>b. r0 = Inr b \<longrightarrow> (\<exists>ps. positions sha x ?base [] [0..<?k] = Inr ps
       \<and> (\<forall>p \<in> set ps. bit_is_set bits p) \<and> (b \<longleftrightarrow> (\<forall>p \<in> set ps. bit_is_set (bl_bits f) p)))"
    by auto
  have "bloom_reports sha x f' \<and> (b \<longleftrightarrow> \<not> bloom_reports sha x f)" if "r = Inr b" for b
    using facts(3) r [of "\<not> b"] that by (auto simp: bloom_reports_def f')
  then show ?thesis using facts(1,2) wf by (auto simp: bloom_wf_def bloom_reports_def f')
qed

interpretation bloom: membership_filter "bloom_add sha" "bloom_contains sha" "bloom_reports sha" bloom_wf for sha
proof
  show "bloom_reports sha x f = (fst (bloom_contains sha x f) = Inr True)" for x f
    by (simp add: bloom_reports_def bloom_contains_def contains_loop_positions)
  show "bloom_reports sha x f' \<and> (b \<longleftrightarrow> \<not> bloom_reports sha x f)" if "bloom_wf f" "bloom_add sha x f = (Inr b, f')" for x f b f'
    using bloom_add_facts [OF that] by blast
  show "bloom_wf f' \<and> (\<forall>y. bloom_reports sha y f \<longrightarrow> bloom_reports sha y f')" if "bloom_wf f" "bloom_add sha x f = (r, f')" for x f r f'
    using bloom_add_facts [OF that] by blast
  show "bloom_wf f' \<and> (\<forall>y. bloom_reports sha y f \<longrightarrow> bloom_reports sha y f')" if "bloom_wf f" "bloom_contains sha x f = (r, f')" for x f r f'
    using that by (auto simp: bloom_contains_def)
qed

section \<open>Sizing is optimal\<close>

lemma bisect_bits_least:
  assumes "lower \<le> upper" "ok upper" "mono ok"
  shows "lower \<le> bisect_bits ok lower upper \<and> bisect_bits ok lower upper \<le> upper
    \<and> ok (bisect_bits ok lower upper) \<and> (\<forall>m. lower \<le> m \<and> ok m \<longrightarrow> bisect_bits ok lower upper \<le> m)"
  using assms
proof (induction ok lower upper rule: bisect_bits.induct)
  case (1 ok lower upper)
  show ?case
  proof (cases "lower < upper")
    case True
    let ?mid = "(lower + upper) div 2"
    have mid: "lower \<le> ?mid" "?mid < upper" using True by simp_all
    show ?thesis
    proof (cases "ok ?mid")
      case ok: True
      have "bisect_bits ok lower upper = bisect_bits ok lower ?mid"
        using True ok by (simp add: bisect_bits.simps [of ok lower upper] Let_def)
      with 1(1) [OF True refl ok mid(1) ok 1(5)] mid show ?thesis by auto
    next
      case bad: False
      then have later: "Suc ?mid \<le> m" if "ok m" for m using that bad monoD [OF 1(5), of m ?mid] by (metis le_boolE not_less_eq_eq)
      have "bisect_bits ok lower upper = bisect_bits ok (Suc ?mid) upper"
        using True bad by (simp add: bisect_bits.simps [of ok lower upper] Let_def)
      moreover have "Suc ?mid \<le> upper" using mid by simp
      ultimately show ?thesis using 1(2) [OF True refl bad _ 1(4,5)] mid later by fastforce
    qed
  next
    case False
    with 1(3,4) show ?thesis by (simp add: bisect_bits.simps)
  qed
qed

definition lex_le :: "nat \<times> nat \<Rightarrow> nat \<times> nat \<Rightarrow> bool" where
  "lex_le a b \<longleftrightarrow> fst a < fst b \<or> fst a = fst b \<and> snd a \<le> snd b"

lemma min_sizing_le: "lex_le (min_sizing a b) a" "lex_le (min_sizing a b) b" "min_sizing a b = a \<or> min_sizing a b = b"
  by (cases a; cases b; auto simp: lex_le_def)+

lemma lex_le_trans: "lex_le a b \<Longrightarrow> lex_le b c \<Longrightarrow> lex_le a c"
  by (auto simp: lex_le_def)

lemma foldl_min_sizing:
  "let best = foldl (\<lambda>best k. min_sizing best (g k, k)) start ks in
   lex_le best start \<and> (\<forall>k \<in> set ks. lex_le best (g k, k)) \<and> (best = start \<or> (\<exists>k \<in> set ks. best = (g k, k)))"
proof (induction ks arbitrary: start)
  case Nil
  then show ?case by (simp add: lex_le_def)
next
  case (Cons k ks)
  let ?s = "min_sizing start (g k, k)"
  define best where "best = foldl (\<lambda>best k. min_sizing best (g k, k)) ?s ks"
  have ih: "lex_le best ?s" "\<forall>j \<in> set ks. lex_le best (g j, j)" "best = ?s \<or> (\<exists>j \<in> set ks. best = (g j, j))"
    using Cons.IH [of ?s] unfolding best_def Let_def by blast+
  have "lex_le best start" "lex_le best (g k, k)"
    using lex_le_trans [OF ih(1)] min_sizing_le [of start "(g k, k)"] by blast+
  moreover have "best = start \<or> best = (g k, k) \<or> (\<exists>j \<in> set ks. best = (g j, j))"
    using ih(3) min_sizing_le(3) [of start "(g k, k)"] by auto
  ultimately show ?case using ih(2) unfolding Let_def foldl_Cons best_def [symmetric] by auto
qed

lemma minimum_num_bits_least:
  assumes mono: "mono (\<lambda>m. fits n m k)" and small: "n \<le> max_hashes * max_bits"
  defines "r \<equiv> minimum_num_bits fits n k max_bits"
  shows "r \<le> max_bits \<Longrightarrow> k < r \<and> fits n r k"
    and "k < m \<Longrightarrow> m \<le> max_bits \<Longrightarrow> fits n m k \<Longrightarrow> r \<le> m"
proof -
  note least = bisect_bits_least [of "k + 1" max_bits "\<lambda>m. fits n m k", OF _ _ mono]
  show "r \<le> max_bits \<Longrightarrow> k < r \<and> fits n r k"
    using least by (auto simp: r_def minimum_num_bits_def split: if_splits)
  show "r \<le> m" if m: "k < m" "m \<le> max_bits" "fits n m k"
  proof -
    have "fits n max_bits k" using monoD [OF mono m(2)] m(3) by simp
    with least m small show ?thesis by (auto simp: r_def minimum_num_bits_def)
  qed
qed

lemma minimum_num_bits_above:
  assumes "k < max_bits"
  shows "k < minimum_num_bits fits n k max_bits"
proof -
  have "lower \<le> bisect_bits ok lower upper" for ok lower upper
    by (induction ok lower upper rule: bisect_bits.induct) (subst bisect_bits.simps, auto simp: Let_def)
  from this [of "k + 1"] assms show ?thesis by (auto simp: minimum_num_bits_def Suc_le_eq)
qed

lemma bloom_init_wf:
  assumes "bloom_init fits capacity error_rate = Inr f"
  shows "bloom_wf f"
proof -
  obtain p n where sz: "select_sizing (fits p) n (max_filter_bytes * 8) = (bl_num_bits f, bl_num_hashes f)"
    and len: "length (bl_bits f) = (bl_num_bits f + 7) div 8"
    using assms by (auto simp: bloom_init_def rbind_eq_Inr_iff split: pyval.splits pyfloat.splits if_splits prod.splits)
  let ?g = "\<lambda>k. minimum_num_bits (fits p) n k (max_filter_bytes * 8)"
  have "bl_num_hashes f \<le> bl_num_bits f"
    using foldl_min_sizing [where g = ?g and start = "(max_filter_bytes * 8 + 1, 1)" and ks = "[1..<max_hashes + 1]"] sz
      minimum_num_bits_above [of "bl_num_hashes f" "max_filter_bytes * 8" "fits p" n]
    by (auto simp: select_sizing_def max_hashes_def max_filter_bytes_def Let_def)
  then show ?thesis by (simp add: bloom_wf_def len)
qed

section \<open>Properties\<close>

text \<open>
  No false negatives (Bloom): over any sequence of adds and membership tests on a well-formed
  filter, whatever the hash function is and even when calls raise in between, every item whose
  \<open>add\<close> returned is reported as present afterwards, and adding it again says "duplicate".
\<close>

lemma bloom_no_false_negatives:
  assumes "bloom_wf f" and "run_filter (bloom_add sha) (bloom_contains sha) ops f = (added, g)" and "x \<in> set added"
  shows "fst (bloom_contains sha x g) = Inr True \<and> (\<forall>b g'. bloom_add sha x g = (Inr b, g') \<longrightarrow> \<not> b)"
  by (rule bloom.no_false_negatives [OF assms])

definition bloom_demo :: bloom where
  "bloom_demo = \<lparr>bl_num_bits = 16, bl_num_hashes = 2, bl_bits = [0, 0], bl_count = 0, bl_capacity = 4\<rparr>"

definition last_byte :: "bytes \<Rightarrow> bytes" where
  "last_byte bs = [last bs]"

lemma uniform_index_last_byte:
  assumes "0 < u" and "u \<le> 256"
  shows "uniform_index last_byte [x] i u 0 = Inr (unat x mod u)"
proof -
  have "bloom_sample last_byte [x] i 0 = unat x" by (simp add: bloom_sample_def last_byte_def bytes_to_nat_def)
  moreover have "(2::nat) ^ 256 mod u < u" using assms(1) by (rule mod_less_divisor)
  then have "256 \<le> sample_limit u" using assms(2) by (simp add: sample_limit_def)
  ultimately show ?thesis using unat_byte [of x] by (simp add: uniform_index.simps)
qed

lemma bloom_demo_run:
  "run_filter (bloom_add last_byte) (bloom_contains last_byte) [Add [5], Ask [7], Add [7]] bloom_demo
     = ([[5], [7]], bloom_demo\<lparr>bl_bits := [160, 128], bl_count := 2\<rparr>)"
  by (simp add: bloom_add_def bloom_contains_def bloom_demo_def upt_rec next_position_def uniform_index_last_byte
      bit_is_set_def set_bit_at_def bit_mask_def)

text \<open>
  Distinct positions: Floyd's sampling yields, for every item and hash function, exactly \<open>k\<close>
  distinct positions below \<open>m\<close>; and the rejection step makes the samples it accepts fall on every
  position equally often, so no position is favoured.
\<close>

lemma bloom_positions_distinct:
  assumes "k \<le> m" and "positions sha item (m - k) [] [0..<k] = Inr ps"
  shows "length ps = k \<and> distinct ps \<and> (\<forall>p \<in> set ps. p < m)
    \<and> (\<forall>u i. i < u \<longrightarrow> card {x. x < sample_limit u \<and> x mod u = i} = sample_limit u div u)"
proof -
  have "card {x. x < sample_limit u \<and> x mod u = i} = sample_limit u div u" if "i < u" for u i
  proof -
    obtain c where c: "sample_limit u = u * c" using sample_limit_multiple [of u] by (auto simp: dvd_def)
    have "card {x. x < sample_limit u \<and> x mod u = i} = card ((\<lambda>t. u * t + i) ` {..<c})"
      unfolding c using residue_class [OF that] by simp
    also have "\<dots> = c" using that by (subst card_image) (auto simp: inj_on_def)
    finally show ?thesis using c that by simp
  qed
  then show ?thesis using positions_distinct [OF assms(2)] assms(1) by auto
qed

text \<open>
  C26. Sizing is optimal: when construction succeeds, the chosen pair of vector size \<open>m\<close> and hash
  count \<open>k\<close> meets the error rate within the allocation budget, and every other pair that does is
  larger, or equally large with no fewer hashes. The false-positive bound only falls as the
  vector grows.
\<close>

theorem bloom_sizing_optimal:
  assumes mono: "\<forall>k. mono (\<lambda>m. fits p (nat n) m k)"
    and init: "bloom_init fits (PyInt n) (PyFloat (Fin p)) = Inr f"
  shows "bloom_wf f \<and> fits p (nat n) (bl_num_bits f) (bl_num_hashes f)
    \<and> (bl_num_bits f + 7) div 8 \<le> max_filter_bytes
    \<and> (\<forall>m k. 1 \<le> k \<and> k \<le> max_hashes \<and> k < m \<and> m \<le> max_filter_bytes * 8 \<and> fits p (nat n) m k
         \<longrightarrow> lex_le (bl_num_bits f, bl_num_hashes f) (m, k))"
proof -
  let ?max = "max_filter_bytes * 8" and ?g = "\<lambda>k. minimum_num_bits (fits p) (nat n) k (max_filter_bytes * 8)"
  obtain m k where mk: "select_sizing (fits p) (nat n) ?max = (m, k)" by fastforce
  with init have f: "bl_num_bits f = m" "bl_num_hashes f = k" "length (bl_bits f) = (m + 7) div 8"
    and alloc: "(m + 7) div 8 \<le> max_filter_bytes"
    by (auto simp: bloom_init_def check_allocation_def split: if_splits)
  have m: "m \<le> ?max" using alloc by presburger
  have best: "\<forall>j \<in> set [1..<max_hashes + 1]. lex_le (m, k) (?g j, j)"
    "(m, k) = (?max + 1, 1) \<or> (\<exists>j \<in> set [1..<max_hashes + 1]. (m, k) = (?g j, j))"
    using foldl_min_sizing [of ?g "(?max + 1, 1)" "[1..<max_hashes + 1]"] mk
    unfolding select_sizing_def Let_def by auto
  with m have k: "1 \<le> k" "m = ?g k" by auto
  have small: "nat n \<le> max_hashes * ?max"
    using m unfolding k(2) minimum_num_bits_def by (auto split: if_splits)
  note least = minimum_num_bits_least [of "fits p" "nat n" _ ?max, OF mono [rule_format] small]
  have km: "k < m" "fits p (nat n) m k" using least(1) [of k] m k(2) by auto
  have "lex_le (m, k) (m', k')"
    if "1 \<le> k'" "k' \<le> max_hashes" "k' < m'" "m' \<le> ?max" "fits p (nat n) m' k'" for m' k'
  proof -
    have "?g k' \<le> m'" using least(2) that by blast
    moreover have "lex_le (m, k) (?g k', k')"
      using best(1) that(1,2) by (metis Suc_eq_plus1 atLeastLessThan_iff less_Suc_eq_le set_upt)
    ultimately show ?thesis by (auto simp: lex_le_def)
  qed
  then show ?thesis using km f alloc by (auto simp: bloom_wf_def)
qed

text \<open>A bound for the witness: ten bits per item.\<close>

definition demo_fits :: "rat \<Rightarrow> nat \<Rightarrow> nat \<Rightarrow> nat \<Rightarrow> bool" where
  "demo_fits p n m k \<longleftrightarrow> 10 * n \<le> m"

lemma demo_fits_mono: "mono (\<lambda>m. demo_fits p n m k)"
  by (rule monoI) (simp add: demo_fits_def)

lemma demo_sizing: "fst (select_sizing (demo_fits p) 4 (max_filter_bytes * 8)) \<le> 40"
proof -
  let ?g = "\<lambda>k. minimum_num_bits (demo_fits p) 4 k (max_filter_bytes * 8)"
  have "?g 1 \<le> 40"
    using minimum_num_bits_least(2) [of "demo_fits p" 4 1 "max_filter_bytes * 8" 40, OF demo_fits_mono]
    by (simp add: demo_fits_def max_hashes_def max_filter_bytes_def)
  moreover have "lex_le (select_sizing (demo_fits p) 4 (max_filter_bytes * 8)) (?g 1, 1)"
    using foldl_min_sizing [of ?g "(max_filter_bytes * 8 + 1, 1)" "[1..<max_hashes + 1]"]
    unfolding select_sizing_def Let_def by (simp add: max_hashes_def)
  ultimately show ?thesis by (auto simp: lex_le_def)
qed

theorem bloom_sizing_optimal_witness:
  "\<exists>f. bloom_init demo_fits (PyInt 4) (PyFloat (Fin (1 / 2))) = Inr f \<and> bloom_wf f
     \<and> demo_fits (1 / 2) 4 (bl_num_bits f) (bl_num_hashes f)"
proof -
  obtain m k where mk: "select_sizing (demo_fits (1 / 2)) 4 (max_filter_bytes * 8) = (m, k)" by fastforce
  then have "m \<le> 40" using demo_sizing [of "1 / 2"] by simp
  then have "check_allocation m = Inr ()" by (simp add: check_allocation_def max_filter_bytes_def)
  with mk obtain f where f: "bloom_init demo_fits (PyInt 4) (PyFloat (Fin (1 / 2))) = Inr f"
    by (simp add: bloom_init_def)
  from bloom_sizing_optimal [OF _ f] demo_fits_mono f show ?thesis by auto
qed

end
