(* ===== verification/Cuckoo_Filter.thy ===== *)
theory Cuckoo_Filter
  imports Filter_Spec Bloom_Filter
begin

unbundle bit_operations_syntax

text \<open>
  The cuckoo filter \<open>dupefilter/filters/cuckoo_filter.py\<close>: buckets of up to four fingerprints, each
  fingerprint in one of its two buckets, insertion by a bounded chain of evictions that is undone
  when it finds no free slot.

  SHA-256 is the parameter \<open>sha\<close>; the generator behind \<open>random.Random()\<close> is the parameter \<open>rng\<close>,
  a draw of some number, and \<open>randrange\<close> brings a draw into its range. Nothing else is assumed of
  either.
\<close>

section \<open>State and sizing\<close>

definition bucket_size :: nat where
  "bucket_size = 4"

definition max_kicks :: nat where
  "max_kicks = 500"

text \<open>The literal \<open>0.85\<close> as a double.\<close>

definition target_load :: rat where
  "target_load = 7656119366529843 / 2 ^ 53"

record 'r cuckoo =
  cf_num_buckets :: nat
  cf_fp_len :: nat
  cf_buckets :: "bytes list list"
  cf_count :: nat
  cf_capacity :: nat
  cf_rng :: 'r

text \<open>\<open>math.ldexp(2.0 * b, -(8 * fp_len))\<close> is exact for every supported length.\<close>

definition byte_threshold :: "nat \<Rightarrow> rat" where
  "byte_threshold fp_len = 2 * of_nat bucket_size / 2 ^ (8 * fp_len)"

definition fingerprint_length :: "rat \<Rightarrow> nat option" where
  "fingerprint_length error_rate = find (\<lambda>l. byte_threshold l \<le> error_rate) [1..<33]"

function grow_buckets :: "int \<Rightarrow> nat \<Rightarrow> nat" where
  "grow_buckets ideal m = (if 0 < m \<and> int m < ideal then grow_buckets ideal (2 * m) else m)"
  by pat_completeness auto
termination by (relation "measure (\<lambda>(ideal, m). nat (ideal - int m))") auto

declare grow_buckets.simps [simp del]

definition ideal_buckets :: "int \<Rightarrow> int result" where
  "ideal_buckets capacity =
     (case fdiv (of_int capacity) (of_nat bucket_size) of
        Fin x \<Rightarrow> (case fdiv x target_load of Fin y \<Rightarrow> Inr \<lceil>y\<rceil> | _ \<Rightarrow> Inl OverflowError)
      | _ \<Rightarrow> Inl OverflowError)"

definition cuckoo_init :: "'r \<Rightarrow> int \<Rightarrow> pyfloat \<Rightarrow> 'r cuckoo result" where
  "cuckoo_init seed capacity error_rate =
     (if capacity \<le> 0 then Inl ValueError
      else case error_rate of
        Fin p \<Rightarrow>
          (if p \<le> 0 \<or> 1 \<le> p then Inl ValueError
           else case fingerprint_length p of
             None \<Rightarrow> Inl ValueError
           | Some l \<Rightarrow>
               rbind (ideal_buckets capacity) (\<lambda>ideal.
                 let m = grow_buckets ideal 2 in
                 Inr \<lparr>cf_num_buckets = m, cf_fp_len = l, cf_buckets = replicate m [], cf_count = 0,
                      cf_capacity = nat capacity, cf_rng = seed\<rparr>))
      | _ \<Rightarrow> Inl ValueError)"

definition slot_capacity :: "'r cuckoo \<Rightarrow> nat" where
  "slot_capacity f = cf_num_buckets f * bucket_size"

definition cuckoo_saturation :: "'r cuckoo \<Rightarrow> pyfloat" where
  "cuckoo_saturation f = fdiv (of_nat (cf_count f)) (of_nat (cf_capacity f))"

section \<open>Fingerprints and indices\<close>

definition fingerprint :: "(bytes \<Rightarrow> bytes) \<Rightarrow> nat \<Rightarrow> nat \<Rightarrow> bytes \<Rightarrow> bytes \<times> nat" where
  "fingerprint sha fp_len num_buckets item =
     (let digest = sha item; fp = take fp_len digest in
      (if fp = replicate fp_len 0 then 1 # tl fp else fp,
       bytes_to_nat (take 8 (drop 8 digest)) AND (num_buckets - 1)))"

definition hash_fp :: "(bytes \<Rightarrow> bytes) \<Rightarrow> nat \<Rightarrow> bytes \<Rightarrow> nat" where
  "hash_fp sha num_buckets fp = bytes_to_nat (take 8 (sha fp)) AND (num_buckets - 1)"

definition alt_index :: "(bytes \<Rightarrow> bytes) \<Rightarrow> nat \<Rightarrow> nat \<Rightarrow> bytes \<Rightarrow> nat" where
  "alt_index sha num_buckets index fp = index XOR hash_fp sha num_buckets fp"

section \<open>Operations\<close>

definition append_at :: "nat \<Rightarrow> 'a \<Rightarrow> 'a list list \<Rightarrow> 'a list list" where
  "append_at i x bs = bs[i := bs ! i @ [x]]"

definition replace_at :: "nat \<Rightarrow> nat \<Rightarrow> 'a \<Rightarrow> 'a list list \<Rightarrow> 'a list list" where
  "replace_at i slot x bs = bs[i := (bs ! i)[slot := x]]"

definition randrange :: "('r \<Rightarrow> nat \<times> 'r) \<Rightarrow> nat \<Rightarrow> 'r \<Rightarrow> nat \<times> 'r" where
  "randrange rng b r = (case rng r of (k, r') \<Rightarrow> (k mod b, r'))"

text \<open>
  The kick loop of \<open>_insert\<close>, with the journal of replaced slots, newest first; \<open>True\<close> when the
  fingerprint in hand found a free slot.
\<close>

fun kick ::
  "(bytes \<Rightarrow> bytes) \<Rightarrow> nat \<Rightarrow> ('r \<Rightarrow> nat \<times> 'r) \<Rightarrow> nat \<Rightarrow> bytes \<Rightarrow> nat \<Rightarrow> (nat \<times> nat \<times> bytes) list
    \<Rightarrow> bytes list list \<Rightarrow> 'r \<Rightarrow> bool \<times> (nat \<times> nat \<times> bytes) list \<times> bytes list list \<times> 'r" where
  "kick sha m rng 0 fp index path bs r = (False, path, bs, r)"
| "kick sha m rng (Suc n) fp index path bs r =
     (case randrange rng bucket_size r of (slot, r') \<Rightarrow>
        (let evicted = bs ! index ! slot; path' = (index, slot, evicted) # path;
             bs' = replace_at index slot fp bs; index' = alt_index sha m index evicted in
         if length (bs' ! index') < bucket_size then (True, path', append_at index' evicted bs', r')
         else kick sha m rng n evicted index' path' bs' r'))"

fun undo :: "(nat \<times> nat \<times> bytes) list \<Rightarrow> bytes list list \<Rightarrow> bytes list list" where
  "undo [] bs = bs"
| "undo ((index, slot, evicted) # path) bs = undo path (replace_at index slot evicted bs)"

definition cuckoo_insert ::
  "(bytes \<Rightarrow> bytes) \<Rightarrow> nat \<Rightarrow> ('r \<Rightarrow> nat \<times> 'r) \<Rightarrow> bytes \<Rightarrow> nat \<Rightarrow> nat \<Rightarrow> bytes list list \<Rightarrow> 'r
    \<Rightarrow> bool \<times> bytes list list \<times> 'r" where
  "cuckoo_insert sha m rng fp i1 i2 bs r =
     (if length (bs ! i1) < bucket_size then (True, append_at i1 fp bs, r)
      else if length (bs ! i2) < bucket_size then (True, append_at i2 fp bs, r)
      else case kick sha m rng max_kicks fp i1 [] bs r of
        (True, _, bs', r') \<Rightarrow> (True, bs', r')
      | (False, path, bs', r') \<Rightarrow> (False, undo path bs', r'))"

definition cuckoo_has :: "(bytes \<Rightarrow> bytes) \<Rightarrow> bytes \<Rightarrow> 'r cuckoo \<Rightarrow> bool" where
  "cuckoo_has sha item f =
     (case fingerprint sha (cf_fp_len f) (cf_num_buckets f) item of (fp, i1) \<Rightarrow>
        fp \<in> set (cf_buckets f ! i1) \<or> fp \<in> set (cf_buckets f ! alt_index sha (cf_num_buckets f) i1 fp))"

definition cuckoo_add ::
  "(bytes \<Rightarrow> bytes) \<Rightarrow> ('r \<Rightarrow> nat \<times> 'r) \<Rightarrow> bytes \<Rightarrow> 'r cuckoo \<Rightarrow> (bool, 'r cuckoo) outcome" where
  "cuckoo_add sha rng item f =
     (if cuckoo_has sha item f then (Inr False, f)
      else case fingerprint sha (cf_fp_len f) (cf_num_buckets f) item of (fp, i1) \<Rightarrow>
        (case cuckoo_insert sha (cf_num_buckets f) rng fp i1 (alt_index sha (cf_num_buckets f) i1 fp)
                (cf_buckets f) (cf_rng f) of
           (True, bs, r) \<Rightarrow> (Inr True, f\<lparr>cf_buckets := bs, cf_count := cf_count f + 1, cf_rng := r\<rparr>)
         | (False, bs, r) \<Rightarrow> (Inl FilterFull, f\<lparr>cf_buckets := bs, cf_rng := r\<rparr>)))"

definition cuckoo_contains :: "(bytes \<Rightarrow> bytes) \<Rightarrow> bytes \<Rightarrow> 'r cuckoo \<Rightarrow> (bool, 'r cuckoo) outcome" where
  "cuckoo_contains sha item f = (Inr (cuckoo_has sha item f), f)"

definition cuckoo_clear :: "'r cuckoo \<Rightarrow> 'r cuckoo" where
  "cuckoo_clear f = f\<lparr>cf_buckets := replicate (cf_num_buckets f) [], cf_count := 0\<rparr>"

definition cuckoo_remove :: "bytes \<Rightarrow> 'r cuckoo \<Rightarrow> (bool, 'r cuckoo) outcome" where
  "cuckoo_remove item f = (Inl NotImplementedError, f)"

section \<open>Indices stay in range and the alternate index is an involution\<close>

lemma and_mask_less: "0 < p \<Longrightarrow> x AND (2 ^ p - 1) < (2 :: nat) ^ p" for x :: nat
  by (metis mask_eq_exp_minus_1 take_bit_eq_mask take_bit_nat_less_exp)

lemma xor_less_power:
  fixes a b :: nat
  assumes "a < 2 ^ p" and "b < 2 ^ p"
  shows "a XOR b < 2 ^ p"
proof -
  have "take_bit p (a XOR b) = a XOR b" using assms by (simp add: take_bit_nat_eq_self take_bit_xor)
  then show ?thesis by (metis take_bit_nat_less_exp)
qed

lemma xor_cancel: "(a XOR b) XOR b = (a :: nat)"
  by (simp add: bit_eq_iff bit_xor_iff) blast

definition table_wf :: "nat \<Rightarrow> bytes list list \<Rightarrow> bool" where
  "table_wf m bs \<longleftrightarrow> (\<exists>p > 0. m = 2 ^ p) \<and> length bs = m \<and> (\<forall>b \<in> set bs. length b \<le> bucket_size)"

lemma table_wf_bucket: "table_wf m bs \<Longrightarrow> i < m \<Longrightarrow> length (bs ! i) \<le> bucket_size"
  by (simp add: table_wf_def)

lemma alt_index_less:
  assumes "table_wf m bs" and "i < m"
  shows "alt_index sha m i fp < m"
proof -
  obtain p where "0 < p" "m = 2 ^ p" using assms(1) by (auto simp: table_wf_def)
  with assms(2) and_mask_less [of p] show ?thesis
    unfolding alt_index_def hash_fp_def by (auto intro: xor_less_power)
qed

lemma alt_index_involution [simp]: "alt_index sha m (alt_index sha m i fp) fp = i"
  by (simp add: alt_index_def xor_cancel)

lemma fingerprint_less:
  assumes "table_wf m bs" and "fingerprint sha l m item = (fp, i)"
  shows "i < m"
proof -
  obtain p where "0 < p" "m = 2 ^ p" using assms(1) by (auto simp: table_wf_def)
  with assms(2) and_mask_less [of p] show ?thesis by (auto simp: fingerprint_def Let_def)
qed

section \<open>Evictions lose no fingerprint\<close>

definition covers :: "(bytes \<Rightarrow> bytes) \<Rightarrow> nat \<Rightarrow> bytes list list \<Rightarrow> bytes \<Rightarrow> nat \<Rightarrow> bool" where
  "covers sha m bs fp i \<longleftrightarrow> fp \<in> set (bs ! i) \<or> fp \<in> set (bs ! alt_index sha m i fp)"

text \<open>A fingerprint in hand, on its way to one of its two buckets.\<close>

definition in_hand :: "(bytes \<Rightarrow> bytes) \<Rightarrow> nat \<Rightarrow> bytes \<Rightarrow> nat \<Rightarrow> bytes \<Rightarrow> nat \<Rightarrow> bool" where
  "in_hand sha m fp index g i \<longleftrightarrow> g = fp \<and> (index = i \<or> index = alt_index sha m i g)"

lemma covers_append:
  assumes "index < length bs" and "covers sha m bs g i \<or> in_hand sha m fp index g i"
  shows "covers sha m (append_at index fp bs) g i"
  using assms by (auto simp: covers_def in_hand_def append_at_def nth_list_update)

lemma in_set_replaced:
  assumes "g \<in> set xs" and "g \<noteq> xs ! slot"
  shows "g \<in> set (xs[slot := x])"
proof -
  obtain j where j: "j < length xs" "xs ! j = g" using assms(1) by (auto simp: in_set_conv_nth)
  with assms(2) have "j \<noteq> slot" by auto
  then have "xs[slot := x] ! j = g" "j < length (xs[slot := x])" using j by simp_all
  then show ?thesis by (metis nth_mem)
qed

lemma covers_replace:
  assumes "index < length bs" and "slot < length (bs ! index)" and "e = bs ! index ! slot"
    and "covers sha m bs g i \<or> in_hand sha m fp index g i"
  shows "covers sha m (replace_at index slot fp bs) g i \<or> in_hand sha m e (alt_index sha m index e) g i"
proof (cases "g = e \<and> (index = i \<or> index = alt_index sha m i g)")
  case True
  then show ?thesis by (auto simp: in_hand_def)
next
  case False
  from assms(4) show ?thesis
  proof
    assume "covers sha m bs g i"
    then obtain j where j: "g \<in> set (bs ! j)" "j = i \<or> j = alt_index sha m i g" by (auto simp: covers_def)
    have "g \<in> set (replace_at index slot fp bs ! j)"
    proof (cases "j = index")
      case True
      with False j assms(3) have "g \<noteq> bs ! index ! slot" by auto
      with in_set_replaced j True assms(1) show ?thesis by (simp add: replace_at_def)
    qed (simp add: replace_at_def j)
    with j show ?thesis by (auto simp: covers_def)
  next
    assume "in_hand sha m fp index g i"
    then have "fp = g" "index = i \<or> index = alt_index sha m i g" by (auto simp: in_hand_def)
    moreover have "fp \<in> set (replace_at index slot fp bs ! index)"
      using assms(1,2) by (simp add: replace_at_def set_update_memI)
    ultimately show ?thesis by (auto simp: covers_def)
  qed
qed

lemma table_wf_replace: "table_wf m bs \<Longrightarrow> table_wf m (replace_at i slot x bs)"
  by (cases "i < length bs")
     (auto simp: table_wf_def replace_at_def list_update_beyond dest!: set_update_subset_insert [THEN subsetD])

lemma table_wf_append:
  "table_wf m bs \<Longrightarrow> i < m \<Longrightarrow> length (bs ! i) < bucket_size \<Longrightarrow> table_wf m (append_at i x bs)"
  by (auto simp: table_wf_def append_at_def dest!: set_update_subset_insert [THEN subsetD])

lemma kick_covers:
  assumes "kick sha m rng n fp index path bs r = (True, path', bs', r')"
    and "table_wf m bs" "index < m" "length (bs ! index) = bucket_size"
  shows "table_wf m bs' \<and> (\<forall>g i. covers sha m bs g i \<or> in_hand sha m fp index g i \<longrightarrow> covers sha m bs' g i)"
  using assms
proof (induction n arbitrary: fp index path bs r)
  case (Suc n)
  obtain slot r1 where s: "randrange rng bucket_size r = (slot, r1)" by fastforce
  then have slot: "slot < bucket_size" by (auto simp: randrange_def bucket_size_def split: prod.splits)
  define e where "e = bs ! index ! slot"
  define bs1 where "bs1 = replace_at index slot fp bs"
  define index1 where "index1 = alt_index sha m index e"
  have len: "index < length bs" "slot < length (bs ! index)" using Suc.prems slot by (auto simp: table_wf_def)
  have wf1: "table_wf m bs1" using Suc.prems(2) by (simp add: bs1_def table_wf_replace)
  have i1: "index1 < m" using alt_index_less [OF Suc.prems(2,3)] by (simp add: index1_def)
  have step: "covers sha m bs1 g i \<or> in_hand sha m e index1 g i" if "covers sha m bs g i \<or> in_hand sha m fp index g i" for g i
    using covers_replace [OF len e_def that] by (simp add: bs1_def index1_def)
  show ?case
  proof (cases "length (bs1 ! index1) < bucket_size")
    case True
    then have "bs' = append_at index1 e bs1"
      using Suc.prems(1) s by (simp add: Let_def e_def bs1_def index1_def)
    moreover have "index1 < length bs1" using wf1 i1 by (simp add: table_wf_def)
    ultimately show ?thesis using covers_append step table_wf_append [OF wf1 i1 True] by metis
  next
    case False
    then have k: "kick sha m rng n e index1 ((index, slot, e) # path) bs1 r1 = (True, path', bs', r')"
      using Suc.prems(1) s by (simp add: Let_def e_def bs1_def index1_def)
    have "length (bs1 ! index1) = bucket_size" using False table_wf_bucket [OF wf1 i1] by simp
    with Suc.IH [OF k wf1 i1] step show ?thesis by blast
  qed
qed simp

text \<open>A chain that finds no free slot is undone exactly.\<close>

lemma replace_at_back:
  "replace_at i slot (bs ! i ! slot) (replace_at i slot x bs) = bs"
  by (cases "i < length bs") (simp_all add: replace_at_def list_update_beyond)

lemma kick_undo:
  assumes "kick sha m rng n fp index path bs r = (False, path', bs', r')"
  shows "undo path' bs' = undo path bs"
  using assms
proof (induction n arbitrary: fp index path bs r)
  case (Suc n)
  obtain slot r1 where s: "randrange rng bucket_size r = (slot, r1)" by fastforce
  let ?e = "bs ! index ! slot" and ?bs1 = "replace_at index slot fp bs"
  have "kick sha m rng n ?e (alt_index sha m index ?e) ((index, slot, ?e) # path) ?bs1 r1 = (False, path', bs', r')"
    using Suc.prems s by (simp add: Let_def split: if_splits)
  from Suc.IH [OF this] show ?case by (simp add: replace_at_back)
qed simp

definition cuckoo_wf :: "'r cuckoo \<Rightarrow> bool" where
  "cuckoo_wf f \<longleftrightarrow> table_wf (cf_num_buckets f) (cf_buckets f)"

lemma cuckoo_has_covers:
  "cuckoo_has sha item f \<longleftrightarrow> (case fingerprint sha (cf_fp_len f) (cf_num_buckets f) item of
     (fp, i) \<Rightarrow> covers sha (cf_num_buckets f) (cf_buckets f) fp i)"
  by (simp add: cuckoo_has_def covers_def)

lemma cuckoo_insert_facts:
  assumes wf: "table_wf m bs" and i: "i1 < m" "i2 = alt_index sha m i1 fp"
    and ins: "cuckoo_insert sha m rng fp i1 i2 bs r = (ok, bs', r')"
  shows "table_wf m bs' \<and> (\<forall>g i. covers sha m bs g i \<longrightarrow> covers sha m bs' g i)
    \<and> (ok \<longrightarrow> covers sha m bs' fp i1) \<and> (\<not> ok \<longrightarrow> bs' = bs)"
proof -
  have i2: "i2 < m" using alt_index_less [OF wf i(1)] i(2) by simp
  have len: "length bs = m" using wf by (simp add: table_wf_def)
  have hand: "in_hand sha m fp i1 fp i1" "in_hand sha m fp i2 fp i1" using i(2) by (simp_all add: in_hand_def)
  show ?thesis
  proof (cases "length (bs ! i1) < bucket_size \<or> length (bs ! i2) < bucket_size")
    case True
    then obtain j where j: "j = i1 \<or> j = i2" "length (bs ! j) < bucket_size" "ok" "bs' = append_at j fp bs"
      using ins unfolding cuckoo_insert_def by (auto split: if_splits)
    then have "j < length bs" "in_hand sha m fp j fp i1" using i i2 len hand by auto
    with covers_append [of j bs] table_wf_append [OF wf] j len show ?thesis by auto
  next
    case False
    obtain ok1 path bs1 r1 where k: "kick sha m rng max_kicks fp i1 [] bs r = (ok1, path, bs1, r1)"
      using prod_cases4 by blast
    show ?thesis
    proof (cases ok1)
      case True
      have "length (bs ! i1) = bucket_size" using False table_wf_bucket [OF wf i(1)] by simp
      moreover have k': "kick sha m rng max_kicks fp i1 [] bs r = (True, path, bs1, r1)" using k True by simp
      ultimately have "table_wf m bs1"
        "covers sha m bs g i \<or> in_hand sha m fp i1 g i \<Longrightarrow> covers sha m bs1 g i" for g i
        using kick_covers [OF k' wf i(1)] by blast+
      with k' False ins hand show ?thesis by (auto simp: cuckoo_insert_def)
    next
      case ko: False
      with kick_undo k have "undo path bs1 = bs" by fastforce
      with k ko False ins wf show ?thesis by (auto simp: cuckoo_insert_def)
    qed
  qed
qed

lemma cuckoo_add_facts:
  assumes wf: "cuckoo_wf f" and add: "cuckoo_add sha rng x f = (r, f')"
  shows "cuckoo_wf f' \<and> (\<forall>y. cuckoo_has sha y f \<longrightarrow> cuckoo_has sha y f')
    \<and> (\<forall>b. r = Inr b \<longrightarrow> cuckoo_has sha x f' \<and> (b \<longleftrightarrow> \<not> cuckoo_has sha x f))
    \<and> (\<forall>e. r = Inl e \<longrightarrow> e = FilterFull \<and> cf_buckets f' = cf_buckets f \<and> cf_count f' = cf_count f)"
proof (cases "cuckoo_has sha x f")
  case True
  with add wf show ?thesis by (auto simp: cuckoo_add_def)
next
  case False
  let ?m = "cf_num_buckets f"
  obtain fp i1 where fp: "fingerprint sha (cf_fp_len f) ?m x = (fp, i1)" by fastforce
  obtain ok bs r1 where ins: "cuckoo_insert sha ?m rng fp i1 (alt_index sha ?m i1 fp) (cf_buckets f) (cf_rng f) = (ok, bs, r1)"
    using prod_cases3 by blast
  have wf': "table_wf ?m (cf_buckets f)" using wf by (simp add: cuckoo_wf_def)
  note facts = cuckoo_insert_facts [OF wf' fingerprint_less [OF wf' fp] refl ins]
  have f': "cf_num_buckets f' = ?m" "cf_fp_len f' = cf_fp_len f" "cf_buckets f' = bs"
    and r: "r = (if ok then Inr True else Inl FilterFull)" "\<not> ok \<longrightarrow> cf_count f' = cf_count f"
    using add False fp ins by (auto simp: cuckoo_add_def split: bool.splits)
  show ?thesis
    using facts False r fp unfolding cuckoo_has_covers cuckoo_wf_def f' by (auto split: prod.splits if_splits)
qed

interpretation cuckoo: membership_filter "cuckoo_add sha rng" "cuckoo_contains sha" "cuckoo_has sha" cuckoo_wf
  for sha rng
proof
  show "cuckoo_has sha x f \<longleftrightarrow> fst (cuckoo_contains sha x f) = Inr True" for x f
    by (simp add: cuckoo_contains_def)
  show "cuckoo_has sha x f' \<and> (b \<longleftrightarrow> \<not> cuckoo_has sha x f)"
    if "cuckoo_wf f" "cuckoo_add sha rng x f = (Inr b, f')" for x f b f'
    using cuckoo_add_facts [OF that] by simp
  show "cuckoo_wf f' \<and> (\<forall>y. cuckoo_has sha y f \<longrightarrow> cuckoo_has sha y f')"
    if "cuckoo_wf f" "cuckoo_add sha rng x f = (r, f')" for x f r f'
    using cuckoo_add_facts [OF that] by simp
  show "cuckoo_wf f' \<and> (\<forall>y. cuckoo_has sha y f \<longrightarrow> cuckoo_has sha y f')"
    if "cuckoo_wf f" "cuckoo_contains sha x f = (r, f')" for x f r f'
    using that by (simp add: cuckoo_contains_def)
qed

lemma grow_buckets_power: "\<exists>q > 0. grow_buckets ideal (2 ^ Suc p) = 2 ^ q"
proof (induction "nat (ideal - 2 ^ Suc p)" arbitrary: p rule: less_induct)
  case less
  show ?case
  proof (cases "2 ^ Suc p < ideal")
    case True
    then have "nat (ideal - 2 ^ Suc (Suc p)) < nat (ideal - 2 ^ Suc p)" by simp
    from less [OF this] True show ?thesis by (subst grow_buckets.simps) simp
  next
    case False
    then show ?thesis by (subst grow_buckets.simps) (auto intro: exI [of _ "Suc p"])
  qed
qed

lemma grow_buckets_reaches: "0 < m \<Longrightarrow> ideal \<le> int (grow_buckets ideal m)"
  by (induction ideal m rule: grow_buckets.induct) (subst grow_buckets.simps, auto)

lemma cuckoo_init_wf:
  assumes "cuckoo_init seed capacity p = Inr f"
  shows "cuckoo_wf f"
proof -
  obtain ideal where "cf_num_buckets f = grow_buckets ideal 2" "cf_buckets f = replicate (cf_num_buckets f) []"
    using assms by (auto simp: cuckoo_init_def Let_def rbind_eq_Inr_iff split: if_splits pyfloat.splits option.splits sum.splits)
  then show ?thesis using grow_buckets_power [of ideal 0] by (auto simp: cuckoo_wf_def table_wf_def)
qed

section \<open>Properties\<close>

text \<open>
  No false negatives (cuckoo): from construction on, over any sequence of adds and membership
  tests, for every hash function and every generator, and even when adds raise \<open>FilterFull\<close> in
  between, every item whose \<open>add\<close> returned is reported as present, and adding it again says
  "duplicate": evictions move fingerprints only between their own two buckets.
\<close>

lemma cuckoo_no_false_negatives:
  assumes "cuckoo_init seed capacity p = Inr f"
    and "run_filter (cuckoo_add sha rng) (cuckoo_contains sha) ops f = (added, g)" and "x \<in> set added"
  shows "fst (cuckoo_contains sha x g) = Inr True \<and> (\<forall>b g'. cuckoo_add sha rng x g = (Inr b, g') \<longrightarrow> \<not> b)"
  by (rule cuckoo.no_false_negatives [OF cuckoo_init_wf [OF assms(1)] assms(2,3)])

text \<open>A small table: two buckets, and a hash that sends every fingerprint of an even byte to the first.\<close>

definition cuckoo_demo :: "bytes list list \<Rightarrow> nat \<Rightarrow> unit cuckoo" where
  "cuckoo_demo bs n = \<lparr>cf_num_buckets = 2, cf_fp_len = 1, cf_buckets = bs, cf_count = n, cf_capacity = 4, cf_rng = ()\<rparr>"

lemma cuckoo_demo_init: "cuckoo_init () 4 (Fin (1/16)) = Inr (cuckoo_demo [[], []] 0)"
proof -
  have "1 / target_load \<le> 2" "0 \<le> 1 / target_load" by (simp_all add: target_load_def)
  from round_double_below [OF this(2,1)] obtain y where y: "round_double (1 / target_load) = Fin y" "y \<le> 2" by auto
  have "fdiv 4 4 = Fin 1" by (simp add: fdiv_def)
  then have i: "ideal_buckets 4 = Inr \<lceil>y\<rceil>" using y by (simp add: ideal_buckets_def bucket_size_def fdiv_def)
  have "\<lceil>y\<rceil> \<le> 2" using y(2) by (simp add: ceiling_le_iff)
  then have "grow_buckets \<lceil>y\<rceil> 2 = 2" by (subst grow_buckets.simps) simp
  moreover have "fingerprint_length (1/16) = Some 1"
    by (simp add: fingerprint_length_def byte_threshold_def bucket_size_def upt_rec)
  ultimately show ?thesis using i by (simp add: cuckoo_init_def cuckoo_demo_def numeral_2_eq_2)
qed

text \<open>
  C24. A full filter is unchanged: when \<open>add\<close> raises, it raises \<open>FilterFull\<close>, both buckets of the
  item were full, and after up to 500 evictions the table and the count are exactly those before the
  call; only the generator has moved.
\<close>

theorem cuckoo_full_is_atomic:
  assumes "cuckoo_wf f" and "cuckoo_add sha rng x f = (Inl e, f')"
    and "fingerprint sha (cf_fp_len f) (cf_num_buckets f) x = (fp, i)"
  shows "e = FilterFull \<and> f' = f\<lparr>cf_rng := cf_rng f'\<rparr> \<and> length (cf_buckets f ! i) = bucket_size
    \<and> length (cf_buckets f ! alt_index sha (cf_num_buckets f) i fp) = bucket_size"
proof -
  let ?m = "cf_num_buckets f"
  have wf: "table_wf ?m (cf_buckets f)" using assms(1) by (simp add: cuckoo_wf_def)
  have i: "i < ?m" "alt_index sha ?m i fp < ?m"
    using fingerprint_less [OF wf assms(3)] alt_index_less [OF wf] by auto
  have "bs = cf_buckets f" if "cuckoo_insert sha ?m rng fp i (alt_index sha ?m i fp) (cf_buckets f) (cf_rng f) = (False, bs, r)"
    for bs r using cuckoo_insert_facts [OF wf i(1) refl that] by simp
  moreover have "length (cf_buckets f ! j) = bucket_size" if "\<not> length (cf_buckets f ! j) < bucket_size" "j < ?m" for j
    using table_wf_bucket [OF wf that(2)] that(1) by simp
  ultimately show ?thesis
    using assms(2,3) i unfolding cuckoo_add_def
    by (auto simp: cuckoo_insert_def split: if_splits prod.splits bool.splits)
qed

text \<open>Every draw picks the first slot; \<open>2\<close> and \<open>10\<close> take turns in it until the evictions run out.\<close>

lemma kick_demo:
  assumes "fp \<in> {[2], [10]}" and "a \<in> {[2], [10]}"
  shows "fst (kick last_byte 2 (Pair 0) n fp 0 path [[a, [4], [6], [8]], []] ()) = False"
  using assms
proof (induction n arbitrary: fp a path)
  case (Suc n)
  have "alt_index last_byte 2 0 [2] = 0" "alt_index last_byte 2 0 [10] = 0" by code_simp+
  then have "alt_index last_byte 2 0 a = 0" using Suc.prems by auto
  with Suc show ?case by (simp add: randrange_def replace_at_def bucket_size_def Let_def)
qed simp

theorem cuckoo_full_is_atomic_witness:
  "\<exists>f'. cuckoo_add last_byte (Pair 0) [10] (cuckoo_demo [[[2], [4], [6], [8]], []] 4) = (Inl FilterFull, f')
     \<and> f' = cuckoo_demo [[[2], [4], [6], [8]], []] 4"
proof -
  let ?f = "cuckoo_demo [[[2], [4], [6], [8]], []] 4"
  have fp: "fingerprint last_byte (cf_fp_len ?f) (cf_num_buckets ?f) [10] = ([10], 0)" by code_simp
  have alt: "alt_index last_byte (cf_num_buckets ?f) 0 [10] = 0" by code_simp
  have wf: "cuckoo_wf ?f"
    by (auto simp: cuckoo_wf_def table_wf_def cuckoo_demo_def bucket_size_def intro: exI [of _ 1])
  obtain r f' where add: "cuckoo_add last_byte (Pair 0) [10] ?f = (r, f')" by fastforce
  have "\<exists>e. r = Inl e"
    using add fp alt kick_demo [of "[10]" "[2]" max_kicks "[]"]
    by (auto simp: cuckoo_add_def cuckoo_has_def cuckoo_insert_def cuckoo_demo_def bucket_size_def
        split: prod.splits bool.splits if_splits)
  then obtain e where "r = Inl e" ..
  with add cuckoo_full_is_atomic [OF wf _ fp] show ?thesis by (auto simp: cuckoo_demo_def)
qed

end
