(* ===== verification/Filter_Factory.thy ===== *)
theory Filter_Factory
  imports Memory_Filter Bloom_Filter Cuckoo_Filter
begin

text \<open>
  The selection of a membership filter, \<open>dupefilter/filters/factory.py\<close>, and the filter a
  dupefilter then holds: one of the four strategies, behind the common interface. The module-level
  set of strategies already warned about is threaded explicitly; the log record itself is not
  modelled.

  The state of a call is the filter object together with the store the set backend works on, which
  only the \<open>set\<close> strategy touches.
\<close>

section \<open>Selection\<close>

datatype dedupe_strategy = SET | MEMORY | BLOOM | CUCKOO

definition dedupe_strategy_of :: "string \<Rightarrow> dedupe_strategy result" where
  "dedupe_strategy_of v =
     (if v = ''set'' then Inr SET else if v = ''memory'' then Inr MEMORY
      else if v = ''bloom'' then Inr BLOOM else if v = ''cuckoo'' then Inr CUCKOO else Inl ValueError)"

definition per_process :: "dedupe_strategy \<Rightarrow> bool" where
  "per_process st \<longleftrightarrow> st \<in> {MEMORY, BLOOM, CUCKOO}"

definition warn_per_process_scope :: "dedupe_strategy \<Rightarrow> dedupe_strategy set \<Rightarrow> dedupe_strategy set" where
  "warn_per_process_scope st warned = (if \<not> per_process st then warned else insert st warned)"

datatype 'r membership_filter_obj =
    SetFilter string
  | MemoryFilter memory_filter
  | BloomFilter bloom
  | CuckooFilter "'r cuckoo"

record filter_options =
  fo_key :: string
  fo_memory_maxsize :: pyval
  fo_bloom_capacity :: pyval
  fo_bloom_error_rate :: pyval
  fo_cuckoo_capacity :: int
  fo_cuckoo_error_rate :: pyfloat
  fo_strict :: bool

text \<open>\<open>manager\<close> says whether a connection manager was given, \<open>fits\<close> and \<open>seed\<close> are those of the constructors.\<close>

definition build_membership_filter ::
  "(rat \<Rightarrow> nat \<Rightarrow> nat \<Rightarrow> nat \<Rightarrow> bool) \<Rightarrow> 'r \<Rightarrow> dedupe_strategy \<Rightarrow> bool \<Rightarrow> filter_options \<Rightarrow> dedupe_strategy set
    \<Rightarrow> ('r membership_filter_obj, dedupe_strategy set) outcome" where
  "build_membership_filter fits seed st manager opts warned =
     (if fo_strict opts \<and> per_process st then (Inl ConfigurationError, warned)
      else (case st of
          SET \<Rightarrow> if manager then Inr (SetFilter (fo_key opts)) else Inl ConfigurationError
        | MEMORY \<Rightarrow> rbind (memory_init (fo_memory_maxsize opts)) (\<lambda>f. Inr (MemoryFilter f))
        | BLOOM \<Rightarrow> rbind (bloom_init fits (fo_bloom_capacity opts) (fo_bloom_error_rate opts)) (\<lambda>f. Inr (BloomFilter f))
        | CUCKOO \<Rightarrow> rbind (cuckoo_init seed (fo_cuckoo_capacity opts) (fo_cuckoo_error_rate opts)) (\<lambda>f. Inr (CuckooFilter f)),
        warn_per_process_scope st warned))"

section \<open>The interface\<close>

definition lift_outcome :: "('f \<Rightarrow> 'g) \<Rightarrow> ('a, 'f) outcome \<Rightarrow> ('a, 'g) outcome" where
  "lift_outcome E res = (case res of (r, f') \<Rightarrow> (r, E f'))"

fun filter_add ::
  "(bytes \<Rightarrow> bytes) \<Rightarrow> ('r \<Rightarrow> nat \<times> 'r) \<Rightarrow> 's set_backend \<Rightarrow> bytes \<Rightarrow> 'r membership_filter_obj \<times> 's
    \<Rightarrow> (bool, 'r membership_filter_obj \<times> 's) outcome" where
  "filter_add sha rng B x (SetFilter key, s) = lift_outcome (Pair (SetFilter key)) (set_add B key x s)"
| "filter_add sha rng B x (MemoryFilter f, s) = lift_outcome (\<lambda>f. (MemoryFilter f, s)) (memory_add x f)"
| "filter_add sha rng B x (BloomFilter f, s) = lift_outcome (\<lambda>f. (BloomFilter f, s)) (bloom_add sha x f)"
| "filter_add sha rng B x (CuckooFilter f, s) = lift_outcome (\<lambda>f. (CuckooFilter f, s)) (cuckoo_add sha rng x f)"

fun filter_contains ::
  "(bytes \<Rightarrow> bytes) \<Rightarrow> 's set_backend \<Rightarrow> bytes \<Rightarrow> 'r membership_filter_obj \<times> 's
    \<Rightarrow> (bool, 'r membership_filter_obj \<times> 's) outcome" where
  "filter_contains sha B x (SetFilter key, s) = lift_outcome (Pair (SetFilter key)) (set_contains B key x s)"
| "filter_contains sha B x (MemoryFilter f, s) = lift_outcome (\<lambda>f. (MemoryFilter f, s)) (memory_contains x f)"
| "filter_contains sha B x (BloomFilter f, s) = lift_outcome (\<lambda>f. (BloomFilter f, s)) (bloom_contains sha x f)"
| "filter_contains sha B x (CuckooFilter f, s) = lift_outcome (\<lambda>f. (CuckooFilter f, s)) (cuckoo_contains sha x f)"

section \<open>Every selectable filter honours the contract\<close>

text \<open>
  What is relied on of a \<open>SetBackend\<close>, as its interface documents it: \<open>add\<close> says whether the item
  was new and stores it, \<open>contains\<close> tells membership and changes nothing; either may raise, which
  removes nothing.
\<close>

definition honest_set :: "'s set_backend \<Rightarrow> (string \<Rightarrow> 's \<Rightarrow> bytes set) \<Rightarrow> bool" where
  "honest_set B members \<longleftrightarrow>
     (\<forall>key x s b s'. sb_add B key x s = (Inr b, s') \<longrightarrow> (b \<longleftrightarrow> x \<notin> members key s) \<and> members key s' = insert x (members key s))
   \<and> (\<forall>key x s e s'. sb_add B key x s = (Inl e, s') \<longrightarrow> members key s \<subseteq> members key s')
   \<and> (\<forall>key x s. sb_contains B key x s = (Inr (x \<in> members key s), s))"

fun filter_reports ::
  "(bytes \<Rightarrow> bytes) \<Rightarrow> (string \<Rightarrow> 's \<Rightarrow> bytes set) \<Rightarrow> bytes \<Rightarrow> 'r membership_filter_obj \<times> 's \<Rightarrow> bool" where
  "filter_reports sha members x (SetFilter key, s) \<longleftrightarrow> x \<in> members key s"
| "filter_reports sha members x (MemoryFilter f, s) \<longleftrightarrow> x \<in> set (mf_data f)"
| "filter_reports sha members x (BloomFilter f, s) \<longleftrightarrow> bloom_reports sha x f"
| "filter_reports sha members x (CuckooFilter f, s) \<longleftrightarrow> cuckoo_has sha x f"

fun filter_wf :: "'r membership_filter_obj \<times> 's \<Rightarrow> bool" where
  "filter_wf (SetFilter key, s) \<longleftrightarrow> True"
| "filter_wf (MemoryFilter f, s) \<longleftrightarrow> memory_wf f \<and> mf_maxsize f = None"
| "filter_wf (BloomFilter f, s) \<longleftrightarrow> bloom_wf f"
| "filter_wf (CuckooFilter f, s) \<longleftrightarrow> cuckoo_wf f"

lemma lift_outcome_eq [simp]: "lift_outcome E res = (r, g) \<longleftrightarrow> (\<exists>f'. res = (r, f') \<and> g = E f')"
  by (auto simp: lift_outcome_def split: prod.splits)

lemma fst_lift_outcome [simp]: "fst (lift_outcome E res) = fst res"
  by (simp add: lift_outcome_def split: prod.splits)

lemma set_filter_contract:
  assumes "honest_set B members"
  shows "membership_filter (set_add B key) (set_contains B key) (\<lambda>x s. x \<in> members key s) (\<lambda>_. True)"
proof
  show "x \<in> members key s' \<and> (b \<longleftrightarrow> x \<notin> members key s)" if "set_add B key x s = (Inr b, s')" for x s b s'
    using assms that unfolding honest_set_def set_add_def by blast
  show "True \<and> (\<forall>y. y \<in> members key s \<longrightarrow> y \<in> members key s')" if "set_add B key x s = (r, s')" for x s r s'
    using assms that unfolding honest_set_def set_add_def by (cases r) blast+
qed (use assms in \<open>auto simp: honest_set_def set_contains_def\<close>)

text \<open>A contract carries over along an embedding of the filter's state into a larger one.\<close>

definition honours ::
  "(bytes \<Rightarrow> 'f \<Rightarrow> (bool, 'f) outcome) \<Rightarrow> (bytes \<Rightarrow> 'f \<Rightarrow> (bool, 'f) outcome) \<Rightarrow> (bytes \<Rightarrow> 'f \<Rightarrow> bool) \<Rightarrow> ('f \<Rightarrow> bool)
    \<Rightarrow> 'f \<Rightarrow> bool" where
  "honours add contains reports ok f \<longleftrightarrow>
     (ok f \<longrightarrow> (\<forall>x. reports x f \<longleftrightarrow> fst (contains x f) = Inr True)
       \<and> (\<forall>x b g. add x f = (Inr b, g) \<longrightarrow> reports x g \<and> (b \<longleftrightarrow> \<not> reports x f))
       \<and> (\<forall>x r g. add x f = (r, g) \<longrightarrow> ok g \<and> (\<forall>y. reports y f \<longrightarrow> reports y g))
       \<and> (\<forall>x r g. contains x f = (r, g) \<longrightarrow> ok g \<and> (\<forall>y. reports y f \<longrightarrow> reports y g)))"

lemma membership_filter_iff_honours:
  "membership_filter add contains reports ok \<longleftrightarrow> (\<forall>f. honours add contains reports ok f)"
  unfolding membership_filter_def honours_def by blast

lemma honours_lift:
  assumes "membership_filter add contains reports ok"
    and "\<And>x f. add' x (E f) = lift_outcome E (add x f)" and "\<And>x f. contains' x (E f) = lift_outcome E (contains x f)"
    and "\<And>x f. reports' x (E f) = reports x f" and "\<And>f. ok' (E f) = ok f"
  shows "honours add' contains' reports' ok' (E f)"
proof -
  have laws: "fst (contains x f) = Inr True \<longleftrightarrow> reports x f"
    "add x f = (Inr b, f') \<Longrightarrow> reports x f'" "add x f = (Inr b, f') \<Longrightarrow> b \<longleftrightarrow> \<not> reports x f"
    "add x f = (r, f') \<Longrightarrow> ok f'" "add x f = (r, f') \<Longrightarrow> reports y f \<Longrightarrow> reports y f'"
    "contains x f = (r, f') \<Longrightarrow> ok f'" "contains x f = (r, f') \<Longrightarrow> reports y f \<Longrightarrow> reports y f'"
    if "ok f" for x b r f' y
    using that assms(1) unfolding membership_filter_def by blast+
  show ?thesis unfolding honours_def
  proof (intro impI conjI allI)
    assume "ok' (E f)"
    then have ok: "ok f" by (simp add: assms(5))
    show "reports' x (E f) \<longleftrightarrow> fst (contains' x (E f)) = Inr True" for x
      by (simp add: assms(3,4) laws(1) [OF ok])
    fix x b r g y
    show "reports' x g" "b \<longleftrightarrow> \<not> reports' x (E f)" if a: "add' x (E f) = (Inr b, g)"
    proof -
      obtain f' where f': "add x f = (Inr b, f')" "g = E f'" using a by (auto simp: assms(2))
      then show "reports' x g" "b \<longleftrightarrow> \<not> reports' x (E f)"
        using laws(2) [OF ok f'(1)] laws(3) [OF ok f'(1)] by (simp_all add: assms(4))
    qed
    show "ok' g" if "add' x (E f) = (r, g)" using that laws(4) [OF ok] by (auto simp: assms(2,5))
    show "reports' y g" if "add' x (E f) = (r, g)" "reports' y (E f)"
      using that laws(5) [OF ok] by (auto simp: assms(2,4))
    show "ok' g" if "contains' x (E f) = (r, g)" using that laws(6) [OF ok] by (auto simp: assms(3,5))
    show "reports' y g" if "contains' x (E f) = (r, g)" "reports' y (E f)"
      using that laws(7) [OF ok] by (auto simp: assms(3,4))
  qed
qed

lemma selected_filter_contract:
  assumes "honest_set B members"
  shows "membership_filter (filter_add sha rng B) (filter_contains sha B) (filter_reports sha members) filter_wf"
  unfolding membership_filter_iff_honours
proof
  fix fs :: "'b membership_filter_obj \<times> 'a"
  obtain f s where fs: "fs = (f, s)" by fastforce
  show "honours (filter_add sha rng B) (filter_contains sha B) (filter_reports sha members) filter_wf fs"
    unfolding fs
  proof (cases f)
    case (SetFilter key)
    show "honours (filter_add sha rng B) (filter_contains sha B) (filter_reports sha members) filter_wf (f, s)"
      unfolding SetFilter by (rule honours_lift [OF set_filter_contract [OF assms, of key], where E = "Pair (SetFilter key)"]) simp_all
  next
    case (MemoryFilter g)
    show "honours (filter_add sha rng B) (filter_contains sha B) (filter_reports sha members) filter_wf (f, s)"
      unfolding MemoryFilter by (rule honours_lift [OF memory.membership_filter_axioms, where E = "\<lambda>f. (MemoryFilter f, s)"]) simp_all
  next
    case (BloomFilter g)
    show "honours (filter_add sha rng B) (filter_contains sha B) (filter_reports sha members) filter_wf (f, s)"
      unfolding BloomFilter by (rule honours_lift [OF bloom.membership_filter_axioms [of sha], where E = "\<lambda>f. (BloomFilter f, s)"]) simp_all
  next
    case (CuckooFilter g)
    show "honours (filter_add sha rng B) (filter_contains sha B) (filter_reports sha members) filter_wf (f, s)"
      unfolding CuckooFilter by (rule honours_lift [OF cuckoo.membership_filter_axioms [of sha rng], where E = "\<lambda>f. (CuckooFilter f, s)"]) simp_all
  qed
qed

lemma built_filter_wf:
  assumes "build_membership_filter fits seed st manager opts warned = (Inr f, warned')"
    and "st = MEMORY \<Longrightarrow> fo_memory_maxsize opts = PyNone"
  shows "filter_wf (f, s)"
proof (cases st)
  case BLOOM
  then obtain g where "bloom_init fits (fo_bloom_capacity opts) (fo_bloom_error_rate opts) = Inr g" "f = BloomFilter g"
    using assms(1) by (auto simp: build_membership_filter_def rbind_eq_Inr_iff split: if_splits)
  then show ?thesis using bloom_init_wf by simp
next
  case CUCKOO
  then obtain g where "cuckoo_init seed (fo_cuckoo_capacity opts) (fo_cuckoo_error_rate opts) = Inr g" "f = CuckooFilter g"
    using assms(1) by (auto simp: build_membership_filter_def rbind_eq_Inr_iff split: if_splits)
  then show ?thesis using cuckoo_init_wf by simp
qed (use assms in \<open>auto simp: build_membership_filter_def rbind_eq_Inr_iff memory_init_def memory_wf_def split: if_splits\<close>)

section \<open>Properties\<close>

text \<open>
  C7. Whatever the settings select, no request passes twice: a filter the factory builds (for the
  memory strategy without a bound, which forgets on purpose) reports every item whose \<open>add\<close>
  returned, after any further adds and tests and in spite of calls that raise, and adding it again
  says "duplicate"; for the \<open>set\<close> strategy this holds over every backend that stores what is added.
\<close>

theorem built_filter_never_forgets:
  assumes "build_membership_filter fits seed st manager opts warned = (Inr f, warned')"
    and "st = MEMORY \<Longrightarrow> fo_memory_maxsize opts = PyNone" and "honest_set B members"
    and "run_filter (filter_add sha rng B) (filter_contains sha B) ops (f, s) = (added, g)" and "x \<in> set added"
  shows "fst (filter_contains sha B x g) = Inr True \<and> (\<forall>b g'. filter_add sha rng B x g = (Inr b, g') \<longrightarrow> \<not> b)"
  by (rule membership_filter.no_false_negatives
      [OF selected_filter_contract [OF assms(3)] built_filter_wf [OF assms(1,2)] assms(4,5)])

text \<open>An in-process store: one set of items under every key.\<close>

definition demo_set_backend :: "(string \<Rightarrow> bytes set) set_backend" where
  "demo_set_backend = \<lparr>
     sb_add = (\<lambda>key x s. (Inr (x \<notin> s key), s(key := insert x (s key)))),
     sb_contains = (\<lambda>key x s. (Inr (x \<in> s key), s)),
     sb_set_len = (\<lambda>key s. (Inr (card (s key)), s)),
     sb_clear_set = (\<lambda>key s. (Inr (), s(key := {}))),
     sb_remove = (\<lambda>key x s. (Inr (x \<in> s key), s(key := s key - {x})))\<rparr>"

definition demo_options :: filter_options where
  "demo_options = \<lparr>fo_key = ''dupefilter'', fo_memory_maxsize = PyNone, fo_bloom_capacity = PyInt 4,
     fo_bloom_error_rate = PyFloat (Fin (1/16)), fo_cuckoo_capacity = 4, fo_cuckoo_error_rate = Fin (1/16),
     fo_strict = True\<rparr>"

theorem built_filter_never_forgets_witness:
  "fst (filter_contains id demo_set_backend [1]
     (SetFilter ''dupefilter'' :: unit membership_filter_obj, (\<lambda>_. {})(''dupefilter'' := {[2], [1]}))) = Inr True"
proof -
  have b: "build_membership_filter (\<lambda>_ _ _ _. True) () SET True demo_options {} = (Inr (SetFilter ''dupefilter''), {})"
    by (simp add: build_membership_filter_def demo_options_def per_process_def warn_per_process_scope_def)
  have h: "honest_set demo_set_backend (\<lambda>key s. s key)" by (simp add: honest_set_def demo_set_backend_def)
  have "run_filter (filter_add id (Pair 0) demo_set_backend) (filter_contains id demo_set_backend)
      [Add [1], Ask [3], Add [2]] (SetFilter ''dupefilter'', \<lambda>_. {})
    = ([[1], [2]], SetFilter ''dupefilter'', (\<lambda>_. {})(''dupefilter'' := {[2], [1]}))"
    by (simp add: lift_outcome_def set_add_def set_contains_def demo_set_backend_def)
  from built_filter_never_forgets [OF b _ h this, of "[1]"] show ?thesis by simp
qed

text \<open>
  Strict mode: with \<open>SCRAPY_DEDUP_STRICT\<close> the factory only ever builds the shared set filter; a
  per-process strategy is refused with a \<open>ConfigurationError\<close>, before anything is built or recorded
  as warned. Without it, a filter that is not shared between workers is never built without its
  strategy being recorded for the warning.
\<close>

lemma strict_builds_only_shared:
  assumes "build_membership_filter fits seed st manager opts warned = (r, warned')"
  shows "(fo_strict opts \<longrightarrow> (r = Inr (SetFilter (fo_key opts)) \<and> manager \<or> r = Inl ConfigurationError) \<and> warned' = warned)
    \<and> (\<forall>f. r = Inr f \<and> (\<forall>key. f \<noteq> SetFilter key) \<longrightarrow> st \<in> warned')"
  using assms
  by (cases st)
     (auto simp: build_membership_filter_def per_process_def warn_per_process_scope_def rbind_eq_Inr_iff split: if_splits)

end
