(* ===== verification/Circuit_Breaker.thy ===== *)
theory Circuit_Breaker
  imports Prelude
begin

text \<open>
  The circuit breaker \<open>backends/circuit_breaker.py\<close>: a three-state machine (closed, open, half-open)
  around the hot-path calls to a backend, shared by threads. A call is admitted under the lock, runs
  outside it, and its outcome is recorded under the lock again; the transition epoch an admission
  carries fences outcomes that arrive late.

  The monotonic clock is the parameter \<open>clock\<close> and the transition observer the parameter \<open>observe\<close>, on
  the state of the world. What runs between admission and recording, other threads included, may
  change the breaker: \<open>func\<close> therefore takes it and returns it. The exception classes that count as
  backend failures are the predicate \<open>cb_counts\<close> of the configuration.
\<close>

section \<open>State\<close>

datatype breaker_state = CLOSED | OPEN | HALF_OPEN

type_synonym admission = "breaker_state \<times> nat"

record breaker =
  cb_threshold :: nat
  cb_reset_timeout :: rat
  cb_counts :: "exn \<Rightarrow> bool"
  cb_state :: breaker_state
  cb_failures :: nat
  cb_last_failure :: "rat option"
  cb_epoch :: nat
  cb_probe :: bool
  cb_probe_started :: "rat option"
  cb_pending :: "breaker_state list"

definition max_reset_timeout :: rat where
  "max_reset_timeout = 3600"

definition fresh_breaker :: "nat \<Rightarrow> rat \<Rightarrow> (exn \<Rightarrow> bool) \<Rightarrow> breaker" where
  "fresh_breaker n r counts =
     \<lparr>cb_threshold = n, cb_reset_timeout = r, cb_counts = counts, cb_state = CLOSED, cb_failures = 0,
      cb_last_failure = None, cb_epoch = 0, cb_probe = False, cb_probe_started = None, cb_pending = []\<rparr>"

text \<open>\<open>math.isfinite\<close> raises on what is not a number and on an integer beyond the doubles.\<close>

fun reset_timeout_value :: "pyval \<Rightarrow> rat result" where
  "reset_timeout_value (PyBool _) = Inl ValueError"
| "reset_timeout_value (PyInt n) = (case float_of_int n of Inl e \<Rightarrow> Inl e | Inr _ \<Rightarrow> Inr (of_int n))"
| "reset_timeout_value (PyFloat (Fin x)) = Inr x"
| "reset_timeout_value (PyFloat _) = Inl ValueError"
| "reset_timeout_value _ = Inl TypeError"

definition breaker_init :: "pyval \<Rightarrow> pyval \<Rightarrow> (exn \<Rightarrow> bool) \<Rightarrow> breaker result" where
  "breaker_init failure_threshold reset_timeout counts =
     (case failure_threshold of
        PyInt n \<Rightarrow>
          (if n < 1 then Inl ValueError
           else rbind (reset_timeout_value reset_timeout) (\<lambda>r.
             if r < 0 then Inl ValueError
             else if max_reset_timeout < r then Inl ValueError
             else Inr (fresh_breaker (nat n) r counts)))
      | _ \<Rightarrow> Inl ValueError)"

definition breaker_reset :: "breaker \<Rightarrow> breaker" where
  "breaker_reset b = b\<lparr>
     cb_pending := (if cb_state b \<noteq> CLOSED then cb_pending b @ [CLOSED] else cb_pending b),
     cb_state := CLOSED, cb_epoch := cb_epoch b + 1, cb_failures := 0, cb_last_failure := None,
     cb_probe := False, cb_probe_started := None\<rparr>"

definition new_generation :: "breaker \<Rightarrow> breaker" where
  "new_generation b = fresh_breaker (cb_threshold b) (cb_reset_timeout b) (cb_counts b)"

text \<open>Drain the pending transitions to the observer, whose failures are swallowed.\<close>

definition notify_pending :: "(breaker_state \<Rightarrow> 's \<Rightarrow> 's) \<Rightarrow> breaker \<Rightarrow> 's \<Rightarrow> breaker \<times> 's" where
  "notify_pending observe b s = (b\<lparr>cb_pending := []\<rparr>, fold observe (cb_pending b) s)"

section \<open>Admission and outcomes\<close>

text \<open>The test \<open>(now - since) >= reset_timeout\<close>, in double arithmetic.\<close>

definition elapsed :: "rat \<Rightarrow> rat \<Rightarrow> rat \<Rightarrow> bool" where
  "elapsed now since timeout \<longleftrightarrow> \<not> fless (fsub now since) (Fin timeout)"

definition to_state :: "breaker_state \<Rightarrow> breaker \<Rightarrow> breaker" where
  "to_state st b = b\<lparr>cb_state := st, cb_epoch := cb_epoch b + 1, cb_pending := cb_pending b @ [st]\<rparr>"

definition claim_probe :: "rat \<Rightarrow> breaker \<Rightarrow> breaker" where
  "claim_probe now b = b\<lparr>cb_probe := True, cb_probe_started := Some now\<rparr>"

definition free_probe :: "breaker \<Rightarrow> breaker" where
  "free_probe b = b\<lparr>cb_probe := False, cb_probe_started := None\<rparr>"

definition allow_call :: "('s \<Rightarrow> rat \<times> 's) \<Rightarrow> breaker \<Rightarrow> 's \<Rightarrow> admission \<times> breaker \<times> 's" where
  "allow_call clock b s =
     (case cb_state b of
        CLOSED \<Rightarrow> ((CLOSED, cb_epoch b), b, s)
      | OPEN \<Rightarrow>
          (case clock s of (now, s') \<Rightarrow>
             if (case cb_last_failure b of None \<Rightarrow> False | Some t \<Rightarrow> elapsed now t (cb_reset_timeout b)) then
               (let b' = claim_probe now (to_state HALF_OPEN b) in ((HALF_OPEN, cb_epoch b'), b', s'))
             else ((OPEN, cb_epoch b), b, s'))
      | HALF_OPEN \<Rightarrow>
          (if cb_probe b then
             (case cb_probe_started b of
                Some t \<Rightarrow>
                  (if 0 < cb_reset_timeout b then
                     (case clock s of (now, s') \<Rightarrow>
                        if elapsed now t (cb_reset_timeout b) then
                          (case clock s' of (now', s'') \<Rightarrow>
                             let b' = (free_probe (to_state OPEN b))\<lparr>cb_failures := 0, cb_last_failure := Some now'\<rparr> in
                             ((OPEN, cb_epoch b'), b', s''))
                        else ((OPEN, cb_epoch b), b, s'))
                   else ((OPEN, cb_epoch b), b, s))
              | None \<Rightarrow> ((OPEN, cb_epoch b), b, s))
           else (case clock s of (now, s') \<Rightarrow> ((HALF_OPEN, cb_epoch b), claim_probe now b, s'))))"

definition stale :: "admission \<Rightarrow> breaker \<Rightarrow> bool" where
  "stale adm b \<longleftrightarrow> snd adm \<noteq> cb_epoch b \<or> fst adm \<noteq> cb_state b"

definition record_success :: "admission \<Rightarrow> breaker \<Rightarrow> breaker" where
  "record_success adm b =
     (if stale adm b then b
      else let b' = b\<lparr>cb_failures := 0, cb_last_failure := None\<rparr> in
           if fst adm = HALF_OPEN then free_probe (to_state CLOSED b') else b')"

definition record_failure :: "('s \<Rightarrow> rat \<times> 's) \<Rightarrow> admission \<Rightarrow> breaker \<Rightarrow> 's \<Rightarrow> breaker \<times> 's" where
  "record_failure clock adm b s =
     (if stale adm b then (b, s)
      else case clock s of (now, s') \<Rightarrow>
        (let b' = b\<lparr>cb_last_failure := Some now\<rparr> in
         if fst adm = HALF_OPEN then (free_probe (to_state OPEN (b'\<lparr>cb_failures := 0\<rparr>)), s')
         else let b'' = b'\<lparr>cb_failures := cb_failures b + 1\<rparr> in
              (if cb_threshold b \<le> cb_failures b'' then to_state OPEN b'' else b'', s')))"

definition release_probe :: "admission \<Rightarrow> breaker \<Rightarrow> breaker" where
  "release_probe adm b =
     (if fst adm = HALF_OPEN \<and> snd adm = cb_epoch b \<and> cb_state b = HALF_OPEN then b\<lparr>cb_probe := False\<rparr> else b)"

definition breaker_call ::
  "('s \<Rightarrow> rat \<times> 's) \<Rightarrow> (breaker_state \<Rightarrow> 's \<Rightarrow> 's) \<Rightarrow> (breaker \<Rightarrow> 's \<Rightarrow> ('a, breaker \<times> 's) outcome)
    \<Rightarrow> breaker \<Rightarrow> 's \<Rightarrow> ('a, breaker \<times> 's) outcome" where
  "breaker_call clock observe func b s =
     (case allow_call clock b s of (adm, b1, s1) \<Rightarrow>
        if fst adm = OPEN then (Inl CircuitBreakerOpenError, notify_pending observe b1 s1)
        else case (if fst adm = HALF_OPEN then notify_pending observe b1 s1 else (b1, s1)) of (b2, s2) \<Rightarrow>
          (case func b2 s2 of
             (Inr v, b3, s3) \<Rightarrow> (Inr v, notify_pending observe (record_success adm b3) s3)
           | (Inl e, b3, s3) \<Rightarrow>
               if e = ProcessSignal \<or> e = DurablePushRequired \<or> \<not> cb_counts b e then
                 (Inl e, (if fst adm = HALF_OPEN then release_probe adm b3 else b3), s3)
               else (case record_failure clock adm b3 s3 of (b4, s4) \<Rightarrow> (Inl e, notify_pending observe b4 s4))))"

section \<open>Threads\<close>

text \<open>
  Threads share the breaker. \<open>cs_calls\<close> holds the admissions of the calls that are running, \<open>cs_now\<close>
  the last clock reading and \<open>cs_log\<close> what the observer was told. Every step is one critical section
  or the passing of time; the clock of a step is any that does not run backwards.
\<close>

record cb_sys =
  cs_breaker :: breaker
  cs_calls :: "nat \<rightharpoonup> admission"
  cs_now :: rat
  cs_log :: "breaker_state list"

definition ticking :: "(rat \<Rightarrow> rat \<times> rat) \<Rightarrow> bool" where
  "ticking clock \<longleftrightarrow> (\<forall>n. n \<le> fst (clock n) \<and> snd (clock n) = fst (clock n))"

inductive cb_step :: "cb_sys \<Rightarrow> cb_sys \<Rightarrow> bool" where
  admitted: "ticking clock \<Longrightarrow> cs_calls sys t = None \<Longrightarrow> allow_call clock (cs_breaker sys) (cs_now sys) = (adm, b, now)
    \<Longrightarrow> fst adm \<noteq> OPEN \<Longrightarrow> cb_step sys (sys\<lparr>cs_breaker := b, cs_calls := (cs_calls sys)(t \<mapsto> adm), cs_now := now\<rparr>)"
| rejected: "ticking clock \<Longrightarrow> allow_call clock (cs_breaker sys) (cs_now sys) = (adm, b, now) \<Longrightarrow> fst adm = OPEN
    \<Longrightarrow> cb_step sys (sys\<lparr>cs_breaker := b, cs_now := now\<rparr>)"
| succeeded: "cs_calls sys t = Some adm
    \<Longrightarrow> cb_step sys (sys\<lparr>cs_breaker := record_success adm (cs_breaker sys), cs_calls := (cs_calls sys)(t := None)\<rparr>)"
| failed: "ticking clock \<Longrightarrow> cs_calls sys t = Some adm
    \<Longrightarrow> record_failure clock adm (cs_breaker sys) (cs_now sys) = (b, now)
    \<Longrightarrow> cb_step sys (sys\<lparr>cs_breaker := b, cs_calls := (cs_calls sys)(t := None), cs_now := now\<rparr>)"
| released: "cs_calls sys t = Some adm
    \<Longrightarrow> cb_step sys (sys\<lparr>cs_breaker := release_probe adm (cs_breaker sys), cs_calls := (cs_calls sys)(t := None)\<rparr>)"
| reset: "cb_step sys (sys\<lparr>cs_breaker := breaker_reset (cs_breaker sys)\<rparr>)"
| notified: "notify_pending (\<lambda>st l. l @ [st]) (cs_breaker sys) (cs_log sys) = (b, l)
    \<Longrightarrow> cb_step sys (sys\<lparr>cs_breaker := b, cs_log := l\<rparr>)"
| waited: "cs_now sys \<le> now \<Longrightarrow> cb_step sys (sys\<lparr>cs_now := now\<rparr>)"

definition cb_start :: "breaker \<Rightarrow> rat \<Rightarrow> cb_sys" where
  "cb_start b now = \<lparr>cs_breaker = b, cs_calls = Map.empty, cs_now = now, cs_log = []\<rparr>"

text \<open>The transitions that exist; closing an open breaker directly is the operator's \<open>reset\<close>.\<close>

fun legal :: "breaker_state \<Rightarrow> breaker_state \<Rightarrow> bool" where
  "legal CLOSED st = (st = OPEN)"
| "legal OPEN st = (st \<noteq> OPEN)"
| "legal HALF_OPEN st = (st \<noteq> HALF_OPEN)"

fun legal_path :: "breaker_state \<Rightarrow> breaker_state list \<Rightarrow> breaker_state option" where
  "legal_path st [] = Some st"
| "legal_path st (x # xs) = (if legal st x then legal_path x xs else None)"

lemma legal_path_snoc:
  "legal_path st (xs @ [x]) = Some y \<longleftrightarrow> (\<exists>z. legal_path st xs = Some z \<and> legal z x \<and> y = x)"
  by (induction st xs rule: legal_path.induct) auto

text \<open>
  The invariant. Admissions of the current epoch agree with the current state; the probe slot is
  taken exactly while one call of this half-open period runs; an open breaker knows since when; a
  closed one is below its threshold; the transitions told and pending lead to the current state.
\<close>

definition current_ok :: "(nat \<rightharpoonup> admission) \<Rightarrow> breaker \<Rightarrow> bool" where
  "current_ok calls b \<longleftrightarrow>
     (\<forall>t st e. calls t = Some (st, e) \<longrightarrow> st \<noteq> OPEN \<and> e \<le> cb_epoch b \<and> (e = cb_epoch b \<longrightarrow> st = cb_state b))"

definition probing :: "(nat \<rightharpoonup> admission) \<Rightarrow> nat \<Rightarrow> nat set" where
  "probing calls e = {t. calls t = Some (HALF_OPEN, e)}"

definition probe_ok :: "(nat \<rightharpoonup> admission) \<Rightarrow> breaker \<Rightarrow> bool" where
  "probe_ok calls b \<longleftrightarrow>
     (if cb_probe b then cb_state b = HALF_OPEN \<and> (\<exists>t. probing calls (cb_epoch b) = {t})
      else probing calls (cb_epoch b) = {})"

definition time_ok :: "breaker \<Rightarrow> rat \<Rightarrow> bool" where
  "time_ok b now \<longleftrightarrow>
     (cb_probe b \<longrightarrow> (\<exists>t. cb_probe_started b = Some t \<and> t \<le> now))
   \<and> (cb_state b = OPEN \<longrightarrow> (\<exists>t. cb_last_failure b = Some t \<and> t \<le> now))"

definition count_ok :: "breaker \<Rightarrow> bool" where
  "count_ok b \<longleftrightarrow> 0 < cb_threshold b \<and> (cb_state b = CLOSED \<longrightarrow> cb_failures b < cb_threshold b)"

definition log_ok :: "breaker_state list \<Rightarrow> breaker \<Rightarrow> bool" where
  "log_ok l b \<longleftrightarrow> legal_path CLOSED (l @ cb_pending b) = Some (cb_state b)"

definition cb_inv :: "cb_sys \<Rightarrow> bool" where
  "cb_inv sys \<longleftrightarrow> current_ok (cs_calls sys) (cs_breaker sys) \<and> probe_ok (cs_calls sys) (cs_breaker sys)
     \<and> time_ok (cs_breaker sys) (cs_now sys) \<and> count_ok (cs_breaker sys) \<and> log_ok (cs_log sys) (cs_breaker sys)"

lemmas breaker_step_defs =
  to_state_def claim_probe_def free_probe_def Let_def

lemma ticking_reading: "ticking clock \<Longrightarrow> clock s = (now, s') \<Longrightarrow> s \<le> now \<and> s' = now"
  unfolding ticking_def by (metis fst_conv snd_conv)

lemma fold_snoc [simp]: "fold (\<lambda>x l. l @ [x]) xs ys = ys @ xs"
  by (induction xs arbitrary: ys) auto

lemma fold_silent [simp]: "fold (\<lambda>_ s. s) xs s = s"
  by (induction xs) auto

lemma allow_call_cases [consumes 2, case_names closed probe reject reopen reclaim]:
  assumes "allow_call clock b s = (adm, b', s')" and "ticking clock"
  obtains "cb_state b = CLOSED" "adm = (CLOSED, cb_epoch b)" "b' = b" "s' = s"
    | t where "cb_state b = OPEN" "cb_last_failure b = Some t" "elapsed s' t (cb_reset_timeout b)" "s \<le> s'"
      "b' = claim_probe s' (to_state HALF_OPEN b)" "adm = (HALF_OPEN, cb_epoch b + 1)"
    | "cb_state b \<noteq> CLOSED" "adm = (OPEN, cb_epoch b)" "b' = b" "s \<le> s'"
    | t s1 where "cb_state b = HALF_OPEN" "cb_probe b" "cb_probe_started b = Some t" "0 < cb_reset_timeout b"
      "elapsed s1 t (cb_reset_timeout b)" "s \<le> s1" "s1 \<le> s'" "adm = (OPEN, cb_epoch b + 1)"
      "b' = (free_probe (to_state OPEN b))\<lparr>cb_failures := 0, cb_last_failure := Some s'\<rparr>"
    | "cb_state b = HALF_OPEN" "\<not> cb_probe b" "adm = (HALF_OPEN, cb_epoch b)" "b' = claim_probe s' b" "s \<le> s'"
proof (cases "cb_state b")
  case CLOSED
  show ?thesis by (rule that(1)) (use CLOSED assms(1) in \<open>auto simp: allow_call_def\<close>)
next
  case OPEN
  obtain now s1 where c: "clock s = (now, s1)" by fastforce
  note r = ticking_reading [OF assms(2) c]
  show ?thesis
  proof (cases "case cb_last_failure b of None \<Rightarrow> False | Some t \<Rightarrow> elapsed now t (cb_reset_timeout b)")
    case True
    then obtain t where "cb_last_failure b = Some t" "elapsed now t (cb_reset_timeout b)"
      by (auto split: option.splits)
    moreover from this OPEN c r assms(1) have "s' = now" "b' = claim_probe now (to_state HALF_OPEN b)" "adm = (HALF_OPEN, cb_epoch b + 1)"
      by (auto simp: allow_call_def Let_def claim_probe_def to_state_def)
    ultimately show ?thesis using OPEN r by (intro that(2) [of t]) simp_all
  next
    case False
    show ?thesis by (rule that(3)) (use OPEN False assms(1) c r in \<open>auto simp: allow_call_def\<close>)
  qed
next
  case HALF_OPEN
  obtain now s1 where c: "clock s = (now, s1)" by fastforce
  obtain now' s2 where c': "clock s1 = (now', s2)" by fastforce
  note r = ticking_reading [OF assms(2) c] ticking_reading [OF assms(2) c']
  show ?thesis
  proof (cases "cb_probe b")
    case False
    show ?thesis by (rule that(5)) (use HALF_OPEN False assms(1) c r in \<open>auto simp: allow_call_def\<close>)
  next
    case True
    show ?thesis
    proof (cases "\<exists>t. cb_probe_started b = Some t \<and> 0 < cb_reset_timeout b \<and> elapsed now t (cb_reset_timeout b)")
      case stuck: True
      then obtain t where t: "cb_probe_started b = Some t" "0 < cb_reset_timeout b" "elapsed now t (cb_reset_timeout b)" by blast
      moreover from this HALF_OPEN True c c' r assms(1)
      have "s' = now'" "b' = (free_probe (to_state OPEN b))\<lparr>cb_failures := 0, cb_last_failure := Some s'\<rparr>" "adm = (OPEN, cb_epoch b + 1)"
        by (auto simp: allow_call_def Let_def free_probe_def to_state_def)
      ultimately show ?thesis using HALF_OPEN True r by (intro that(4) [of t now]) simp_all
    next
      case False
      then have "adm = (OPEN, cb_epoch b) \<and> b' = b \<and> s \<le> s'"
        using HALF_OPEN True assms(1) c r by (auto simp: allow_call_def split: option.splits if_splits)
      with HALF_OPEN show ?thesis by (intro that(3)) simp_all
    qed
  qed
qed

subsection \<open>The invariant is kept\<close>

text \<open>A transition puts every running call behind the epoch.\<close>

lemma current_ok_next: "current_ok calls b \<Longrightarrow> cb_epoch b' = Suc (cb_epoch b) \<Longrightarrow> current_ok calls b'"
  unfolding current_ok_def by (metis Suc_n_not_le_n le_SucI)

lemma probing_next: "current_ok calls b \<Longrightarrow> probing calls (Suc (cb_epoch b)) = {}"
  unfolding current_ok_def probing_def by fastforce

lemma current_ok_same: "current_ok calls b \<Longrightarrow> cb_epoch b' = cb_epoch b \<Longrightarrow> cb_state b' = cb_state b \<Longrightarrow> current_ok calls b'"
  by (simp add: current_ok_def)

lemma current_ok_add:
  "current_ok calls b \<Longrightarrow> adm = (cb_state b, cb_epoch b) \<Longrightarrow> cb_state b \<noteq> OPEN \<Longrightarrow> current_ok (calls(t \<mapsto> adm)) b"
  by (simp add: current_ok_def)

lemma current_ok_drop: "current_ok calls b \<Longrightarrow> current_ok (calls(t := None)) b"
  by (simp add: current_ok_def)

lemma probing_drop: "probing (calls(t := None)) e = probing calls e - {t}"
  by (auto simp: probing_def)

lemma probing_add: "probing (calls(t \<mapsto> (st, e'))) e = (if st = HALF_OPEN \<and> e' = e then insert t (probing calls e) else probing calls e - {t})"
  by (auto simp: probing_def)

lemma probing_state: "current_ok calls b \<Longrightarrow> cb_state b \<noteq> HALF_OPEN \<Longrightarrow> probing calls (cb_epoch b) = {}"
  unfolding current_ok_def probing_def by fastforce

lemma log_ok_transition:
  "log_ok l b \<Longrightarrow> legal (cb_state b) st \<Longrightarrow> cb_state b' = st \<Longrightarrow> cb_pending b' = cb_pending b @ [st] \<Longrightarrow> log_ok l b'"
  unfolding log_ok_def append_assoc [symmetric] by (simp add: legal_path_snoc flip: append_assoc)

lemma cb_inv_start: "breaker_init n r counts = Inr b \<Longrightarrow> cb_inv (cb_start b now)"
  by (auto simp: breaker_init_def cb_inv_def cb_start_def fresh_breaker_def rbind_eq_Inr_iff current_ok_def probe_ok_def
      probing_def time_ok_def count_ok_def log_ok_def split: pyval.splits if_splits)

lemma cb_inv_admit:
  assumes "cb_inv sys" and "ticking clock" and "allow_call clock (cs_breaker sys) (cs_now sys) = (adm, b, now)"
    and "cs_calls sys t = None" and "fst adm \<noteq> OPEN"
  shows "cb_inv (sys\<lparr>cs_breaker := b, cs_calls := (cs_calls sys)(t \<mapsto> adm), cs_now := now\<rparr>)"
proof -
  let ?b = "cs_breaker sys" and ?calls = "cs_calls sys"
  have inv: "current_ok ?calls ?b" "probe_ok ?calls ?b" "time_ok ?b (cs_now sys)" "count_ok ?b" "log_ok (cs_log sys) ?b"
    using assms(1) by (simp_all add: cb_inv_def)
  have nt: "t \<notin> probing ?calls e" for e using assms(4) by (simp add: probing_def)
  from assms(3,2) show ?thesis
  proof (cases rule: allow_call_cases)
    case closed
    then have "\<not> cb_probe ?b" using inv(2) by (simp add: probe_ok_def split: if_splits)
    with closed inv show ?thesis by (simp add: cb_inv_def current_ok_add probe_ok_def probing_add)
  next
    case (probe t0)
    have "current_ok ?calls b" by (rule current_ok_next [OF inv(1)]) (simp add: probe breaker_step_defs)
    moreover have "log_ok (cs_log sys) b"
      by (rule log_ok_transition [OF inv(5), of HALF_OPEN]) (simp_all add: probe breaker_step_defs)
    ultimately show ?thesis using inv probing_next [OF inv(1)] probe
      by (simp add: cb_inv_def current_ok_add probe_ok_def probing_add time_ok_def count_ok_def breaker_step_defs)
  next
    case reclaim
    have "current_ok ?calls b" by (rule current_ok_same [OF inv(1)]) (simp_all add: reclaim breaker_step_defs)
    with inv reclaim show ?thesis
      by (simp add: cb_inv_def current_ok_add probe_ok_def probing_add time_ok_def count_ok_def log_ok_def breaker_step_defs)
  qed (use assms(5) in auto)
qed

text \<open>The end of a call: whatever its outcome does to the breaker, the call is no longer running.\<close>

lemma cb_inv_moved:
  assumes "cb_inv sys" and "cb_epoch b' = Suc (cb_epoch (cs_breaker sys))" and "\<not> cb_probe b'"
    and "legal (cb_state (cs_breaker sys)) (cb_state b')" and "cb_pending b' = cb_pending (cs_breaker sys) @ [cb_state b']"
    and "cb_threshold b' = cb_threshold (cs_breaker sys)" and "cb_state b' = CLOSED \<Longrightarrow> cb_failures b' = 0"
    and "cb_state b' = OPEN \<Longrightarrow> cb_last_failure b' = Some now" and "calls = cs_calls sys \<or> calls = (cs_calls sys)(t := None)"
  shows "cb_inv (sys\<lparr>cs_breaker := b', cs_calls := calls, cs_now := now\<rparr>)"
proof -
  have cur: "current_ok (cs_calls sys) (cs_breaker sys)" using assms(1) by (simp add: cb_inv_def)
  have "current_ok (cs_calls sys) b'" by (rule current_ok_next [OF cur assms(2)])
  then have "current_ok calls b'" using assms(9) current_ok_drop by auto
  moreover have "probe_ok calls b'"
    using probing_next [OF cur] assms(2,3,9) by (auto simp: probe_ok_def probing_drop)
  moreover have "log_ok (cs_log sys) b'"
    using assms(1) by (intro log_ok_transition [OF _ assms(4) refl assms(5)]) (simp add: cb_inv_def)
  ultimately show ?thesis using assms by (auto simp: cb_inv_def time_ok_def count_ok_def)
qed

lemma cb_inv_counted:
  assumes "cb_inv sys" and "cb_state (cs_breaker sys) = CLOSED"
    and "b' = (cs_breaker sys)\<lparr>cb_failures := n, cb_last_failure := l\<rparr>" and "n < cb_threshold (cs_breaker sys)"
  shows "cb_inv (sys\<lparr>cs_breaker := b', cs_calls := (cs_calls sys)(t := None), cs_now := now\<rparr>)"
proof -
  have inv: "current_ok (cs_calls sys) (cs_breaker sys)" "probe_ok (cs_calls sys) (cs_breaker sys)"
    using assms(1) by (simp_all add: cb_inv_def)
  then have "\<not> cb_probe (cs_breaker sys)" "probing (cs_calls sys) (cb_epoch (cs_breaker sys)) = {}"
    using assms(2) by (auto simp: probe_ok_def split: if_splits)
  moreover have "current_ok ((cs_calls sys)(t := None)) b'"
    by (rule current_ok_drop, rule current_ok_same [OF inv(1)]) (simp_all add: assms(3))
  ultimately show ?thesis using assms by (simp add: cb_inv_def probe_ok_def probing_drop time_ok_def count_ok_def log_ok_def)
qed

lemma cb_inv_stale:
  assumes "cb_inv sys" and "cs_calls sys t = Some adm" and "stale adm (cs_breaker sys)"
  shows "cb_inv (sys\<lparr>cs_calls := (cs_calls sys)(t := None)\<rparr>)"
proof -
  have "t \<notin> probing (cs_calls sys) (cb_epoch (cs_breaker sys))"
    using assms by (auto simp: cb_inv_def probing_def current_ok_def stale_def)
  then show ?thesis using assms(1) current_ok_drop by (simp add: cb_inv_def probe_ok_def probing_drop)
qed

lemma fresh_admission:
  assumes "cb_inv sys" and "cs_calls sys t = Some adm" and "\<not> stale adm (cs_breaker sys)"
  shows "adm = (cb_state (cs_breaker sys), cb_epoch (cs_breaker sys)) \<and> cb_state (cs_breaker sys) \<noteq> OPEN"
  using assms by (cases adm) (auto simp: cb_inv_def current_ok_def stale_def)

lemma cb_inv_reject:
  assumes "cb_inv sys" and "ticking clock" and "allow_call clock (cs_breaker sys) (cs_now sys) = (adm, b, now)"
    and "fst adm = OPEN"
  shows "cb_inv (sys\<lparr>cs_breaker := b, cs_now := now\<rparr>)"
  using assms(3,2)
proof (cases rule: allow_call_cases)
  case reject
  with assms(1) show ?thesis by (fastforce simp: cb_inv_def time_ok_def)
next
  case (reopen t s1)
  then show ?thesis using cb_inv_moved [OF assms(1), of b now "cs_calls sys"] by (simp add: breaker_step_defs)
qed (use assms(4) in auto)

lemma cb_inv_success:
  assumes "cb_inv sys" and "cs_calls sys t = Some adm"
  shows "cb_inv (sys\<lparr>cs_breaker := record_success adm (cs_breaker sys), cs_calls := (cs_calls sys)(t := None)\<rparr>)"
proof -
  let ?b = "cs_breaker sys"
  let ?b' = "record_success adm ?b"
  consider "stale adm ?b" | "\<not> stale adm ?b" "cb_state ?b = HALF_OPEN" | "\<not> stale adm ?b" "cb_state ?b = CLOSED"
    using fresh_admission [OF assms] by (cases "cb_state ?b") auto
  then show ?thesis
  proof cases
    case 1
    with cb_inv_stale [OF assms] show ?thesis by (simp add: record_success_def)
  next
    case 2
    then show ?thesis
      using cb_inv_moved [OF assms(1), of ?b' "cs_now sys" "(cs_calls sys)(t := None)" t] fresh_admission [OF assms]
      by (simp add: record_success_def breaker_step_defs)
  next
    case 3
    moreover have "0 < cb_threshold ?b" using assms(1) by (simp add: cb_inv_def count_ok_def)
    ultimately show ?thesis
      using cb_inv_counted [OF assms(1), where n = 0 and l = None and b' = ?b' and t = t and now = "cs_now sys"] fresh_admission [OF assms]
      by (simp add: record_success_def)
  qed
qed

lemma cb_inv_failure:
  assumes "cb_inv sys" and "ticking clock" and "cs_calls sys t = Some adm"
    and "record_failure clock adm (cs_breaker sys) (cs_now sys) = (b', now)"
  shows "cb_inv (sys\<lparr>cs_breaker := b', cs_calls := (cs_calls sys)(t := None), cs_now := now\<rparr>)"
proof -
  let ?b = "cs_breaker sys"
  obtain s' s'' where c: "clock (cs_now sys) = (s', s'')" by fastforce
  have s: "s'' = s'" using ticking_reading [OF assms(2) c] by simp
  consider "stale adm ?b" | "\<not> stale adm ?b" "cb_state ?b = HALF_OPEN" | "\<not> stale adm ?b" "cb_state ?b = CLOSED"
    using fresh_admission [OF assms(1,3)] by (cases "cb_state ?b") auto
  then show ?thesis
  proof cases
    case 1
    with cb_inv_stale [OF assms(1,3)] assms(4) show ?thesis by (auto simp: record_failure_def)
  next
    case 2
    then have "b' = free_probe (to_state OPEN (?b\<lparr>cb_last_failure := Some now, cb_failures := 0\<rparr>))"
      using fresh_admission [OF assms(1,3)] assms(4) c s by (auto simp: record_failure_def Let_def)
    then show ?thesis using cb_inv_moved [OF assms(1), of b' now "(cs_calls sys)(t := None)" t] 2
      by (simp add: breaker_step_defs)
  next
    case 3
    define b1 where "b1 = ?b\<lparr>cb_failures := Suc (cb_failures ?b), cb_last_failure := Some now\<rparr>"
    have b': "b' = (if cb_threshold ?b \<le> Suc (cb_failures ?b) then to_state OPEN b1 else b1)"
      using 3 fresh_admission [OF assms(1,3)] assms(4) c s by (auto simp: record_failure_def Let_def b1_def to_state_def)
    have "\<not> cb_probe ?b" using assms(1) 3 by (auto simp: cb_inv_def probe_ok_def split: if_splits)
    then show ?thesis
      using cb_inv_moved [OF assms(1), of b' now "(cs_calls sys)(t := None)" t]
        cb_inv_counted [OF assms(1), where n = "Suc (cb_failures ?b)" and l = "Some now" and b' = b' and t = t and now = now] 3
      by (cases "cb_threshold ?b \<le> Suc (cb_failures ?b)") (simp_all add: b' b1_def to_state_def)
  qed
qed

lemma cb_inv_release:
  assumes "cb_inv sys" and "cs_calls sys t = Some adm"
  shows "cb_inv (sys\<lparr>cs_breaker := release_probe adm (cs_breaker sys), cs_calls := (cs_calls sys)(t := None)\<rparr>)"
proof (cases "adm = (HALF_OPEN, cb_epoch (cs_breaker sys)) \<and> cb_state (cs_breaker sys) = HALF_OPEN")
  case True
  let ?b = "cs_breaker sys"
  let ?b' = "?b\<lparr>cb_probe := False\<rparr>"
  have inv: "current_ok (cs_calls sys) ?b" "probe_ok (cs_calls sys) ?b" using assms(1) by (simp_all add: cb_inv_def)
  have "t \<in> probing (cs_calls sys) (cb_epoch ?b)" using True assms(2) by (simp add: probing_def)
  then have "probe_ok ((cs_calls sys)(t := None)) ?b'" using inv(2) by (auto simp: probe_ok_def probing_drop split: if_splits)
  moreover have "current_ok ((cs_calls sys)(t := None)) ?b'"
    by (rule current_ok_drop, rule current_ok_same [OF inv(1)]) simp_all
  ultimately show ?thesis using assms(1) True
    by (simp add: cb_inv_def release_probe_def time_ok_def count_ok_def log_ok_def)
next
  case False
  then have r: "release_probe adm (cs_breaker sys) = cs_breaker sys" by (cases adm) (auto simp: release_probe_def)
  show ?thesis
  proof (cases "stale adm (cs_breaker sys)")
    case True
    with cb_inv_stale [OF assms] r show ?thesis by simp
  next
    case fresh: False
    with False fresh_admission [OF assms fresh] have "cb_state (cs_breaker sys) = CLOSED" by (cases "cb_state (cs_breaker sys)") auto
    with cb_inv_counted [OF assms(1) this, where b' = "cs_breaker sys" and n = "cb_failures (cs_breaker sys)"
        and l = "cb_last_failure (cs_breaker sys)" and t = t and now = "cs_now sys"]
      assms(1) r show ?thesis by (simp add: cb_inv_def count_ok_def)
  qed
qed

lemma cb_inv_reset:
  assumes "cb_inv sys"
  shows "cb_inv (sys\<lparr>cs_breaker := breaker_reset (cs_breaker sys)\<rparr>)"
proof (cases "cb_state (cs_breaker sys) = CLOSED")
  case True
  have cur: "current_ok (cs_calls sys) (cs_breaker sys)" using assms by (simp add: cb_inv_def)
  have "current_ok (cs_calls sys) (breaker_reset (cs_breaker sys))"
    by (rule current_ok_next [OF cur]) (simp add: breaker_reset_def)
  with True assms probing_next [OF cur] show ?thesis
    by (simp add: cb_inv_def probe_ok_def time_ok_def count_ok_def log_ok_def breaker_reset_def)
next
  case False
  then have "legal (cb_state (cs_breaker sys)) CLOSED" by (cases "cb_state (cs_breaker sys)") auto
  then show ?thesis
    using cb_inv_moved [OF assms, of "breaker_reset (cs_breaker sys)" "cs_now sys" "cs_calls sys"] False
    by (simp add: breaker_reset_def)
qed

lemma cb_inv_step: "cb_step sys sys' \<Longrightarrow> cb_inv sys \<Longrightarrow> cb_inv sys'"
proof (induction rule: cb_step.induct)
  case (notified sys b l)
  then show ?case
    by (auto simp: notify_pending_def cb_inv_def current_ok_def probe_ok_def time_ok_def count_ok_def log_ok_def)
next
  case (waited sys now)
  then show ?case by (fastforce simp: cb_inv_def time_ok_def)
qed (auto intro: cb_inv_admit cb_inv_reject cb_inv_success cb_inv_failure cb_inv_release cb_inv_reset)

lemma cb_inv_reachable: "cb_step\<^sup>*\<^sup>* sys sys' \<Longrightarrow> cb_inv sys \<Longrightarrow> cb_inv sys'"
  by (induction rule: rtranclp_induct) (auto intro: cb_inv_step)

section \<open>Waiting out the reset timeout\<close>

lemma elapsed_after:
  assumes "is_double r" and "0 \<le> r" and "r \<le> now - t"
  shows "elapsed now t r"
proof (cases "fsub now t")
  case (Fin x)
  then have "r \<le> x" using round_double_mono [OF assms(3) round_double_of_double [OF assms(1)]] by (simp add: fsub_def)
  with Fin show ?thesis by (simp add: elapsed_def)
qed (use assms in \<open>auto simp: elapsed_def fsub_def round_double_def split: if_splits\<close>)

lemma not_elapsed_before:
  assumes "is_double d" and "d < r" and "0 \<le> now - t" and "now - t \<le> d"
  shows "\<not> elapsed now t r"
proof -
  obtain a where "round_double (now - t) = Fin a" "a \<le> d" using round_double_below [OF assms(3,4,1)] by auto
  with assms(2) show ?thesis by (simp add: elapsed_def fsub_def)
qed

section \<open>Consecutive failures\<close>

datatype verdict = Success | Failure | Skipped

fun judge :: "(exn \<Rightarrow> bool) \<Rightarrow> 'a result \<Rightarrow> verdict" where
  "judge counts (Inr _) = Success"
| "judge counts (Inl e) = (if e = ProcessSignal \<or> e = DurablePushRequired \<or> \<not> counts e then Skipped else Failure)"

text \<open>The reference definition: the failures since the last success, ignoring what is not counted.\<close>

definition trailing_failures :: "(exn \<Rightarrow> bool) \<Rightarrow> 'a result list \<Rightarrow> nat" where
  "trailing_failures counts rs =
     length (takeWhile (\<lambda>v. v = Failure) (rev (filter (\<lambda>v. v \<noteq> Skipped) (map (judge counts) rs))))"

lemma trailing_failures_snoc:
  "trailing_failures counts (rs @ [r]) =
     (case judge counts r of Success \<Rightarrow> 0 | Failure \<Rightarrow> Suc (trailing_failures counts rs) | Skipped \<Rightarrow> trailing_failures counts rs)"
  by (cases "judge counts r") (simp_all add: trailing_failures_def)

text \<open>Calls one after the other, to a backend whose answers are \<open>rs\<close>.\<close>

fun breaker_run ::
  "('s \<Rightarrow> rat \<times> 's) \<Rightarrow> (breaker_state \<Rightarrow> 's \<Rightarrow> 's) \<Rightarrow> 'a result list \<Rightarrow> breaker \<Rightarrow> 's \<Rightarrow> breaker \<times> 's" where
  "breaker_run clock observe [] b s = (b, s)"
| "breaker_run clock observe (r # rs) b s =
     (case breaker_call clock observe (\<lambda>b s. (r, b, s)) b s of (_, b', s') \<Rightarrow> breaker_run clock observe rs b' s')"

lemma breaker_run_snoc:
  "breaker_run clock observe (rs @ [r]) b s =
     (case breaker_run clock observe rs b s of (b', s') \<Rightarrow> snd (breaker_call clock observe (\<lambda>b s. (r, b, s)) b' s'))"
  by (induction rs arbitrary: b s) (auto split: prod.splits)

lemma breaker_call_closed:
  assumes "cb_state b = CLOSED" and "breaker_call clock observe (\<lambda>b s. (r, b, s)) b s = (r', b', s')"
  shows "cb_failures b' = (case judge (cb_counts b) r of Success \<Rightarrow> 0 | Failure \<Rightarrow> Suc (cb_failures b) | Skipped \<Rightarrow> cb_failures b)
    \<and> cb_state b' = (if judge (cb_counts b) r = Failure \<and> cb_threshold b \<le> Suc (cb_failures b) then OPEN else CLOSED)
    \<and> cb_threshold b' = cb_threshold b \<and> cb_counts b' = cb_counts b \<and> r' = r"
  using assms
  by (cases r)
     (auto simp: breaker_call_def allow_call_def record_success_def record_failure_def stale_def notify_pending_def
       to_state_def Let_def split: prod.splits if_splits)

lemma breaker_run_counts:
  assumes "0 < n" and "\<forall>k < length rs. trailing_failures counts (take k rs) < n"
    and "breaker_run clock observe rs (fresh_breaker n r counts) s = (b, s')"
  shows "cb_failures b = trailing_failures counts rs \<and> cb_threshold b = n \<and> cb_counts b = counts
    \<and> cb_state b = (if trailing_failures counts rs < n then CLOSED else OPEN)"
  using assms
proof (induction rs arbitrary: b s' rule: rev_induct)
  case Nil
  then show ?case by (auto simp: trailing_failures_def fresh_breaker_def)
next
  case (snoc x rs)
  obtain b1 s1 where run: "breaker_run clock observe rs (fresh_breaker n r counts) s = (b1, s1)" by fastforce
  have below: "trailing_failures counts rs < n" using snoc.prems(2) by fastforce
  have "\<forall>k < length rs. trailing_failures counts (take k rs) < n"
    using snoc.prems(2) by (metis Suc_lessD Suc_mono butlast_snoc length_append_singleton take_butlast)
  from snoc.IH [OF snoc.prems(1) this run] below
  have b1: "cb_failures b1 = trailing_failures counts rs" "cb_threshold b1 = n" "cb_counts b1 = counts" "cb_state b1 = CLOSED"
    by simp_all
  obtain r' where "breaker_call clock observe (\<lambda>b s. (x, b, s)) b1 s1 = (r', b, s')"
    using snoc.prems(3) run by (cases "breaker_call clock observe (\<lambda>b s. (x, b, s)) b1 s1") (auto simp: breaker_run_snoc)
  from breaker_call_closed [OF b1(4) this] b1 below snoc.prems(1) show ?case
    by (auto simp: trailing_failures_snoc split: verdict.splits if_splits)
qed

section \<open>The abstract breaker\<close>

text \<open>
  What the module promises, without threads, epochs or probe slots: a closed breaker with a count of
  consecutive failures, an open one with the time it opened, and a half-open one that is idle or has
  its single probe out.
\<close>

datatype spec_state = SClosed nat | SOpen rat | SIdle | SProbing

inductive spec_step :: "nat \<Rightarrow> rat \<Rightarrow> spec_state \<Rightarrow> spec_state \<Rightarrow> bool" for threshold reset_timeout where
  spec_success: "spec_step threshold reset_timeout (SClosed n) (SClosed 0)"
| spec_failure: "Suc n < threshold \<Longrightarrow> spec_step threshold reset_timeout (SClosed n) (SClosed (Suc n))"
| spec_trip: "threshold \<le> Suc n \<Longrightarrow> spec_step threshold reset_timeout (SClosed n) (SOpen now)"
| spec_probe: "elapsed now t reset_timeout \<Longrightarrow> spec_step threshold reset_timeout (SOpen t) SProbing"
| spec_close: "spec_step threshold reset_timeout SProbing (SClosed 0)"
| spec_reopen: "spec_step threshold reset_timeout SProbing (SOpen now)"
| spec_release: "spec_step threshold reset_timeout SProbing SIdle"
| spec_reclaim: "spec_step threshold reset_timeout SIdle SProbing"
| spec_reset: "spec_step threshold reset_timeout st (SClosed 0)"

definition abs_breaker :: "breaker \<Rightarrow> spec_state" where
  "abs_breaker b =
     (case cb_state b of
        CLOSED \<Rightarrow> SClosed (cb_failures b)
      | OPEN \<Rightarrow> (case cb_last_failure b of Some t \<Rightarrow> SOpen t | None \<Rightarrow> SOpen 0)
      | HALF_OPEN \<Rightarrow> if cb_probe b then SProbing else SIdle)"

lemma cb_step_config:
  assumes "cb_step sys sys'"
  shows "cb_threshold (cs_breaker sys') = cb_threshold (cs_breaker sys)
    \<and> cb_reset_timeout (cs_breaker sys') = cb_reset_timeout (cs_breaker sys)"
  using assms
proof cases
  case (admitted clock t adm b now)
  from admitted(4,2) show ?thesis by (cases rule: allow_call_cases) (simp_all add: admitted breaker_step_defs)
next
  case (rejected clock adm b now)
  from rejected(3,2) show ?thesis by (cases rule: allow_call_cases) (simp_all add: rejected breaker_step_defs)
qed (auto simp: record_success_def record_failure_def release_probe_def breaker_reset_def notify_pending_def breaker_step_defs
    split: prod.splits if_splits)

lemma current_probe_claimed:
  assumes "cb_inv sys" and "cs_calls sys t = Some adm" and "\<not> stale adm (cs_breaker sys)" and "cb_state (cs_breaker sys) = HALF_OPEN"
  shows "cb_probe (cs_breaker sys)"
proof -
  have "t \<in> probing (cs_calls sys) (cb_epoch (cs_breaker sys))"
    using fresh_admission [OF assms(1-3)] assms(2,4) by (simp add: probing_def)
  then show ?thesis using assms(1) by (auto simp: cb_inv_def probe_ok_def split: if_splits)
qed

text \<open>Every step of a thread is a step of the abstract breaker or invisible to it.\<close>

lemma cb_step_simulates:
  assumes "cb_step sys sys'" and inv: "cb_inv sys"
  defines "b \<equiv> cs_breaker sys" and "b' \<equiv> cs_breaker sys'"
  shows "abs_breaker b' = abs_breaker b \<or> spec_step (cb_threshold b) (cb_reset_timeout b) (abs_breaker b) (abs_breaker b')"
  using assms(1)
proof cases
  case (admitted clock t adm b1 now)
  from admitted(4,2) show ?thesis
    by (cases rule: allow_call_cases)
       (auto simp: admitted b_def b'_def abs_breaker_def breaker_step_defs intro: spec_step.intros)
next
  case (rejected clock adm b1 now)
  from rejected(3,2) show ?thesis
    by (cases rule: allow_call_cases)
       (auto simp: rejected b_def b'_def abs_breaker_def breaker_step_defs intro: spec_step.intros)
next
  case (succeeded t adm)
  then show ?thesis using fresh_admission [OF inv succeeded(2)] current_probe_claimed [OF inv succeeded(2)]
    by (cases "cb_state (cs_breaker sys)")
       (auto simp: b_def b'_def abs_breaker_def record_success_def breaker_step_defs intro: spec_step.intros)
next
  case (failed clock t adm b1 now)
  then show ?thesis using fresh_admission [OF inv failed(3)] current_probe_claimed [OF inv failed(3)]
    by (cases "cb_state (cs_breaker sys)")
       (auto simp: b_def b'_def abs_breaker_def record_failure_def breaker_step_defs not_le intro: spec_step.intros
         split: prod.splits if_splits)
next
  case (released t adm)
  then show ?thesis
    by (auto simp: b_def b'_def abs_breaker_def release_probe_def intro: spec_step.intros split: breaker_state.splits)
next
  case reset
  then show ?thesis by (auto simp: b'_def abs_breaker_def breaker_reset_def intro: spec_step.intros)
next
  case (notified b1 l)
  then have "b' = b\<lparr>cb_pending := []\<rparr>" by (auto simp: b_def b'_def notify_pending_def)
  then show ?thesis by (simp add: abs_breaker_def split: breaker_state.splits)
qed (simp add: b_def b'_def)

lemma cb_run_simulates:
  assumes "cb_step\<^sup>*\<^sup>* sys sys'" and "cb_inv sys"
  shows "(spec_step (cb_threshold (cs_breaker sys)) (cb_reset_timeout (cs_breaker sys)))\<^sup>*\<^sup>*
      (abs_breaker (cs_breaker sys)) (abs_breaker (cs_breaker sys'))
    \<and> cb_threshold (cs_breaker sys') = cb_threshold (cs_breaker sys)
    \<and> cb_reset_timeout (cs_breaker sys') = cb_reset_timeout (cs_breaker sys)"
  using assms(1)
proof (induction rule: rtranclp_induct)
  case (step y z)
  from cb_inv_reachable [OF step(1) assms(2)] have "cb_inv y" .
  from cb_step_simulates [OF step(2) this] cb_step_config [OF step(2)] step.IH show ?case
    by (auto intro: rtranclp.rtrancl_into_rtrancl)
qed simp

section \<open>Properties\<close>


text \<open>A run: two threads call, both fail and open the breaker; a second later one of them probes.\<close>

definition demo_breaker :: breaker where
  "demo_breaker = fresh_breaker 2 1 (\<lambda>_. True)"

lemma demo_breaker_init: "breaker_init (PyInt 2) (PyInt 1) (\<lambda>_. True) = Inr demo_breaker"
  by (simp add: breaker_init_def demo_breaker_def max_reset_timeout_def)

definition demo_probing :: cb_sys where
  "demo_probing = \<lparr>cs_breaker = demo_breaker\<lparr>cb_failures := 2, cb_last_failure := Some 0, cb_state := HALF_OPEN, cb_epoch := 2,
     cb_pending := [OPEN, HALF_OPEN], cb_probe := True, cb_probe_started := Some 1\<rparr>, cs_calls = [7 \<mapsto> (HALF_OPEN, 2)], cs_now = 1, cs_log = []\<rparr>"

lemma ticking_still: "ticking (\<lambda>s. (s, s))"
  by (simp add: ticking_def)

lemma demo_probing_reachable: "cb_step\<^sup>*\<^sup>* (cb_start demo_breaker 0) demo_probing"
proof -
  let ?s0 = "cb_start demo_breaker 0"
  let ?s1 = "?s0\<lparr>cs_calls := [1 \<mapsto> (CLOSED, 0)]\<rparr>"
  let ?s2 = "?s0\<lparr>cs_calls := [1 \<mapsto> (CLOSED, 0), 2 \<mapsto> (CLOSED, 0)]\<rparr>"
  let ?s3 = "\<lparr>cs_breaker = demo_breaker\<lparr>cb_failures := 1, cb_last_failure := Some 0\<rparr>, cs_calls = [2 \<mapsto> (CLOSED, 0)], cs_now = 0, cs_log = []\<rparr>"
  let ?s4 = "\<lparr>cs_breaker = demo_breaker\<lparr>cb_failures := 2, cb_last_failure := Some 0, cb_state := OPEN, cb_epoch := 1, cb_pending := [OPEN]\<rparr>,
    cs_calls = Map.empty, cs_now = 0, cs_log = []\<rparr>"
  let ?s5 = "?s4\<lparr>cs_now := 1\<rparr>"
  have "cb_step ?s0 ?s1"
    using admitted [OF ticking_still, of ?s0 1] by (simp add: cb_start_def allow_call_def demo_breaker_def fresh_breaker_def)
  moreover have "cb_step ?s1 ?s2"
    using admitted [OF ticking_still, of ?s1 2] by (simp add: cb_start_def allow_call_def demo_breaker_def fresh_breaker_def)
  moreover have "cb_step ?s2 ?s3"
    using failed [OF ticking_still, of ?s2 1]
    by (simp add: cb_start_def record_failure_def stale_def demo_breaker_def fresh_breaker_def Let_def fun_upd_twist)
  moreover have "cb_step ?s3 ?s4"
    using failed [OF ticking_still, of ?s3 2]
    by (simp add: record_failure_def stale_def demo_breaker_def fresh_breaker_def breaker_step_defs)
  moreover have "cb_step ?s4 ?s5" using waited [of ?s4 1] by simp
  moreover have "elapsed 1 0 1" using elapsed_after [of 1 1 0] by simp
  then have "cb_step ?s5 demo_probing"
    using admitted [OF ticking_still, of ?s5 7]
    by (simp add: allow_call_def demo_breaker_def fresh_breaker_def breaker_step_defs demo_probing_def numeral_2_eq_2)
  ultimately show ?thesis by (meson converse_rtranclp_into_rtranclp rtranclp.rtrancl_refl)
qed




text \<open>
  C11. The breaker never wedges: in every reachable state, however many calls hang, a call made a
  reset timeout after the present is let through to the backend, or it finds a hung probe and
  re-opens the breaker; and then a call a further reset timeout later is let through as the new
  probe. (A reset timeout of zero has no probe deadline, which the code documents.)
\<close>

theorem breaker_never_wedges:
  assumes "breaker_init n r counts = Inr b0" and "cb_step\<^sup>*\<^sup>* (cb_start b0 now) sys"
    and "0 < cb_reset_timeout b0" and "is_double (cb_reset_timeout b0)"
    and "cs_now sys + cb_reset_timeout b0 \<le> t1" and "t1 + cb_reset_timeout b0 \<le> t2"
  shows "case allow_call (\<lambda>s. (s, s)) (cs_breaker sys) t1 of (adm, b, _) \<Rightarrow>
     fst adm \<noteq> OPEN \<or> cb_state b = OPEN \<and> fst (fst (allow_call (\<lambda>s. (s, s)) b t2)) = HALF_OPEN"
proof -
  let ?b = "cs_breaker sys"
  have inv: "cb_inv sys" using cb_inv_reachable [OF assms(2) cb_inv_start [OF assms(1)]] .
  have r: "cb_reset_timeout ?b = cb_reset_timeout b0"
    using cb_run_simulates [OF assms(2) cb_inv_start [OF assms(1)]] by (simp add: cb_start_def)
  note late = elapsed_after [OF assms(4)]
  have t: "elapsed t1 t (cb_reset_timeout b0)" if "t \<le> cs_now sys" for t
    using late [of t1 t] that assms(3,5) by simp
  have t2: "elapsed t2 t1 (cb_reset_timeout b0)" using late [of t2 t1] assms(3,6) by simp
  show ?thesis
  proof (cases "cb_state ?b")
    case OPEN
    then obtain t0 where "cb_last_failure ?b = Some t0" "t0 \<le> cs_now sys" using inv by (auto simp: cb_inv_def time_ok_def)
    with OPEN t r show ?thesis by (simp add: allow_call_def Let_def)
  next
    case HALF_OPEN
    show ?thesis
    proof (cases "cb_probe ?b")
      case True
      then obtain t0 where "cb_probe_started ?b = Some t0" "t0 \<le> cs_now sys" using inv by (auto simp: cb_inv_def time_ok_def)
      with HALF_OPEN True t t2 r assms(3) show ?thesis
        by (simp add: allow_call_def Let_def breaker_step_defs)
    qed (simp add: allow_call_def HALF_OPEN)
  qed (simp add: allow_call_def)
qed

theorem breaker_never_wedges_witness:
  "case allow_call (\<lambda>s. (s, s)) (cs_breaker demo_probing) 2 of (adm, b, _) \<Rightarrow>
     fst adm \<noteq> OPEN \<or> cb_state b = OPEN \<and> fst (fst (allow_call (\<lambda>s. (s, s)) b 3)) = HALF_OPEN"
  using breaker_never_wedges [OF demo_breaker_init demo_probing_reachable, of 2 3]
  by (simp add: demo_probing_def demo_breaker_def fresh_breaker_def)

text \<open>
  C28. The breaker opens after exactly \<open>failure_threshold\<close> consecutive failures: as long as every
  earlier call left fewer than that many failures since the last success (exceptions that do not
  count and process signals neither add nor clear), the count is the number of failures since the
  last success, and the breaker is closed while it is below the threshold and open when it is reached.
\<close>

theorem breaker_trips_at_threshold:
  assumes "breaker_init (PyInt n) r counts = Inr b0"
    and "\<forall>k < length rs. trailing_failures counts (take k rs) < nat n"
    and "breaker_run clock observe rs b0 s = (b, s')"
  shows "cb_failures b = trailing_failures counts rs
    \<and> cb_state b = (if trailing_failures counts rs < nat n then CLOSED else OPEN)"
proof -
  obtain r' where "b0 = fresh_breaker (nat n) r' counts" "0 < nat n"
    using assms(1) by (auto simp: breaker_init_def rbind_eq_Inr_iff split: if_splits)
  with breaker_run_counts [OF _ assms(2), of clock observe r' s b s'] assms(3) show ?thesis by simp
qed

theorem breaker_trips_at_threshold_witness:
  "cb_state (fst (breaker_run (\<lambda>s. (0, s)) (\<lambda>_ s. s) [Inl QueueError, Inr (), Inl QueueError, Inl ProcessSignal, Inl QueueError] demo_breaker ()))
     = OPEN"
proof -
  let ?rs = "[Inl QueueError, Inr (), Inl QueueError, Inl ProcessSignal, Inl QueueError] :: unit result list"
  obtain b s' where run: "breaker_run (\<lambda>s. (0, s)) (\<lambda>_ s. s) ?rs demo_breaker () = (b, s')"
    by (metis surj_pair)
  have "\<forall>k < length ?rs. trailing_failures (\<lambda>_. True) (take k ?rs) < nat 2"
    by (simp add: trailing_failures_def less_Suc_eq numeral_nat all_conj_distrib)
  from breaker_trips_at_threshold [OF demo_breaker_init this run] run show ?thesis by (simp add: trailing_failures_def)
qed

text \<open>
  An open breaker spares the backend, and the first call after the reset timeout decides: before
  it has elapsed every call is rejected with \<open>CircuitBreakerOpenError\<close> whatever the backend would do,
  and the breaker stays as it is; afterwards the call reaches the backend and a success closes the
  breaker with a clean count, a counted failure re-opens it for another period, and any other
  exception leaves it half-open with the probe slot free.
\<close>

lemma breaker_open_call:
  assumes "cb_state b = OPEN" and "cb_last_failure b = Some t" and "clock s = (now, s1)"
    and "breaker_call clock (\<lambda>_ s. s) func b s = (res, b', s')"
    and "\<And>b s r b' s'. func b s = (r, b', s') \<Longrightarrow> b' = b"
  shows "if elapsed now t (cb_reset_timeout b)
    then res = fst (func (claim_probe now (to_state HALF_OPEN b)\<lparr>cb_pending := []\<rparr>) s1) \<and>
      (case judge (cb_counts b) res of
         Success \<Rightarrow> cb_state b' = CLOSED \<and> cb_failures b' = 0 \<and> \<not> cb_probe b'
       | Failure \<Rightarrow> cb_state b' = OPEN \<and> \<not> cb_probe b' \<and> (\<exists>u. cb_last_failure b' = Some u)
       | Skipped \<Rightarrow> cb_state b' = HALF_OPEN \<and> \<not> cb_probe b')
    else res = Inl CircuitBreakerOpenError \<and> b' = b\<lparr>cb_pending := []\<rparr> \<and> s' = s1"
proof (cases "elapsed now t (cb_reset_timeout b)")
  case True
  let ?b2 = "claim_probe now (to_state HALF_OPEN b)\<lparr>cb_pending := []\<rparr>"
  obtain r b3 s3 where f: "func ?b2 s1 = (r, b3, s3)" using prod_cases3 by blast
  then have "b3 = ?b2" by (rule assms(5))
  with True f assms(1-4) show ?thesis
    by (cases r)
       (auto simp: breaker_call_def allow_call_def record_success_def record_failure_def release_probe_def stale_def
         notify_pending_def breaker_step_defs split: prod.splits if_splits)
next
  case False
  with assms(1-4) show ?thesis by (auto simp: breaker_call_def allow_call_def notify_pending_def)
qed

end
