(* ===== verification/Generation_Gate.thy ===== *)
theory Generation_Gate
  imports Prelude
begin

text \<open>
  The lease gate \<open>backends/_generation.py\<close> that every backend client sits behind: operations hold a
  lease on the generation they were admitted under, retiring a generation stops admission, and its
  client is closed by a finalizer once its leases are gone.

  Records are kept by their generation number, because a retired record lives on in the operations
  that leased it. A thread is a number. Waiting is the guard of the step that ends it; what a
  finalizer or an operation does is not modelled, only that it runs. Exceptions of a finalizer are
  collected by the gate, and signals that arrive during a wait are re-raised after it, neither of
  which affects the state.
\<close>

section \<open>State\<close>

record 'v gen_record =
  gr_value :: 'v
  gr_accepting :: bool
  gr_leases :: nat
  gr_threads :: "nat \<rightharpoonup> nat"
  gr_deferred :: nat
  gr_registered :: bool

record 'v gate =
  ga_next :: nat
  ga_current :: "nat option"
  ga_records :: "nat \<rightharpoonup> 'v gen_record"

definition gate_init :: "'v gate" where
  "gate_init = \<lparr>ga_next = 0, ga_current = None, ga_records = Map.empty\<rparr>"

definition upd_record :: "nat \<Rightarrow> 'v gen_record \<Rightarrow> 'v gate \<Rightarrow> 'v gate" where
  "upd_record g r ga = ga\<lparr>ga_records := (ga_records ga)(g \<mapsto> r)\<rparr>"

section \<open>Operations\<close>

definition fresh_record :: "'v \<Rightarrow> 'v gen_record" where
  "fresh_record v = \<lparr>gr_value = v, gr_accepting = True, gr_leases = 0, gr_threads = Map.empty, gr_deferred = 0, gr_registered = False\<rparr>"

definition gate_publish :: "'v \<Rightarrow> 'v gate \<Rightarrow> nat \<times> 'v gate" where
  "gate_publish v ga =
     (case ga_current ga of
        Some g \<Rightarrow>
          (case ga_records ga g of
             Some r \<Rightarrow>
               if gr_accepting r then (g, ga)
               else (let n = ga_next ga + 1 in (n, (upd_record n (fresh_record v) ga)\<lparr>ga_next := n, ga_current := Some n\<rparr>))
           | None \<Rightarrow> (let n = ga_next ga + 1 in (n, (upd_record n (fresh_record v) ga)\<lparr>ga_next := n, ga_current := Some n\<rparr>)))
      | None \<Rightarrow> (let n = ga_next ga + 1 in (n, (upd_record n (fresh_record v) ga)\<lparr>ga_next := n, ga_current := Some n\<rparr>)))"

definition gate_retire :: "'v gate \<Rightarrow> nat option \<times> 'v gate" where
  "gate_retire ga =
     (case ga_current ga of
        None \<Rightarrow> (None, ga)
      | Some g \<Rightarrow>
          (Some g, (case ga_records ga g of
             None \<Rightarrow> ga | Some r \<Rightarrow> upd_record g (r\<lparr>gr_accepting := False\<rparr>) ga)\<lparr>ga_current := None\<rparr>))"

definition owned :: "nat \<Rightarrow> 'v gen_record \<Rightarrow> nat" where
  "owned t r = (case gr_threads r t of None \<Rightarrow> 0 | Some n \<Rightarrow> n)"

text \<open>Entering the \<open>lease\<close> context; \<open>None\<close> is \<open>GenerationUnavailable\<close>.\<close>

definition lease_enter :: "nat \<Rightarrow> 'v gate \<Rightarrow> nat option \<times> 'v gate" where
  "lease_enter t ga =
     (case ga_current ga of
        None \<Rightarrow> (None, ga)
      | Some g \<Rightarrow>
          (case ga_records ga g of
             None \<Rightarrow> (None, ga)
           | Some r \<Rightarrow>
               (if \<not> gr_accepting r then (None, ga)
                else (Some g, upd_record g (r\<lparr>gr_leases := gr_leases r + 1,
                        gr_threads := (gr_threads r)(t \<mapsto> owned t r + 1)\<rparr>) ga))))"

text \<open>Leaving it: the number of finalizers to run now, once the last lease is gone.\<close>

definition lease_exit :: "nat \<Rightarrow> nat \<Rightarrow> 'v gate \<Rightarrow> nat \<times> 'v gate" where
  "lease_exit t g ga =
     (case ga_records ga g of
        None \<Rightarrow> (0, ga)
      | Some r \<Rightarrow>
          (let r1 = r\<lparr>gr_leases := gr_leases r - 1,
                      gr_threads := (gr_threads r)(t := if owned t r \<le> 1 then None else Some (owned t r - 1))\<rparr> in
           if gr_leases r1 = 0 then (gr_deferred r1, upd_record g (r1\<lparr>gr_deferred := 0\<rparr>) ga)
           else (0, upd_record g r1 ga)))"

text \<open>\<open>drain\<close>: the condition its wait loop ends on, and what it does then; \<open>True\<close> says to run the finalizer now.\<close>

definition drain_ready :: "nat \<Rightarrow> nat \<Rightarrow> 'v gate \<Rightarrow> bool" where
  "drain_ready t g ga \<longleftrightarrow> (case ga_records ga g of None \<Rightarrow> True | Some r \<Rightarrow> gr_leases r \<le> owned t r)"

definition drain_register :: "nat \<Rightarrow> 'v gate \<Rightarrow> bool \<times> 'v gate" where
  "drain_register g ga =
     (case ga_records ga g of
        None \<Rightarrow> (False, ga)
      | Some r \<Rightarrow>
          (if gr_registered r then (False, ga)
           else let r1 = r\<lparr>gr_registered := True\<rparr> in
                if gr_leases r1 = 0 then (True, upd_record g r1 ga)
                else (False, upd_record g (r1\<lparr>gr_deferred := gr_deferred r1 + 1\<rparr>) ga)))"

section \<open>Threads\<close>

text \<open>
  \<open>gs_running\<close> lists the operations that hold a lease, by thread and generation; a thread may hold
  several. \<open>gs_closing\<close> are the finalizers released to run, \<open>gs_closed\<close> those that have run. Only
  detached records are drained, as \<open>retire\<close> hands them out.
\<close>

record 'v gate_sys =
  gs_gate :: "'v gate"
  gs_running :: "(nat \<times> nat) multiset"
  gs_closing :: "nat multiset"
  gs_closed :: "nat multiset"

inductive gate_step :: "'v gate_sys \<Rightarrow> 'v gate_sys \<Rightarrow> bool" where
  published: "gate_publish v (gs_gate y) = (g, ga) \<Longrightarrow> gate_step y (y\<lparr>gs_gate := ga\<rparr>)"
| retired: "gate_retire (gs_gate y) = (r, ga) \<Longrightarrow> gate_step y (y\<lparr>gs_gate := ga\<rparr>)"
| entered: "lease_enter t (gs_gate y) = (Some g, ga) \<Longrightarrow> gate_step y (y\<lparr>gs_gate := ga, gs_running := add_mset (t, g) (gs_running y)\<rparr>)"
| left: "(t, g) \<in># gs_running y \<Longrightarrow> lease_exit t g (gs_gate y) = (n, ga)
    \<Longrightarrow> gate_step y (y\<lparr>gs_gate := ga, gs_running := gs_running y - {#(t, g)#}, gs_closing := gs_closing y + replicate_mset n g\<rparr>)"
| drained: "ga_records (gs_gate y) g = Some r \<Longrightarrow> \<not> gr_accepting r \<Longrightarrow> drain_ready t g (gs_gate y)
    \<Longrightarrow> drain_register g (gs_gate y) = (now, ga)
    \<Longrightarrow> gate_step y (y\<lparr>gs_gate := ga, gs_closing := gs_closing y + (if now then {#g#} else {#})\<rparr>)"
| closes: "g \<in># gs_closing y \<Longrightarrow> gate_step y (y\<lparr>gs_closing := gs_closing y - {#g#}, gs_closed := add_mset g (gs_closed y)\<rparr>)"

definition gate_start :: "'v gate_sys" where
  "gate_start = \<lparr>gs_gate = gate_init, gs_running = {#}, gs_closing = {#}, gs_closed = {#}\<rparr>"

definition leases_on :: "nat \<Rightarrow> (nat \<times> nat) multiset \<Rightarrow> nat" where
  "leases_on g run = size (filter_mset (\<lambda>l. snd l = g) run)"

definition record_ok :: "'v gate_sys \<Rightarrow> nat \<Rightarrow> 'v gen_record \<Rightarrow> bool" where
  "record_ok y g r \<longleftrightarrow>
     gr_leases r = leases_on g (gs_running y)
   \<and> (\<forall>t. owned t r = count (gs_running y) (t, g))
   \<and> (gr_accepting r \<longleftrightarrow> ga_current (gs_gate y) = Some g)
   \<and> gr_deferred r + count (gs_closing y) g + count (gs_closed y) g = (if gr_registered r then 1 else 0)
   \<and> (gr_registered r \<longrightarrow> \<not> gr_accepting r)
   \<and> (gr_deferred r = 0 \<or> 0 < gr_leases r)
   \<and> (count (gs_closing y) g = 0 \<and> count (gs_closed y) g = 0 \<or> gr_leases r = 0)"

definition gate_inv :: "'v gate_sys \<Rightarrow> bool" where
  "gate_inv y \<longleftrightarrow>
     (\<forall>g r. ga_records (gs_gate y) g = Some r \<longrightarrow> record_ok y g r \<and> g \<le> ga_next (gs_gate y))
   \<and> (\<forall>g. ga_records (gs_gate y) g = None \<longrightarrow> leases_on g (gs_running y) = 0 \<and> count (gs_closing y) g = 0 \<and> count (gs_closed y) g = 0)
   \<and> (\<forall>g. ga_current (gs_gate y) = Some g \<longrightarrow> (\<exists>r. ga_records (gs_gate y) g = Some r))"

section \<open>The invariant is kept\<close>

text \<open>Two states that look the same from generation \<open>g\<close>.\<close>

definition same_at :: "nat \<Rightarrow> 'v gate_sys \<Rightarrow> 'v gate_sys \<Rightarrow> bool" where
  "same_at g y y' \<longleftrightarrow> filter_mset (\<lambda>l. snd l = g) (gs_running y') = filter_mset (\<lambda>l. snd l = g) (gs_running y)
     \<and> (ga_current (gs_gate y') = Some g \<longleftrightarrow> ga_current (gs_gate y) = Some g)
     \<and> count (gs_closing y') g = count (gs_closing y) g \<and> count (gs_closed y') g = count (gs_closed y) g"

lemma same_at_count: "same_at g y y' \<Longrightarrow> count (gs_running y') (t, g) = count (gs_running y) (t, g)"
proof -
  assume "same_at g y y'"
  then have "count (filter_mset (\<lambda>l. snd l = g) (gs_running y')) (t, g) = count (filter_mset (\<lambda>l. snd l = g) (gs_running y)) (t, g)"
    by (simp add: same_at_def)
  then show ?thesis by simp
qed

lemma same_at_leases: "same_at g y y' \<Longrightarrow> leases_on g (gs_running y') = leases_on g (gs_running y)"
  by (simp add: same_at_def leases_on_def)

lemma record_ok_same:
  assumes "same_at g y y'"
  shows "record_ok y' g r \<longleftrightarrow> record_ok y g r"
  using same_at_count [OF assms] same_at_leases [OF assms] assms unfolding record_ok_def by (simp add: same_at_def)

lemma gate_inv_record: "gate_inv y \<Longrightarrow> ga_records (gs_gate y) g = Some r \<Longrightarrow> record_ok y g r"
  by (simp add: gate_inv_def)

text \<open>A step that replaces one record and is invisible from every other generation.\<close>

lemma gate_inv_upd:
  assumes "gate_inv y" and "ga_records (gs_gate y') = (ga_records (gs_gate y))(g \<mapsto> r')"
    and "g \<le> ga_next (gs_gate y')" and "ga_next (gs_gate y) \<le> ga_next (gs_gate y')"
    and "record_ok y' g r'" and other: "\<And>h. h \<noteq> g \<Longrightarrow> same_at h y y'"
    and "\<And>h. ga_current (gs_gate y') = Some h \<Longrightarrow> h = g \<or> ga_current (gs_gate y) = Some h"
  shows "gate_inv y'"
  unfolding gate_inv_def
proof (intro conjI allI impI)
  fix h r assume h: "ga_records (gs_gate y') h = Some r"
  show "record_ok y' h r"
    using h assms(1,2,5) other [of h] record_ok_same [of h y y'] by (cases "h = g") (auto simp: gate_inv_def)
  show "h \<le> ga_next (gs_gate y')" using h assms(1-4) by (cases "h = g") (fastforce simp: gate_inv_def)+
next
  fix h assume h: "ga_records (gs_gate y') h = None"
  then have "h \<noteq> g" "ga_records (gs_gate y) h = None" using assms(2) by (auto split: if_splits)
  then show "leases_on h (gs_running y') = 0" "count (gs_closing y') h = 0" "count (gs_closed y') h = 0"
    using assms(1) other [of h] same_at_leases [of h y y'] by (auto simp: gate_inv_def same_at_def)
next
  fix h assume "ga_current (gs_gate y') = Some h"
  with assms(1,2,7) show "\<exists>r. ga_records (gs_gate y') h = Some r" by (auto simp: gate_inv_def)
qed

lemma gate_inv_start: "gate_inv gate_start"
  by (simp add: gate_inv_def gate_start_def gate_init_def leases_on_def)

lemma gate_inv_publish:
  assumes "gate_inv y" and "gate_publish v (gs_gate y) = (g, ga)"
  shows "gate_inv (y\<lparr>gs_gate := ga\<rparr>)"
proof (cases "ga = gs_gate y")
  case False
  let ?n = "Suc (ga_next (gs_gate y))"
  have cur: "ga_current (gs_gate y) = None"
  proof (cases "ga_current (gs_gate y)")
    case (Some h)
    then obtain r where "ga_records (gs_gate y) h = Some r" using assms(1) by (auto simp: gate_inv_def)
    with Some assms False gate_inv_record [OF assms(1), of h r] show ?thesis
      by (auto simp: gate_publish_def record_ok_def)
  qed
  then have ga: "ga = (upd_record ?n (fresh_record v) (gs_gate y))\<lparr>ga_next := ?n, ga_current := Some ?n\<rparr>"
    using assms(2) by (auto simp: gate_publish_def Let_def)
  have "ga_records (gs_gate y) ?n = None" using assms(1) by (metis Suc_n_not_le_n gate_inv_def not_None_eq)
  then have z: "leases_on ?n (gs_running y) = 0" "count (gs_closing y) ?n = 0" "count (gs_closed y) ?n = 0"
    using assms(1) by (auto simp: gate_inv_def)
  then have "count (gs_running y) (t, ?n) = 0" for t
    by (metis (mono_tags, lifting) count_filter_mset leases_on_def size_eq_0_iff_empty count_empty snd_conv)
  with z show ?thesis
    by (intro gate_inv_upd [OF assms(1), of _ ?n "fresh_record v"])
       (auto simp: ga upd_record_def record_ok_def same_at_def fresh_record_def owned_def cur)
qed (use assms in simp)

lemma gate_inv_retire:
  assumes "gate_inv y" and "gate_retire (gs_gate y) = (r, ga)"
  shows "gate_inv (y\<lparr>gs_gate := ga\<rparr>)"
proof (cases "ga_current (gs_gate y)")
  case None
  then have "y\<lparr>gs_gate := ga\<rparr> = y" using assms(2) by (auto simp: gate_retire_def)
  with assms(1) show ?thesis by simp
next
  case (Some g)
  then obtain rec where rec: "ga_records (gs_gate y) g = Some rec" using assms(1) by (auto simp: gate_inv_def)
  then have ga: "ga = (upd_record g (rec\<lparr>gr_accepting := False\<rparr>) (gs_gate y))\<lparr>ga_current := None\<rparr>"
    using Some assms(2) by (simp add: gate_retire_def)
  have "g \<le> ga_next (gs_gate y)" using assms(1) rec by (simp add: gate_inv_def)
  with gate_inv_record [OF assms(1) rec] show ?thesis
    by (intro gate_inv_upd [OF assms(1), of _ g "rec\<lparr>gr_accepting := False\<rparr>"])
       (auto simp: ga upd_record_def record_ok_def same_at_def owned_def Some)
qed

lemma gate_inv_enter:
  assumes "gate_inv y" and "lease_enter t (gs_gate y) = (Some g, ga)"
  shows "gate_inv (y\<lparr>gs_gate := ga, gs_running := add_mset (t, g) (gs_running y)\<rparr>)"
proof -
  obtain r where r: "ga_current (gs_gate y) = Some g" "ga_records (gs_gate y) g = Some r" "gr_accepting r"
    "ga = upd_record g (r\<lparr>gr_leases := gr_leases r + 1, gr_threads := (gr_threads r)(t \<mapsto> owned t r + 1)\<rparr>) (gs_gate y)"
    using assms(2) by (auto simp: lease_enter_def split: option.splits if_splits)
  let ?r = "r\<lparr>gr_leases := gr_leases r + 1, gr_threads := (gr_threads r)(t \<mapsto> owned t r + 1)\<rparr>"
  note ok = gate_inv_record [OF assms(1) r(2)]
  have "owned u ?r = (if u = t then owned t r + 1 else owned u r)" for u by (simp add: owned_def)
  moreover have "g \<le> ga_next (gs_gate y)" using assms(1) r(2) by (simp add: gate_inv_def)
  ultimately show ?thesis using ok r(1,3)
    by (intro gate_inv_upd [OF assms(1), of _ g ?r])
       (auto simp: r(4) upd_record_def record_ok_def same_at_def leases_on_def split: if_splits)
qed

lemma leases_on_remove:
  assumes "(t, g) \<in># run"
  shows "leases_on g (run - {#(t, g)#}) = leases_on g run - 1" and "0 < leases_on g run"
proof -
  obtain run' where "run = add_mset (t, g) run'" using assms by (metis insert_DiffM)
  then show "leases_on g (run - {#(t, g)#}) = leases_on g run - 1" "0 < leases_on g run" by (simp_all add: leases_on_def)
qed

lemma gate_inv_exit:
  assumes "gate_inv y" and "(t, g) \<in># gs_running y" and "lease_exit t g (gs_gate y) = (n, ga)"
  shows "gate_inv (y\<lparr>gs_gate := ga, gs_running := gs_running y - {#(t, g)#}, gs_closing := gs_closing y + replicate_mset n g\<rparr>)"
proof -
  note rem = leases_on_remove [OF assms(2)]
  have "ga_records (gs_gate y) g \<noteq> None" using assms(1) rem(2) by (auto simp: gate_inv_def)
  then obtain r where r: "ga_records (gs_gate y) g = Some r" by auto
  note ok = gate_inv_record [OF assms(1) r]
  define ths where "ths = (gr_threads r)(t := if owned t r \<le> 1 then None else Some (owned t r - 1))"
  define r1 where "r1 = r\<lparr>gr_leases := gr_leases r - 1, gr_threads := ths,
    gr_deferred := (if gr_leases r \<le> 1 then 0 else gr_deferred r)\<rparr>"
  have ga: "ga = upd_record g r1 (gs_gate y)" "n = (if gr_leases r \<le> 1 then gr_deferred r else 0)"
    using assms(3) r by (auto simp: lease_exit_def Let_def r1_def ths_def split: if_splits)
  have own: "owned u r1 = (if u = t then owned t r - 1 else owned u r)" for u by (auto simp: owned_def r1_def ths_def)
  have le: "g \<le> ga_next (gs_gate y)" using assms(1) r by (simp add: gate_inv_def)
  have pos: "0 < gr_leases r" "gr_leases r = leases_on g (gs_running y)" using ok rem(2) by (simp_all add: record_ok_def)
  have none: "count (gs_closing y) g = 0" "count (gs_closed y) g = 0" using ok pos(1) unfolding record_ok_def by auto
  have "record_ok (y\<lparr>gs_gate := ga, gs_running := gs_running y - {#(t, g)#}, gs_closing := gs_closing y + replicate_mset n g\<rparr>) g r1"
    unfolding record_ok_def
  proof (intro conjI allI)
    show "gr_leases r1 = leases_on g (gs_running (y\<lparr>gs_gate := ga, gs_running := gs_running y - {#(t, g)#},
        gs_closing := gs_closing y + replicate_mset n g\<rparr>))" using pos(2) rem(1) by (simp add: r1_def)
    show "owned u r1 = count (gs_running (y\<lparr>gs_gate := ga, gs_running := gs_running y - {#(t, g)#},
        gs_closing := gs_closing y + replicate_mset n g\<rparr>)) (u, g)" for u
      using ok unfolding own by (simp add: record_ok_def)
  qed (use ok none pos in \<open>auto simp: record_ok_def ga upd_record_def r1_def split: if_splits\<close>)
  then show ?thesis
    by (intro gate_inv_upd [OF assms(1), of _ g r1])
       (auto simp: ga upd_record_def same_at_def le filter_diff_mset)
qed

lemma gate_inv_drain:
  assumes "gate_inv y" and "ga_records (gs_gate y) g = Some r" and "\<not> gr_accepting r"
    and "drain_register g (gs_gate y) = (now, ga)"
  shows "gate_inv (y\<lparr>gs_gate := ga, gs_closing := gs_closing y + (if now then {#g#} else {#})\<rparr>)"
proof (cases "gr_registered r")
  case True
  with assms have "ga = gs_gate y" "\<not> now" by (auto simp: drain_register_def)
  with assms(1) show ?thesis by simp
next
  case False
  define r1 where "r1 = r\<lparr>gr_registered := True, gr_deferred := (if gr_leases r = 0 then gr_deferred r else gr_deferred r + 1)\<rparr>"
  have ga: "ga = upd_record g r1 (gs_gate y)" "now \<longleftrightarrow> gr_leases r = 0"
    using assms(2,4) False by (auto simp: drain_register_def Let_def r1_def split: if_splits)
  have le: "g \<le> ga_next (gs_gate y)" using assms(1,2) by (simp add: gate_inv_def)
  have own: "owned u r1 = owned u r" for u by (simp add: owned_def r1_def)
  have "record_ok (y\<lparr>gs_gate := ga, gs_closing := gs_closing y + (if now then {#g#} else {#})\<rparr>) g r1"
    using gate_inv_record [OF assms(1,2)] False assms(3) own by (auto simp: record_ok_def ga upd_record_def) (auto simp: r1_def)
  then show ?thesis
    by (intro gate_inv_upd [OF assms(1), of _ g r1]) (auto simp: ga upd_record_def same_at_def le)
qed

lemma gate_inv_closes:
  assumes "gate_inv y" and "g \<in># gs_closing y"
  shows "gate_inv (y\<lparr>gs_closing := gs_closing y - {#g#}, gs_closed := add_mset g (gs_closed y)\<rparr>)"
proof -
  have c: "0 < count (gs_closing y) g" using assms(2) by simp
  then obtain r where r: "ga_records (gs_gate y) g = Some r"
    using assms(1) unfolding gate_inv_def by (metis less_numeral_extra(3) not_None_eq)
  let ?y = "y\<lparr>gs_closing := gs_closing y - {#g#}, gs_closed := add_mset g (gs_closed y)\<rparr>"
  have ok: "record_ok y g r" using gate_inv_record [OF assms(1) r] .
  then have sum: "gr_deferred r + count (gs_closing y) g + count (gs_closed y) g = (if gr_registered r then 1 else 0)"
    by (simp add: record_ok_def)
  have reg: "gr_registered r"
  proof (rule ccontr)
    assume "\<not> gr_registered r"
    with sum have "gr_deferred r + count (gs_closing y) g + count (gs_closed y) g = 0" by (simp only: if_False)
    with c show False by linarith
  qed
  have one: "count (gs_closing y) g = 1 \<and> count (gs_closed y) g = 0 \<and> gr_deferred r = 0"
    using sum c unfolding if_P [OF reg] by linarith
  then have "record_ok ?y g r" using ok reg unfolding record_ok_def by auto
  moreover have "(ga_records (gs_gate y))(g \<mapsto> r) = ga_records (gs_gate y)" using r by (simp add: fun_upd_idem)
  ultimately show ?thesis using assms(1) r
    by (intro gate_inv_upd [OF assms(1), of ?y g r]) (auto simp: gate_inv_def same_at_def)
qed

lemma gate_inv_step: "gate_step y y' \<Longrightarrow> gate_inv y \<Longrightarrow> gate_inv y'"
proof (induction rule: gate_step.induct)
  case (drained y g r t now ga)
  from gate_inv_drain [OF drained(5,1,2,4)] show ?case .
qed (blast intro: gate_inv_publish gate_inv_retire gate_inv_enter gate_inv_exit gate_inv_closes)+

lemma gate_inv_reachable: "gate_step\<^sup>*\<^sup>* gate_start y \<Longrightarrow> gate_inv y"
  by (induction rule: rtranclp_induct) (auto intro: gate_inv_step gate_inv_start)

section \<open>Properties\<close>

text \<open>
  C5. A client is closed once and only when nobody uses it: under every interleaving of operations,
  reconnects and teardown, a finalizer that is about to run or has run belongs to a retired
  generation on which no operation holds a lease, it runs at most once per generation, and a
  generation that was handed to \<open>drain\<close> has its finalizer accounted for: waiting for the last lease,
  about to run, or run.
\<close>

theorem gate_closes_once_when_idle:
  assumes "gate_step\<^sup>*\<^sup>* gate_start y" and "ga_records (gs_gate y) g = Some r"
  shows "(g \<in># gs_closing y + gs_closed y \<longrightarrow> (\<forall>t. (t, g) \<notin># gs_running y) \<and> ga_current (gs_gate y) \<noteq> Some g)
    \<and> count (gs_closing y) g + count (gs_closed y) g \<le> 1
    \<and> (gr_registered r \<longrightarrow> gr_deferred r + count (gs_closing y) g + count (gs_closed y) g = 1
         \<and> (gr_deferred r = 1 \<longrightarrow> 0 < gr_leases r))"
proof -
  have ok: "record_ok y g r" using gate_inv_record [OF gate_inv_reachable [OF assms(1)] assms(2)] .
  then have sum: "gr_deferred r + count (gs_closing y) g + count (gs_closed y) g = (if gr_registered r then 1 else 0)"
    and run: "\<forall>t. owned t r = count (gs_running y) (t, g)" "gr_leases r = leases_on g (gs_running y)"
    unfolding record_ok_def by blast+
  have idle: "count (gs_closing y) g = 0 \<and> count (gs_closed y) g = 0 \<or> gr_leases r = 0" and def: "gr_deferred r = 0 \<or> 0 < gr_leases r"
    and reg: "gr_registered r \<longrightarrow> ga_current (gs_gate y) \<noteq> Some g" using ok unfolding record_ok_def by argo+
  have "(t, g) \<notin># gs_running y" if "gr_leases r = 0" for t
    using that run(2) leases_on_remove(2) [of t g "gs_running y"] by auto
  moreover have "gr_registered r" if "0 < count (gs_closing y) g + count (gs_closed y) g"
    by (rule ccontr) (use sum that in simp)
  ultimately show ?thesis using sum idle reg def by (auto simp flip: count_greater_zero_iff split: if_splits)
qed

text \<open>Thread 1 works on the first client while the connection is replaced; the close waits for it.\<close>

definition demo_record :: "bool \<Rightarrow> nat \<Rightarrow> nat \<Rightarrow> unit gen_record" where
  "demo_record acc n d = \<lparr>gr_value = (), gr_accepting = acc, gr_leases = n, gr_threads = (if n = 0 then Map.empty else [1 \<mapsto> n]),
     gr_deferred = d, gr_registered = (0 < d \<or> \<not> acc \<and> n = 0)\<rparr>"

definition demo_gate :: "nat option \<Rightarrow> unit gen_record \<Rightarrow> unit gate" where
  "demo_gate cur r = \<lparr>ga_next = 1, ga_current = cur, ga_records = [1 \<mapsto> r]\<rparr>"

definition demo_closing :: "unit gate_sys" where
  "demo_closing = \<lparr>gs_gate = demo_gate None (demo_record False 0 0), gs_running = {#}, gs_closing = {#1#}, gs_closed = {#}\<rparr>"

lemmas demo_gate_defs = demo_gate_def demo_record_def gate_start_def gate_init_def upd_record_def fresh_record_def owned_def Let_def

lemma demo_closing_reachable: "gate_step\<^sup>*\<^sup>* gate_start demo_closing"
proof -
  let ?y1 = "gate_start\<lparr>gs_gate := demo_gate (Some 1) (demo_record True 0 0)\<rparr>"
  let ?y2 = "?y1\<lparr>gs_gate := demo_gate (Some 1) (demo_record True 1 0), gs_running := {#(1, 1)#}\<rparr>"
  let ?y3 = "?y2\<lparr>gs_gate := demo_gate None (demo_record False 1 0)\<rparr>"
  let ?y4 = "?y3\<lparr>gs_gate := demo_gate None (demo_record False 1 1)\<rparr>"
  have "gate_step gate_start ?y1"
    using published [of "()" gate_start] by (simp add: gate_publish_def demo_gate_defs)
  moreover have "gate_step ?y1 ?y2"
    using entered [of 1 ?y1] by (simp add: lease_enter_def demo_gate_defs)
  moreover have "gate_step ?y2 ?y3"
    using retired [of ?y2] by (simp add: gate_retire_def demo_gate_defs)
  moreover have "gate_step ?y3 ?y4"
    using drained [of ?y3 1 "demo_record False 1 0" 1 False] by (simp add: drain_ready_def drain_register_def demo_gate_defs)
  moreover have "gate_step ?y4 demo_closing"
    using left [of 1 1 ?y4] by (simp add: lease_exit_def demo_gate_defs demo_closing_def)
  ultimately show ?thesis by (meson converse_rtranclp_into_rtranclp rtranclp.rtrancl_refl)
qed

theorem gate_closes_once_when_idle_witness:
  "1 \<in># gs_closing demo_closing \<and> (\<forall>t. (t, 1) \<notin># gs_running demo_closing) \<and> count (gs_closing demo_closing) 1 = 1"
  using gate_closes_once_when_idle [OF demo_closing_reachable, of 1 "demo_record False 0 0"]
  by (simp add: demo_closing_def demo_gate_def)

end
