(* ===== verification/Batched_Storage.thy ===== *)
theory Batched_Storage
  imports Prelude "HOL-Library.Sublist"
begin

text \<open>
  The batched storage strategy \<open>storage/strategies/batched.py\<close>, with the passthrough strategy: items are
  accepted into a buffer with the backend they are bound to, and written in insertion order by a
  flush that detaches the buffer, writes outside the lock, and puts back what it did not write.

  A backend write is the parameter \<open>put\<close> and the monitor's \<open>on_store\<close> the parameter \<open>hook\<close>. Both run
  without the lock, so other threads may change the strategy meanwhile: they take it and return it.
  How a lock acquisition or a thread join ended is an argument (\<open>acquired\<close>, \<open>control\<close>, \<open>alive\<close>). The
  gauge and log emissions are left out; the error boundaries around \<open>flush\<close> and \<open>close\<close> rebuild an
  exception of the same class, which is all that is modelled of an exception.
\<close>

section \<open>State\<close>

type_synonym stored_entry = "nat \<times> string \<times> bytes \<times> int option"

record batched =
  bs_threshold :: nat
  bs_max_pending :: nat
  bs_max_age :: "rat option"
  bs_buffer :: "stored_entry list"
  bs_in_flight :: nat
  bs_closed :: bool
  bs_owner :: "nat option"
  bs_oldest :: "rat option"
  bs_flusher :: bool

text \<open>The age limit is not checked for bool, which counts as the numbers 0 and 1.\<close>

fun max_age_value :: "pyval \<Rightarrow> rat option result" where
  "max_age_value PyNone = Inr None"
| "max_age_value (PyBool x) = (if x then Inr (Some 1) else Inl ValueError)"
| "max_age_value (PyInt n) = rbind (float_of_int n) (\<lambda>_. if n \<le> 0 then Inl ValueError else Inr (Some (of_int n)))"
| "max_age_value (PyFloat (Fin x)) = (if x \<le> 0 then Inl ValueError else Inr (Some x))"
| "max_age_value (PyFloat _) = Inl ValueError"
| "max_age_value _ = Inl TypeError"

definition batched_init :: "pyval \<Rightarrow> pyval \<Rightarrow> pyval \<Rightarrow> batched result" where
  "batched_init threshold max_age max_pending =
     (case threshold of
        PyInt n \<Rightarrow> rbind (float_of_int n) (\<lambda>_.
          if n < 1 then Inl ValueError
          else case (if max_pending = PyNone then PyInt (2 * n) else max_pending) of
            PyInt m \<Rightarrow>
              (if m < n then Inl ValueError
               else rbind (max_age_value max_age) (\<lambda>a.
                 Inr \<lparr>bs_threshold = nat n, bs_max_pending = nat m, bs_max_age = a, bs_buffer = [], bs_in_flight = 0,
                      bs_closed = False, bs_owner = None, bs_oldest = None, bs_flusher = False\<rparr>))
          | _ \<Rightarrow> Inl ValueError)
      | _ \<Rightarrow> Inl ValueError)"

definition attach_owner :: "nat \<Rightarrow> batched \<Rightarrow> (unit, batched) outcome" where
  "attach_owner owner b =
     (if bs_closed b then (Inl RuntimeError, b)
      else case bs_owner b of
        None \<Rightarrow> (Inr (), b\<lparr>bs_owner := Some owner\<rparr>)
      | Some o' \<Rightarrow> (if o' = owner then Inr () else Inl RuntimeError, b))"

definition pending :: "batched \<Rightarrow> nat" where
  "pending b = length (bs_buffer b) + bs_in_flight b"

section \<open>Critical sections\<close>

text \<open>Admission: the answer says whether the threshold is reached. The clock is read for the first item.\<close>

definition batched_admit :: "('s \<Rightarrow> rat \<times> 's) \<Rightarrow> stored_entry \<Rightarrow> batched \<Rightarrow> 's \<Rightarrow> (bool, batched \<times> 's) outcome" where
  "batched_admit clock e b s =
     (if bs_closed b then (Inl RuntimeError, b, s)
      else if bs_max_pending b \<le> pending b then (Inl StorageBackpressureError, b, s)
      else case (case bs_oldest b of Some t \<Rightarrow> (t, s) | None \<Rightarrow> clock s) of (t, s') \<Rightarrow>
        (let b' = b\<lparr>bs_buffer := bs_buffer b @ [e], bs_oldest := Some t\<rparr> in
         (Inr (bs_threshold b \<le> length (bs_buffer b')), b', s')))"

definition detach_batch :: "batched \<Rightarrow> stored_entry list \<times> batched" where
  "detach_batch b =
     (bs_buffer b, b\<lparr>bs_buffer := [], bs_oldest := None, bs_in_flight := bs_in_flight b + length (bs_buffer b)\<rparr>)"

definition release_persisted :: "batched \<Rightarrow> (unit, batched) outcome" where
  "release_persisted b =
     (if bs_in_flight b = 0 then (Inl RuntimeError, b) else (Inr (), b\<lparr>bs_in_flight := bs_in_flight b - 1\<rparr>))"

definition requeue_tail :: "('s \<Rightarrow> rat \<times> 's) \<Rightarrow> stored_entry list \<Rightarrow> batched \<Rightarrow> 's \<Rightarrow> (nat, batched \<times> 's) outcome" where
  "requeue_tail clock tail b s =
     (if bs_in_flight b < length tail then (Inl RuntimeError, b, s)
      else let b' = b\<lparr>bs_buffer := tail @ bs_buffer b, bs_in_flight := bs_in_flight b - length tail\<rparr> in
           if bs_buffer b' = [] then (Inr (pending b'), b', s)
           else case clock s of (t, s') \<Rightarrow> (Inr (pending b'), b'\<lparr>bs_oldest := Some t\<rparr>, s'))"

text \<open>\<open>start\<close> is how starting the thread ends.\<close>

definition ensure_flusher :: "unit result \<Rightarrow> batched \<Rightarrow> (unit, batched) outcome" where
  "ensure_flusher start b =
     (if bs_max_age b = None \<or> bs_closed b \<or> bs_flusher b then (Inr (), b)
      else case start of Inl e \<Rightarrow> (Inl e, b) | Inr _ \<Rightarrow> (Inr (), b\<lparr>bs_flusher := True\<rparr>))"

section \<open>Operations\<close>

type_synonym 's put = "stored_entry \<Rightarrow> batched \<Rightarrow> 's \<Rightarrow> (unit, batched \<times> 's) outcome"

text \<open>
  The write loop. A failed write puts the item and the rest back; a process signal from the monitor
  puts back the rest only, since the item is already written; other monitor failures are ignored.
\<close>

fun flush_loop ::
  "'s put \<Rightarrow> 's put \<Rightarrow> ('s \<Rightarrow> rat \<times> 's) \<Rightarrow> stored_entry list \<Rightarrow> batched \<Rightarrow> 's \<Rightarrow> (unit, batched \<times> 's) outcome" where
  "flush_loop put hook clock [] b s = (Inr (), b, s)"
| "flush_loop put hook clock (e # rest) b s =
     (case put e b s of
        (Inl x, b1, s1) \<Rightarrow>
          (case requeue_tail clock (e # rest) b1 s1 of (Inl y, r) \<Rightarrow> (Inl y, r) | (Inr _, r) \<Rightarrow> (Inl x, r))
      | (Inr _, b1, s1) \<Rightarrow>
          (case release_persisted b1 of
             (Inl y, b2) \<Rightarrow> (Inl y, b2, s1)
           | (Inr _, b2) \<Rightarrow>
               (case hook e b2 s1 of (r, b3, s3) \<Rightarrow>
                  if r = Inl ProcessSignal then
                    (if rest = [] then (Inl ProcessSignal, b3, s3)
                     else case requeue_tail clock rest b3 s3 of (Inl y, q) \<Rightarrow> (Inl y, q) | (Inr _, q) \<Rightarrow> (Inl ProcessSignal, q))
                  else flush_loop put hook clock rest b3 s3)))"

definition flush_serialized ::
  "'s put \<Rightarrow> 's put \<Rightarrow> ('s \<Rightarrow> rat \<times> 's) \<Rightarrow> batched \<Rightarrow> 's \<Rightarrow> (unit, batched \<times> 's) outcome" where
  "flush_serialized put hook clock b s =
     (case detach_batch b of (batch, b') \<Rightarrow> flush_loop put hook clock batch b' s)"

definition batched_flush ::
  "bool \<Rightarrow> bool \<Rightarrow> 's put \<Rightarrow> 's put \<Rightarrow> ('s \<Rightarrow> rat \<times> 's) \<Rightarrow> batched \<Rightarrow> 's \<Rightarrow> (unit, batched \<times> 's) outcome" where
  "batched_flush acquired raise_on_lock_timeout put hook clock b s =
     (if \<not> acquired then (if raise_on_lock_timeout then Inl StorageError else Inr (), b, s)
      else flush_serialized put hook clock b s)"

definition batched_store ::
  "bool \<Rightarrow> unit result \<Rightarrow> 's put \<Rightarrow> 's put \<Rightarrow> ('s \<Rightarrow> rat \<times> 's) \<Rightarrow> stored_entry \<Rightarrow> batched \<Rightarrow> 's
    \<Rightarrow> (unit, batched \<times> 's) outcome" where
  "batched_store acquired start put hook clock e b s =
     (case batched_admit clock e b s of
        (Inl x, b1, s1) \<Rightarrow> (Inl x, b1, s1)
      | (Inr flush_now, b1, s1) \<Rightarrow>
          (case ensure_flusher start b1 of
             (Inl x, b2) \<Rightarrow> (Inl x, b2, s1)
           | (Inr _, b2) \<Rightarrow> if flush_now then batched_flush acquired False put hook clock b2 s1 else (Inr (), b2, s1)))"

text \<open>
  Closing. \<open>control\<close> is the first signal caught while waiting for the flusher and the lock, \<open>acquired\<close>
  whether the lock was obtained before the deadline, \<open>alive\<close> whether the flusher still runs at the end.
\<close>

definition final_drain ::
  "'s put \<Rightarrow> 's put \<Rightarrow> ('s \<Rightarrow> rat \<times> 's) \<Rightarrow> batched \<Rightarrow> 's \<Rightarrow> (unit, batched \<times> 's) outcome" where
  "final_drain put hook clock b s =
     (case flush_serialized put hook clock b s of
        (Inl x, b1, s1) \<Rightarrow>
          (if x = ProcessSignal \<or> bs_buffer b1 = [] then (Inl x, b1, s1) else flush_serialized put hook clock b1 s1)
      | r \<Rightarrow> r)"

definition batched_close ::
  "bool \<Rightarrow> exn option \<Rightarrow> bool \<Rightarrow> 's put \<Rightarrow> 's put \<Rightarrow> ('s \<Rightarrow> rat \<times> 's) \<Rightarrow> batched \<Rightarrow> 's \<Rightarrow> (unit, batched \<times> 's) outcome" where
  "batched_close acquired control alive put hook clock b s =
     (case (if acquired then final_drain put hook clock (b\<lparr>bs_closed := True\<rparr>) s
            else (Inl StorageError, b\<lparr>bs_closed := True\<rparr>, s)) of (r, b1, s1) \<Rightarrow>
        (case (control, r) of
           (Some x, _) \<Rightarrow> (Inl x, b1, s1)
         | (None, Inl x) \<Rightarrow> (Inl x, b1, s1)
         | (None, Inr _) \<Rightarrow>
             if pending b1 \<noteq> 0 \<or> alive then (Inl StorageError, b1, s1)
             else (Inr (), b1\<lparr>bs_owner := None\<rparr>, s1)))"

text \<open>The age flusher: how long it waits, and whether it flushes when it wakes.\<close>

definition age_wait_floor :: rat where
  "age_wait_floor = 5764607523034235 / 2 ^ 59"

definition next_age_wait :: "rat \<Rightarrow> rat \<Rightarrow> batched \<Rightarrow> pyfloat" where
  "next_age_wait age now b =
     (case bs_oldest b of
        None \<Rightarrow> Fin age
      | Some t \<Rightarrow>
          (if bs_buffer b = [] then Fin age
           else fmax (case fsub now t of Fin d \<Rightarrow> fsub age d | PInf \<Rightarrow> NInf | NInf \<Rightarrow> PInf | NaN \<Rightarrow> NaN) (Fin age_wait_floor)))"

definition need_flush :: "rat \<Rightarrow> rat \<Rightarrow> batched \<Rightarrow> bool" where
  "need_flush age now b \<longleftrightarrow>
     bs_buffer b \<noteq> [] \<and> (case bs_oldest b of None \<Rightarrow> False | Some t \<Rightarrow> \<not> fless (fsub now t) (Fin age))"

section \<open>The passthrough strategy and the selection\<close>

definition passthrough_store :: "(stored_entry \<Rightarrow> 's \<Rightarrow> (unit, 's) outcome) \<Rightarrow> stored_entry \<Rightarrow> 's \<Rightarrow> (unit, 's) outcome" where
  "passthrough_store put e s = put e s"

section \<open>Threads\<close>

text \<open>
  Callers, flushes and closing interleave. \<open>sy_batch\<close> is what the flush that holds the serialization
  lock still has to write; \<open>sy_accepted\<close> the items accepted so far, \<open>sy_confirmed\<close> those whose write
  returned, \<open>sy_durable\<close> what the backends hold: a write that raises may have been carried out.
\<close>

record bs_sys =
  sy_b :: batched
  sy_batch :: "stored_entry list option"
  sy_accepted :: "stored_entry list"
  sy_confirmed :: "stored_entry list"
  sy_durable :: "stored_entry list"

inductive bs_step :: "bs_sys \<Rightarrow> bs_sys \<Rightarrow> bool" where
  accept: "batched_admit clock e (sy_b y) (s :: rat) = (Inr f, b, s')
    \<Longrightarrow> bs_step y (y\<lparr>sy_b := b, sy_accepted := sy_accepted y @ [e]\<rparr>)"
| refuse: "batched_admit clock e (sy_b y) (s :: rat) = (Inl x, b, s') \<Longrightarrow> bs_step y (y\<lparr>sy_b := b\<rparr>)"
| begin_flush: "sy_batch y = None \<Longrightarrow> detach_batch (sy_b y) = (batch, b) \<Longrightarrow> bs_step y (y\<lparr>sy_b := b, sy_batch := Some batch\<rparr>)"
| written: "sy_batch y = Some (e # rest) \<Longrightarrow> release_persisted (sy_b y) = (r, b)
    \<Longrightarrow> bs_step y (y\<lparr>sy_b := b, sy_batch := Some rest, sy_confirmed := sy_confirmed y @ [e], sy_durable := sy_durable y @ [e]\<rparr>)"
| write_failed: "sy_batch y = Some (e # rest) \<Longrightarrow> requeue_tail clock (e # rest) (sy_b y) (s :: rat) = (r, b, s')
    \<Longrightarrow> d = [] \<or> d = [e] \<Longrightarrow> bs_step y (y\<lparr>sy_b := b, sy_batch := None, sy_durable := sy_durable y @ d\<rparr>)"
| signalled: "sy_batch y = Some rest \<Longrightarrow> requeue_tail clock rest (sy_b y) (s :: rat) = (r, b, s')
    \<Longrightarrow> bs_step y (y\<lparr>sy_b := b, sy_batch := None\<rparr>)"
| finished: "sy_batch y = Some [] \<Longrightarrow> bs_step y (y\<lparr>sy_batch := None\<rparr>)"
| begin_close: "bs_step y (y\<lparr>sy_b := (sy_b y)\<lparr>bs_closed := True\<rparr>\<rparr>)"

definition bs_start :: "batched \<Rightarrow> bs_sys" where
  "bs_start b = \<lparr>sy_b = b, sy_batch = None, sy_accepted = [], sy_confirmed = [], sy_durable = []\<rparr>"

definition in_hand_batch :: "bs_sys \<Rightarrow> stored_entry list" where
  "in_hand_batch y = (case sy_batch y of None \<Rightarrow> [] | Some batch \<Rightarrow> batch)"

definition bs_inv :: "bs_sys \<Rightarrow> bool" where
  "bs_inv y \<longleftrightarrow> sy_confirmed y @ in_hand_batch y @ bs_buffer (sy_b y) = sy_accepted y
     \<and> bs_in_flight (sy_b y) = length (in_hand_batch y) \<and> pending (sy_b y) \<le> bs_max_pending (sy_b y)
     \<and> subseq (sy_confirmed y) (sy_durable y) \<and> (bs_oldest (sy_b y) = None \<longleftrightarrow> bs_buffer (sy_b y) = [])"

lemma requeue_ok:
  assumes "length tail \<le> bs_in_flight b" and "requeue_tail clock tail b s = (r, b', s')"
  shows "r = Inr (pending b)" and "bs_buffer b' = tail @ bs_buffer b" and "bs_in_flight b' = bs_in_flight b - length tail"
    and "bs_max_pending b' = bs_max_pending b" and "bs_closed b' = bs_closed b" and "bs_owner b' = bs_owner b"
    and "bs_oldest b' = None \<longleftrightarrow> tail = [] \<and> bs_buffer b = [] \<and> bs_oldest b = None"
    and "s' = s \<or> s' = snd (clock s)"
  using assms by (auto simp: requeue_tail_def Let_def pending_def split: if_splits prod.splits)

lemma release_ok: "0 < bs_in_flight b \<Longrightarrow> release_persisted b = (Inr (), b\<lparr>bs_in_flight := bs_in_flight b - 1\<rparr>)"
  by (simp add: release_persisted_def)

lemma bs_inv_start: "batched_init t a m = Inr b \<Longrightarrow> bs_inv (bs_start b)"
  by (auto simp: batched_init_def bs_inv_def bs_start_def in_hand_batch_def pending_def rbind_eq_Inr_iff
      split: pyval.splits if_splits)

lemma bs_inv_requeue:
  assumes "bs_inv y" and "sy_batch y = Some tail" and "requeue_tail clock tail (sy_b y) s = (r, b, s')"
  shows "bs_inv (y\<lparr>sy_b := b, sy_batch := None, sy_durable := sy_durable y @ d\<rparr>)"
proof -
  have "length tail \<le> bs_in_flight (sy_b y)" using assms(1,2) by (simp add: bs_inv_def in_hand_batch_def)
  note q = requeue_ok [OF this assms(3)]
  have "subseq (sy_confirmed y) (sy_durable y @ d)" using assms(1) by (simp add: bs_inv_def list_emb_prefix)
  moreover have inv: "sy_confirmed y @ tail @ bs_buffer (sy_b y) = sy_accepted y" "bs_in_flight (sy_b y) = length tail"
    "pending (sy_b y) \<le> bs_max_pending (sy_b y)" "bs_oldest (sy_b y) = None \<longleftrightarrow> bs_buffer (sy_b y) = []"
    using assms(1,2) by (simp_all add: bs_inv_def in_hand_batch_def)
  moreover have "bs_oldest b = None \<longleftrightarrow> bs_buffer b = []" using q(2,7) inv(4) by simp
  ultimately show ?thesis using q(2-4) by (simp add: bs_inv_def in_hand_batch_def pending_def)
qed

lemma bs_inv_step: "bs_step y y' \<Longrightarrow> bs_inv y \<Longrightarrow> bs_inv y'"
proof (induction rule: bs_step.induct)
  case (accept clock e y s f b s')
  then show ?case
    by (auto simp: bs_inv_def batched_admit_def in_hand_batch_def pending_def Let_def split: if_splits prod.splits option.splits)
next
  case (refuse clock e y s x b s')
  then show ?case by (auto simp: batched_admit_def Let_def split: if_splits prod.splits option.splits)
next
  case (begin_flush y batch b)
  then show ?case by (auto simp: bs_inv_def detach_batch_def in_hand_batch_def pending_def)
next
  case (written y e rest r b)
  then have "0 < bs_in_flight (sy_b y)" by (simp add: bs_inv_def in_hand_batch_def)
  moreover have "subseq (sy_confirmed y @ [e]) (sy_durable y @ [e])"
    using written(3) by (intro list_emb_append_mono) (simp_all add: bs_inv_def)
  ultimately show ?case using written release_ok by (auto simp: bs_inv_def in_hand_batch_def pending_def)
next
  case (write_failed y e rest clock s r b s' d)
  from bs_inv_requeue [OF write_failed(4,1,2)] show ?case .
next
  case (signalled y rest clock s r b s')
  from bs_inv_requeue [OF signalled(3,1,2), of "[]"] show ?case by simp
qed (auto simp: bs_inv_def in_hand_batch_def pending_def)

lemma bs_inv_reachable: "bs_step\<^sup>*\<^sup>* y y' \<Longrightarrow> bs_inv y \<Longrightarrow> bs_inv y'"
  by (induction rule: rtranclp_induct) (auto intro: bs_inv_step)

section \<open>Flushing alone\<close>

text \<open>
  Without interference. \<open>held\<close> observes what the backends hold: a write that returns has stored the
  item, one that raises may have; the monitor and the clock store nothing.
\<close>

definition writes_to :: "('s \<Rightarrow> stored_entry list) \<Rightarrow> 's put \<Rightarrow> bool" where
  "writes_to held put \<longleftrightarrow>
     (\<forall>e b s r b' s'. put e b s = (r, b', s') \<longrightarrow>
        b' = b \<and> (case r of Inr _ \<Rightarrow> held s' = held s @ [e] | Inl _ \<Rightarrow> held s' = held s \<or> held s' = held s @ [e]))"

definition stores_nothing :: "('s \<Rightarrow> stored_entry list) \<Rightarrow> 's put \<Rightarrow> ('s \<Rightarrow> rat \<times> 's) \<Rightarrow> bool" where
  "stores_nothing held hook clock \<longleftrightarrow>
     (\<forall>e b s r b' s'. hook e b s = (r, b', s') \<longrightarrow> b' = b \<and> held s' = held s) \<and> (\<forall>s. held (snd (clock s)) = held s)"

text \<open>What a flush did: it wrote \<open>pre\<close> (and perhaps the next item, whose write raised), and holds \<open>post\<close>.\<close>

definition flushed ::
  "('s \<Rightarrow> stored_entry list) \<Rightarrow> stored_entry list \<Rightarrow> batched \<Rightarrow> 's \<Rightarrow> unit result \<Rightarrow> batched \<Rightarrow> 's \<Rightarrow> bool" where
  "flushed held batch b s r b' s' \<longleftrightarrow>
     (\<exists>pre post ys. batch = pre @ post \<and> bs_buffer b' = post @ bs_buffer b \<and> bs_in_flight b' = 0
        \<and> held s' = held s @ ys \<and> subseq pre ys \<and> (r = Inr () \<longrightarrow> post = []) \<and> bs_closed b' = bs_closed b)"

lemma flushed_requeue:
  assumes "bs_in_flight b = length tail" and "requeue_tail clock tail b s = (q, b', s')"
    and "held s = log0 @ ys" and "stores_nothing held hook clock"
  shows "bs_buffer b' = tail @ bs_buffer b \<and> bs_in_flight b' = 0 \<and> held s' = log0 @ ys \<and> (\<exists>d. q = Inr d) \<and> bs_closed b' = bs_closed b"
  using requeue_ok [OF _ assms(2)] assms(1,3,4) by (auto simp: stores_nothing_def)

lemma flush_loop_flushed:
  assumes "writes_to held put" and "stores_nothing held hook clock"
    and "bs_in_flight b = length batch" and "flush_loop put hook clock batch b s = (r, b', s')"
  shows "flushed held batch b s r b' s'"
  using assms(3,4)
proof (induction batch arbitrary: b s)
  case Nil
  then show ?case by (auto simp: flushed_def)
next
  case (Cons e rest)
  obtain r1 b1 s1 where p: "put e b s = (r1, b1, s1)" using prod_cases3 by blast
  note w = assms(1) [unfolded writes_to_def, rule_format, OF p]
  show ?case
  proof (cases r1)
    case (Inl x)
    obtain q b2 s2 where rq: "requeue_tail clock (e # rest) b1 s1 = (q, b2, s2)" using prod_cases3 by blast
    obtain ys where ys: "held s1 = held s @ ys" using w Inl by auto
    have "bs_in_flight b1 = length (e # rest)" using Cons.prems(1) w by simp
    note f = flushed_requeue [OF this rq ys assms(2)]
    then have "r = Inl x" "b' = b2" "s' = s2" using Cons.prems(2) p Inl rq by auto
    with f w show ?thesis unfolding flushed_def
      by (intro exI [of _ "[]"] exI [of _ "e # rest"] exI [of _ ys]) auto
  next
    case (Inr u)
    then have l1: "b1 = b" "held s1 = held s @ [e]" using w by auto
    have rel: "release_persisted b1 = (Inr (), b\<lparr>bs_in_flight := length rest\<rparr>)"
      using Cons.prems(1) l1 by (simp add: release_persisted_def)
    let ?b2 = "b\<lparr>bs_in_flight := length rest\<rparr>"
    obtain r3 b3 s3 where h: "hook e ?b2 s1 = (r3, b3, s3)" using prod_cases3 by blast
    have l3: "b3 = ?b2" "held s3 = held s @ [e]" 
      using assms(2) [unfolded stores_nothing_def, THEN conjunct1, rule_format, OF h] l1 by auto
    show ?thesis
    proof (cases "r3 = Inl ProcessSignal")
      case False
      then have "flush_loop put hook clock rest ?b2 s3 = (r, b', s')" using Cons.prems(2) p Inr rel h l3 by simp
      from Cons.IH [OF _ this] obtain pre post ys where
        f: "rest = pre @ post" "bs_buffer b' = post @ bs_buffer b" "bs_in_flight b' = 0" "held s' = held s3 @ ys"
        "subseq pre ys" "r = Inr () \<longrightarrow> post = []" "bs_closed b' = bs_closed b"
        by (auto simp: flushed_def)
      then show ?thesis unfolding flushed_def
        by (intro exI [of _ "e # pre"] exI [of _ post] exI [of _ "e # ys"]) (simp add: l3)
    next
      case True
      show ?thesis
      proof (cases "rest = []")
        case True
        with \<open>r3 = Inl ProcessSignal\<close> Cons.prems p Inr rel h l3 show ?thesis unfolding flushed_def
          by (intro exI [of _ "[e]"] exI [of _ "[]"] exI [of _ "[e]"]) auto
      next
        case False
        obtain q b4 s4 where rq: "requeue_tail clock rest ?b2 s3 = (q, b4, s4)" using prod_cases3 by blast
        have "bs_in_flight ?b2 = length rest" by simp
        note f = flushed_requeue [OF this rq l3(2) assms(2)]
        then have "r = Inl ProcessSignal" "b' = b4" "s' = s4"
          using False True Cons.prems(2) p Inr rel h l3 rq by auto
        with f show ?thesis unfolding flushed_def
          by (intro exI [of _ "[e]"] exI [of _ rest] exI [of _ "[e]"]) auto
      qed
    qed
  qed
qed

text \<open>The same for the whole buffer.\<close>

definition drained ::
  "('s \<Rightarrow> stored_entry list) \<Rightarrow> batched \<Rightarrow> 's \<Rightarrow> unit result \<Rightarrow> batched \<Rightarrow> 's \<Rightarrow> bool" where
  "drained held b s r b' s' \<longleftrightarrow>
     (\<exists>pre ys. bs_buffer b = pre @ bs_buffer b' \<and> held s' = held s @ ys \<and> subseq pre ys)
   \<and> bs_in_flight b' = 0 \<and> (r = Inr () \<longrightarrow> bs_buffer b' = []) \<and> bs_closed b' = bs_closed b"

lemma drained_trans:
  assumes "drained held b s r1 b1 s1" and "drained held b1 s1 r b' s'"
  shows "drained held b s r b' s'"
proof -
  from assms(1) obtain pre ys where 1: "bs_buffer b = pre @ bs_buffer b1" "held s1 = held s @ ys" "subseq pre ys"
    by (auto simp: drained_def)
  from assms(2) obtain pre2 ys2 where 2: "bs_buffer b1 = pre2 @ bs_buffer b'" "held s' = held s1 @ ys2" "subseq pre2 ys2"
    by (auto simp: drained_def)
  have "bs_buffer b = (pre @ pre2) @ bs_buffer b'" "held s' = held s @ (ys @ ys2)" "subseq (pre @ pre2) (ys @ ys2)"
    using 1 2 by (simp_all add: list_emb_append_mono)
  then have "\<exists>pre ys. bs_buffer b = pre @ bs_buffer b' \<and> held s' = held s @ ys \<and> subseq pre ys" by (intro exI conjI)
  with assms show ?thesis by (simp add: drained_def)
qed

lemma flush_serialized_drained:
  assumes "writes_to held put" and "stores_nothing held hook clock" and "bs_in_flight b = 0"
    and "flush_serialized put hook clock b s = (r, b', s')"
  shows "drained held b s r b' s'"
proof -
  let ?b = "b\<lparr>bs_buffer := [], bs_oldest := None, bs_in_flight := length (bs_buffer b)\<rparr>"
  have "flush_loop put hook clock (bs_buffer b) ?b s = (r, b', s')"
    using assms(3,4) by (simp add: flush_serialized_def detach_batch_def)
  from flush_loop_flushed [OF assms(1,2) _ this] show ?thesis by (auto simp: flushed_def drained_def)
qed

lemma final_drain_drained:
  assumes "writes_to held put" and "stores_nothing held hook clock" and "bs_in_flight b = 0"
    and "final_drain put hook clock b s = (r, b', s')"
  shows "drained held b s r b' s'"
proof -
  obtain r1 b1 s1 where f1: "flush_serialized put hook clock b s = (r1, b1, s1)" using prod_cases3 by blast
  note d1 = flush_serialized_drained [OF assms(1-3) f1]
  show ?thesis
  proof (cases "\<exists>x. r1 = Inl x \<and> x \<noteq> ProcessSignal \<and> bs_buffer b1 \<noteq> []")
    case True
    then have f2: "flush_serialized put hook clock b1 s1 = (r, b', s')" using assms(4) f1 by (auto simp: final_drain_def)
    have "bs_in_flight b1 = 0" using d1 by (simp add: drained_def)
    from drained_trans [OF d1 flush_serialized_drained [OF assms(1,2) this f2]] show ?thesis .
  next
    case False
    then have "r = r1" "b' = b1" "s' = s1" using assms(4) f1 by (auto simp: final_drain_def split: sum.splits if_splits)
    with d1 show ?thesis by simp
  qed
qed

section \<open>Properties\<close>

text \<open>
  C4. At-least-once in order, under every interleaving of callers, flushes and closing, with writes
  that fail and writes that fail after taking effect: the items whose write returned, then those of
  the running flush, then the buffer, are exactly the accepted items in the order of acceptance;
  the confirmed ones are in the backends in that order; what is accepted but not yet written never
  exceeds \<open>max_pending\<close>; and the accounting guards of the code never fire.
\<close>

theorem batched_at_least_once:
  assumes "batched_init threshold max_age max_pending = Inr b" and "bs_step\<^sup>*\<^sup>* (bs_start b) y"
  shows "sy_confirmed y @ in_hand_batch y @ bs_buffer (sy_b y) = sy_accepted y \<and> subseq (sy_confirmed y) (sy_durable y)
    \<and> length (in_hand_batch y) + length (bs_buffer (sy_b y)) \<le> bs_max_pending (sy_b y)
    \<and> (in_hand_batch y \<noteq> [] \<longrightarrow> fst (release_persisted (sy_b y)) = Inr ())
    \<and> (\<forall>clock (s :: rat). \<exists>n. fst (requeue_tail clock (in_hand_batch y) (sy_b y) s) = Inr n)"
proof -
  have inv: "bs_inv y" using bs_inv_reachable [OF assms(2) bs_inv_start [OF assms(1)]] .
  then have "length (in_hand_batch y) \<le> bs_in_flight (sy_b y)" by (simp add: bs_inv_def)
  then have "\<exists>n. fst (requeue_tail clock (in_hand_batch y) (sy_b y) s) = Inr n" for clock and s :: rat
    using requeue_ok(1) [of "in_hand_batch y" "sy_b y" clock s] by (metis fst_conv prod_cases3)
  with inv show ?thesis by (auto simp: bs_inv_def pending_def release_persisted_def)
qed

definition demo_batched :: "stored_entry list \<Rightarrow> nat \<Rightarrow> batched" where
  "demo_batched buffer n = \<lparr>bs_threshold = 2, bs_max_pending = 4, bs_max_age = None, bs_buffer = buffer, bs_in_flight = n,
     bs_closed = False, bs_owner = None, bs_oldest = (if buffer = [] then None else Some 0), bs_flusher = False\<rparr>"

definition demo_item :: "nat \<Rightarrow> stored_entry" where
  "demo_item k = (0, ''k'', [of_nat k], None)"

theorem batched_at_least_once_witness:
  "\<exists>y. bs_step\<^sup>*\<^sup>* (bs_start (demo_batched [] 0)) y \<and> sy_confirmed y = [demo_item 1] \<and> bs_buffer (sy_b y) = [demo_item 2]
     \<and> sy_accepted y = [demo_item 1, demo_item 2]"
proof -
  have i: "batched_init (PyInt 2) PyNone PyNone = Inr (demo_batched [] 0)" by (simp add: batched_init_def demo_batched_def)
  let ?y0 = "bs_start (demo_batched [] 0)"
  let ?y1 = "?y0\<lparr>sy_b := demo_batched [demo_item 1] 0, sy_accepted := [demo_item 1]\<rparr>"
  let ?y2 = "?y1\<lparr>sy_b := demo_batched [demo_item 1, demo_item 2] 0, sy_accepted := [demo_item 1, demo_item 2]\<rparr>"
  let ?y3 = "?y2\<lparr>sy_b := demo_batched [] 2, sy_batch := Some [demo_item 1, demo_item 2]\<rparr>"
  let ?y4 = "?y3\<lparr>sy_b := demo_batched [] 1, sy_batch := Some [demo_item 2], sy_confirmed := [demo_item 1], sy_durable := [demo_item 1]\<rparr>"
  let ?y5 = "?y4\<lparr>sy_b := demo_batched [demo_item 2] 0, sy_batch := None\<rparr>"
  have "bs_step ?y0 ?y1"
    using accept [of "\<lambda>s. (0, s)" "demo_item 1" ?y0 0 False] by (simp add: bs_start_def demo_batched_def batched_admit_def pending_def)
  moreover have "bs_step ?y1 ?y2"
    using accept [of "\<lambda>s. (0, s)" "demo_item 2" ?y1 0 True] by (simp add: bs_start_def demo_batched_def batched_admit_def pending_def)
  moreover have "bs_step ?y2 ?y3"
    using begin_flush [of ?y2] by (simp add: bs_start_def demo_batched_def detach_batch_def numeral_2_eq_2)
  moreover have "bs_step ?y3 ?y4"
    using written [of ?y3] by (simp add: bs_start_def demo_batched_def release_persisted_def)
  moreover have "bs_step ?y4 ?y5"
    using write_failed [of ?y4 "demo_item 2" "[]" "\<lambda>s. (0, s)" 0, OF _ _ disjI1 [OF refl]]
    by (simp add: bs_start_def demo_batched_def requeue_tail_def pending_def)
  ultimately have run: "bs_step\<^sup>*\<^sup>* ?y0 ?y5" by (meson converse_rtranclp_into_rtranclp rtranclp.rtrancl_refl)
  have "sy_confirmed ?y5 @ in_hand_batch ?y5 @ bs_buffer (sy_b ?y5) = sy_accepted ?y5"
    using batched_at_least_once [OF i run] by blast
  with run show ?thesis by (intro exI [of _ ?y5]) (simp add: in_hand_batch_def demo_batched_def)
qed

text \<open>
  C12. Closing is a durability barrier: with no flush running, a close writes a prefix of the buffer
  in order and keeps the rest for a later close, and new items are refused from then on; it returns
  without an exception only when every item of the buffer has been written and the flusher has ended.
\<close>

theorem batched_close_durable:
  assumes "writes_to held put" and "stores_nothing held hook clock" and "bs_in_flight b = 0"
    and "batched_close acquired control alive put hook clock b s = (r, b', s')"
  shows "(\<exists>pre ys. bs_buffer b = pre @ bs_buffer b' \<and> held s' = held s @ ys \<and> subseq pre ys)
    \<and> (r = Inr () \<longrightarrow> bs_buffer b' = [] \<and> \<not> alive \<and> bs_owner b' = None) \<and> bs_closed b'"
proof (cases acquired)
  case False
  with assms(4) show ?thesis by (auto simp: batched_close_def split: option.splits)
next
  case True
  obtain r1 b1 s1 where d: "final_drain put hook clock (b\<lparr>bs_closed := True\<rparr>) s = (r1, b1, s1)" using prod_cases3 by blast
  have "drained held (b\<lparr>bs_closed := True\<rparr>) s r1 b1 s1" using final_drain_drained [OF assms(1,2) _ d] assms(3) by simp
  then have g: "\<exists>pre ys. bs_buffer b = pre @ bs_buffer b1 \<and> held s1 = held s @ ys \<and> subseq pre ys" "bs_closed b1"
    "r1 = Inr () \<longrightarrow> bs_buffer b1 = []" by (simp_all add: drained_def)
  have "bs_buffer b' = bs_buffer b1 \<and> s' = s1 \<and> bs_closed b' \<and> (r = Inr () \<longrightarrow> bs_buffer b1 = [] \<and> \<not> alive \<and> bs_owner b' = None)"
    using assms(4) True d g(2,3) by (auto simp: batched_close_def split: option.splits sum.splits if_splits)
  with g(1) show ?thesis by simp
qed

theorem batched_close_durable_witness:
  "\<exists>b'. batched_close True None False (\<lambda>e b s. (Inr (), b, s @ [e])) (\<lambda>e b s. (Inr (), b, s)) (\<lambda>s. (0, s))
       (demo_batched [demo_item 1, demo_item 2] 0) [] = (Inr (), b', [demo_item 1, demo_item 2]) \<and> bs_buffer b' = []"
proof -
  let ?put = "\<lambda>e b s. (Inr (), b, s @ [e])" and ?hook = "\<lambda>e b s. (Inr (), b, s)" and ?clock = "\<lambda>s. (0, s)"
  let ?b = "demo_batched [demo_item 1, demo_item 2] 0"
  have w: "writes_to (\<lambda>s. s) ?put" "stores_nothing (\<lambda>s. s) ?hook ?clock" by (auto simp: writes_to_def stores_nothing_def)
  obtain b' where c: "batched_close True None False ?put ?hook ?clock ?b [] = (Inr (), b', [demo_item 1, demo_item 2])"
    by (simp add: batched_close_def final_drain_def flush_serialized_def detach_batch_def demo_batched_def
        release_persisted_def pending_def)
  from batched_close_durable [OF w _ c] c show ?thesis by (auto simp: demo_batched_def)
qed

end
