(* ===== verification/Support.thy ===== *)
theory Support
  imports Held_Items Batched_Storage
begin

text \<open>
  The small shared modules: strict coercion of settings (\<open>utils/_config.py\<close>), identity templates of
  backend keys (\<open>utils/identity.py\<close>), full-jitter backoff (\<open>backends/_retry.py\<close>), best-effort closing of
  driver handles (\<open>backends/_close.py\<close>) and the selection of the storage strategy
  (\<open>storage/strategies/factory.py\<close>). Messages and labels of the errors are left out.
\<close>

section \<open>Settings\<close>

text \<open>\<open>int(s)\<close> of a string; CPython refuses more than 4300 digits.\<close>

definition int_of_string :: "string \<Rightarrow> int result" where
  "int_of_string s =
     (case split_sign (strip_spaces s) of (neg, body) \<Rightarrow>
        (case scan_digits body of (ds, rest) \<Rightarrow>
           if ds = [] \<or> rest \<noteq> [] \<or> 4300 < length ds then Inl ValueError
           else Inr ((if neg then - 1 else 1) * int (digits_to_nat ds))))"

definition parse_int_setting :: "int option \<Rightarrow> int option \<Rightarrow> pyval \<Rightarrow> int result" where
  "parse_int_setting minimum maximum raw =
     (case (case raw of PyInt n \<Rightarrow> Some n | PyStr s \<Rightarrow> (case int_of_string s of Inr n \<Rightarrow> Some n | Inl _ \<Rightarrow> None) | _ \<Rightarrow> None) of
        None \<Rightarrow> Inl ConfigurationError
      | Some v \<Rightarrow>
          (if (case minimum of None \<Rightarrow> False | Some m \<Rightarrow> v < m) then Inl ConfigurationError
           else if (case maximum of None \<Rightarrow> False | Some m \<Rightarrow> m < v) then Inl ConfigurationError
           else Inr v))"

definition parse_float_setting :: "rat option \<Rightarrow> bool \<Rightarrow> rat option \<Rightarrow> bool \<Rightarrow> pyval \<Rightarrow> rat result" where
  "parse_float_setting minimum min_exclusive maximum max_exclusive raw =
     (case (case raw of PyInt _ \<Rightarrow> py_float raw | PyFloat _ \<Rightarrow> py_float raw | PyStr _ \<Rightarrow> py_float raw | _ \<Rightarrow> Inl TypeError) of
        Inr (Fin v) \<Rightarrow>
          (if (case minimum of None \<Rightarrow> False | Some m \<Rightarrow> if min_exclusive then v \<le> m else v < m) then Inl ConfigurationError
           else if (case maximum of None \<Rightarrow> False | Some m \<Rightarrow> if max_exclusive then m \<le> v else m < v) then Inl ConfigurationError
           else Inr v)
      | _ \<Rightarrow> Inl ConfigurationError)"

definition parse_bool_setting :: "pyval \<Rightarrow> bool result" where
  "parse_bool_setting raw =
     (case raw of
        PyBool b \<Rightarrow> Inr b
      | PyInt n \<Rightarrow> if n = 0 then Inr False else if n = 1 then Inr True else Inl ConfigurationError
      | PyStr s \<Rightarrow>
          (let t = map ascii_lower s in
           if t = ''1'' \<or> t = ''true'' then Inr True
           else if t = ''0'' \<or> t = ''false'' then Inr False else Inl ConfigurationError)
      | _ \<Rightarrow> Inl ConfigurationError)"

section \<open>Identity templates\<close>

text \<open>\<open>str.replace\<close> with a non-empty pattern: the occurrences from left to right, without overlap.\<close>

function py_replace :: "string \<Rightarrow> string \<Rightarrow> string \<Rightarrow> string" where
  "py_replace old new [] = []"
| "py_replace old new (c # cs) =
     (if old \<noteq> [] \<and> take (length old) (c # cs) = old then new @ py_replace old new (drop (length old) (c # cs))
      else c # py_replace old new cs)"
  by pat_completeness auto
termination by (relation "measure (\<lambda>(old, new, s). length s)") auto

fun contains_text :: "string \<Rightarrow> string \<Rightarrow> bool" where
  "contains_text pat [] = (pat = [])"
| "contains_text pat (c # cs) = (take (length pat) (c # cs) = pat \<or> contains_text pat cs)"

definition queue_key_template :: string where
  "queue_key_template = ''scheduler-queue:{project}:{spider}''"

definition dupefilter_key_template :: string where
  "dupefilter_key_template = ''dupefilter:{project}:{spider}''"

definition bad_field :: "string \<Rightarrow> string \<Rightarrow> string option \<Rightarrow> bool" where
  "bad_field template placeholder value =
     (case value of None \<Rightarrow> False | Some v \<Rightarrow> contains_text placeholder template \<and> CHR '':'' \<in> set v)"

definition resolve_identity_template :: "string \<Rightarrow> string option \<Rightarrow> string option \<Rightarrow> string result" where
  "resolve_identity_template template spider_name project_name =
     (if bad_field template ''{project}'' project_name \<or> bad_field template ''{spider}'' spider_name then Inl ValueError
      else let r1 = (case project_name of None \<Rightarrow> template | Some p \<Rightarrow> py_replace ''{project}'' p template) in
           Inr (case spider_name of None \<Rightarrow> r1 | Some s \<Rightarrow> py_replace ''{spider}'' s r1))"

definition project_name_from_settings :: "pyval option \<Rightarrow> string" where
  "project_name_from_settings bot_name =
     (case bot_name of
        Some (PyStr s) \<Rightarrow> if strip_spaces s \<noteq> [] then strip_spaces s else ''default''
      | _ \<Rightarrow> ''default'')"

section \<open>Backoff\<close>

definition max_backoff :: rat where
  "max_backoff = 3600"

text \<open>\<open>random.uniform(0, delay)\<close> is \<open>0 + (delay - 0) * random()\<close>; \<open>u\<close> is the value of \<open>random()\<close>.\<close>

definition compute_full_jitter_backoff :: "rat \<Rightarrow> nat \<Rightarrow> rat \<Rightarrow> pyfloat result" where
  "compute_full_jitter_backoff u attempt base_delay =
     rbind (float_of_int (2 ^ attempt)) (\<lambda>factor.
       case fmin (fmul base_delay factor) (Fin max_backoff) of
         Fin delay \<Rightarrow> (case fmul delay u of Fin x \<Rightarrow> Inr (fadd 0 x) | y \<Rightarrow> Inr y)
       | y \<Rightarrow> Inr y)"

section \<open>Closing handles\<close>

text \<open>A handle's \<open>close()\<close> returns or raises, and changes the world; \<open>None\<close> entries are skipped.\<close>

fun close_handles :: "('h \<Rightarrow> 's \<Rightarrow> (unit, 's) outcome) \<Rightarrow> 'h option list \<Rightarrow> bool \<Rightarrow> exn option \<Rightarrow> 's \<Rightarrow> (bool \<times> exn option) \<times> 's" where
  "close_handles close [] failed control s = ((failed, control), s)"
| "close_handles close (None # hs) failed control s = close_handles close hs failed control s"
| "close_handles close (Some h # hs) failed control s =
     (case close h s of
        (Inr _, s') \<Rightarrow> close_handles close hs failed control s'
      | (Inl e, s') \<Rightarrow>
          if e = ProcessSignal then close_handles close hs failed (case control of None \<Rightarrow> Some e | c \<Rightarrow> c) s'
          else close_handles close hs True control s')"

section \<open>The storage strategy\<close>

datatype storage_strategy = PassthroughStorage | BatchedStorage batched

definition create_storage_strategy :: "string \<Rightarrow> pyval option \<Rightarrow> pyval option \<Rightarrow> pyval option \<Rightarrow> storage_strategy result" where
  "create_storage_strategy name threshold max_pending max_age =
     (if name = ''passthrough'' then Inr PassthroughStorage
      else if name = ''batched'' then
        rbind (parse_int_setting (Some 1) None (case threshold of None \<Rightarrow> PyInt 100 | Some v \<Rightarrow> v)) (\<lambda>n.
        rbind (case max_pending of
                 None \<Rightarrow> Inr PyNone
               | Some v \<Rightarrow> if v = PyNone then Inr PyNone else rbind (parse_int_setting (Some n) None v) (\<lambda>m. Inr (PyInt m))) (\<lambda>mp.
        rbind (batched_init (PyInt n) (case max_age of None \<Rightarrow> PyNone | Some v \<Rightarrow> v) mp) (\<lambda>b. Inr (BatchedStorage b))))
      else Inl ConfigurationError)"

section \<open>Backoff is bounded\<close>

lemma backoff_delay:
  assumes "0 \<le> base" and "0 \<le> factor"
  obtains delay where "fmin (fmul base factor) (Fin max_backoff) = Fin delay" and "0 \<le> delay" and "delay \<le> max_backoff"
    and "is_double delay" and "\<And>y. fmul base factor = Fin y \<Longrightarrow> delay \<le> y"
proof (cases "fmul base factor")
  case (Fin y)
  then have "is_double y" "0 \<le> y"
    using round_double_is_double round_double_nonneg [of "base * factor" y] assms by (auto simp: fmul_def)
  with Fin that show ?thesis by (cases "max_backoff < y") (auto simp: fmin_def max_backoff_def)
next
  case PInf
  with that show ?thesis by (auto simp: fmin_def max_backoff_def)
qed (use assms in \<open>auto simp: fmul_def round_double_def split: if_splits\<close>)

text \<open>
  The backoff is finite, non-negative and at most an hour: for every base delay, however large,
  and every attempt below the exponent range, the sleep is a finite double between zero and the
  smaller of \<open>base_delay * 2**attempt\<close> and 3600 seconds, so that the sleep itself never raises.
\<close>

lemma backoff_bounded:
  assumes "0 \<le> base" and "0 \<le> u" and "u \<le> 1" and "float_of_int (2 ^ attempt) = Inr factor"
  shows "\<exists>x. compute_full_jitter_backoff u attempt base = Inr (Fin x) \<and> 0 \<le> x \<and> x \<le> 3600
    \<and> (\<forall>y. fmul base factor = Fin y \<longrightarrow> x \<le> y)"
proof -
  have "0 \<le> factor"
    using assms(4) round_double_nonneg [of "2 ^ attempt" factor] by (auto simp: float_of_int_def split: pyfloat.splits)
  then obtain delay where d: "fmin (fmul base factor) (Fin max_backoff) = Fin delay" "0 \<le> delay" "delay \<le> max_backoff"
    "is_double delay" "\<And>y. fmul base factor = Fin y \<Longrightarrow> delay \<le> y"
    using backoff_delay [OF assms(1)] by metis
  have "0 \<le> delay * u" "delay * u \<le> delay" using assms(2,3) d(2) by (simp_all add: mult_left_le)
  from round_double_below [OF this d(4)] obtain x where x: "round_double (delay * u) = Fin x" "0 \<le> x" "x \<le> delay" by auto
  then have "fadd 0 x = Fin x" using round_double_is_double [OF x(1)] by (simp add: fadd_def)
  with x d assms(4) show ?thesis
    by (intro exI [of _ x]) (auto simp: compute_full_jitter_backoff_def fmul_def max_backoff_def intro: order_trans)
qed

section \<open>Identity keys\<close>

lemma take_colon:
  assumes "CHR '':'' \<notin> set old" and "take (length old) (xs @ CHR '':'' # ys) = old"
  shows "length old \<le> length xs"
proof (rule ccontr)
  assume "\<not> length old \<le> length xs"
  then obtain k where "length old = length xs + Suc k" using less_iff_Suc_add [of "length xs" "length old"] by auto
  then have "CHR '':'' \<in> set (take (length old) (xs @ CHR '':'' # ys))" by simp
  with assms show False by simp
qed

text \<open>Replacement works on the fields of a template one by one.\<close>

lemma py_replace_colon:
  assumes "CHR '':'' \<notin> set old" and "old \<noteq> []"
  shows "py_replace old new (xs @ CHR '':'' # ys) = py_replace old new xs @ CHR '':'' # py_replace old new ys"
proof (induction xs rule: length_induct)
  case (1 xs)
  show ?case
  proof (cases xs)
    case Nil
    then show ?thesis using take_colon [OF assms(1), of "[]" ys] assms(2) by auto
  next
    case (Cons c cs)
    let ?here = "take (length old) (c # cs) = old"
    show ?thesis
    proof (cases "take (length old) (xs @ CHR '':'' # ys) = old")
      case True
      from take_colon [OF assms(1) this] have len: "length old \<le> length (c # cs)" using Cons by simp
      have "take (length old) ((c # cs) @ CHR '':'' # ys) = old" using True Cons by simp
      with len have ?here by (simp only: take_append) simp
      moreover have "length (drop (length old) (c # cs)) < length xs" using assms(2) Cons by simp
      with 1 have "py_replace old new (drop (length old) (c # cs) @ CHR '':'' # ys)
          = py_replace old new (drop (length old) (c # cs)) @ CHR '':'' # py_replace old new ys" by blast
      ultimately show ?thesis using True len assms(2) Cons by (simp del: drop_append) (simp only: append_Cons [symmetric] drop_append, simp)
    next
      case False
      have "\<not> ?here"
      proof
        assume h: ?here
        have "length old \<le> length (c # cs)" using arg_cong [OF h, of length] by simp
        with h have "take (length old) ((c # cs) @ CHR '':'' # ys) = old" by (simp only: take_append) simp
        with False Cons show False by simp
      qed
      moreover have "py_replace old new (cs @ CHR '':'' # ys) = py_replace old new cs @ CHR '':'' # py_replace old new ys"
        using 1 Cons by simp
      ultimately show ?thesis using False Cons by simp
    qed
  qed
qed

lemma py_replace_absent: "\<not> contains_text old xs \<Longrightarrow> py_replace old new xs = xs"
  by (induction old new xs rule: py_replace.induct) auto

lemma resolve_queue_key:
  assumes "CHR '':'' \<notin> set p" and "CHR '':'' \<notin> set sp" and "\<not> contains_text ''{spider}'' p"
    and "stem = ''scheduler-queue'' \<or> stem = ''dupefilter''"
  shows "resolve_identity_template (stem @ '':{project}:{spider}'') (Some sp) (Some p) = Inr (stem @ '':'' @ p @ '':'' @ sp)"
proof -
  have field: "py_replace old new (xs @ '':'' @ ys @ '':'' @ zs)
      = py_replace old new xs @ '':'' @ py_replace old new ys @ '':'' @ py_replace old new zs"
    if "CHR '':'' \<notin> set old" "old \<noteq> []" for old new xs ys zs
    using py_replace_colon [OF that] by simp
  have t: "stem @ '':{project}:{spider}'' = stem @ '':'' @ ''{project}'' @ '':'' @ ''{spider}''" by simp
  have same: "py_replace ''{project}'' p stem = stem" "py_replace ''{spider}'' sp stem = stem" using assms(4) by auto
  have "py_replace ''{project}'' p (stem @ '':{project}:{spider}'') = stem @ '':'' @ p @ '':'' @ ''{spider}''"
    unfolding t by (subst field) (simp_all add: same)
  moreover have "py_replace ''{spider}'' sp (stem @ '':'' @ p @ '':'' @ ''{spider}'') = stem @ '':'' @ p @ '':'' @ sp"
    by (subst field) (simp_all add: same py_replace_absent [OF assms(3)])
  moreover have "\<not> bad_field t' x (Some p)" "\<not> bad_field t' x (Some sp)" for t' x using assms(1,2) by (simp_all add: bad_field_def)
  ultimately show ?thesis by (simp add: resolve_identity_template_def)
qed



text \<open>
  Without that restriction the keys collide: the project's replacement is scanned again for the
  spider's placeholder, so the project \<open>{spider}\<close> and the project \<open>x\<close> share the key of spider \<open>x\<close>.
\<close>

lemma identity_template_rescanned:
  "resolve_identity_template queue_key_template (Some ''x'') (Some ''{spider}'')
     = resolve_identity_template queue_key_template (Some ''x'') (Some ''x'')
   \<and> resolve_identity_template queue_key_template (Some ''x'') (Some ''x'') = Inr ''scheduler-queue:x:x''"
  by (simp add: resolve_identity_template_def queue_key_template_def bad_field_def)

section \<open>Every handle is closed\<close>

fun present :: "'h option list \<Rightarrow> 'h list" where
  "present [] = []"
| "present (None # hs) = present hs"
| "present (Some h # hs) = h # present hs"

text \<open>
  Closing handles: each handle that is present is closed exactly once and in order, whatever the
  others do; the flag says whether an ordinary exception was raised and the result carries the first
  process signal, which is never raised before all handles were tried.
\<close>

lemma close_handles_all:
  assumes "\<And>h s. close h s = (answer h, s @ [h])"
  shows "close_handles close hs False None s =
    ((\<exists>h \<in> set (present hs). \<exists>e. answer h = Inl e \<and> e \<noteq> ProcessSignal,
      if \<exists>h \<in> set (present hs). answer h = Inl ProcessSignal then Some ProcessSignal else None),
     s @ present hs)"
proof -
  have "close_handles close hs failed control s =
    ((failed \<or> (\<exists>h \<in> set (present hs). \<exists>e. answer h = Inl e \<and> e \<noteq> ProcessSignal),
      if control \<noteq> None then control
      else if \<exists>h \<in> set (present hs). answer h = Inl ProcessSignal then Some ProcessSignal else None),
     s @ present hs)" for failed control
  proof (induction hs arbitrary: failed control s)
    case (Cons h hs)
    then show ?case by (cases h) (auto simp: assms split: sum.splits option.splits if_splits)
  qed simp
  then show ?thesis by simp
qed

definition demo_answer :: "string \<Rightarrow> unit result" where
  "demo_answer h = (if h = ''b'' then Inl ProcessSignal else if h = ''c'' then Inl RuntimeError else Inr ())"

end
