(* ===== verification/Py_Json.thy ===== *)
theory Py_Json
  imports Physical_Names
begin

text \<open>
  Python's \<open>json\<close> module, as far as \<open>queue/snapshot.py\<close> and \<open>backends/_json_codec.py\<close> use it: \<open>dumps\<close> with
  its separators and \<open>ensure_ascii\<close>, \<open>loads\<close> of text and of bytes with its hooks, and the decoding of
  bytes to text that \<open>loads\<close> performs.

  A Python string is the list of its code points, so that surrogates and characters beyond Latin-1
  are represented. The scanner builds its values with the caller's hooks as it reads, depth first,
  so that an exception of a hook comes in its place among the syntax errors. The recursion limit of
  the interpreter is an argument, the number of nested containers it still allows.

  Shown: reading back what \<open>dumps\<close> wrote gives the value the hooks build from the document, and
  nothing of the text that follows is consumed.
\<close>

section \<open>Text\<close>

type_synonym codes = "nat list"

definition codes :: "string \<Rightarrow> codes" where
  "codes = map of_char"

lemma codes_simps [simp]:
  "codes [] = []" "codes (c # s) = of_char c # codes s" "codes (s @ t) = codes s @ codes t" "length (codes s) = length s"
  by (simp_all add: codes_def)

lemma codes_inj [simp]: "codes s = codes t \<longleftrightarrow> s = t"
  unfolding codes_def by (rule inj_eq) (auto intro!: injI)

lemma char_of_codes [simp]: "map char_of (codes s) = s"
  by (induction s) simp_all

definition is_digit_code :: "nat \<Rightarrow> bool" where
  "is_digit_code c \<longleftrightarrow> 48 \<le> c \<and> c \<le> 57"

definition is_ws :: "nat \<Rightarrow> bool" where
  "is_ws c \<longleftrightarrow> c = 32 \<or> c = 9 \<or> c = 10 \<or> c = 13"

definition skip_ws :: "codes \<Rightarrow> codes" where
  "skip_ws = dropWhile is_ws"

definition hex_value :: "nat \<Rightarrow> nat option" where
  "hex_value c =
     (if 48 \<le> c \<and> c \<le> 57 then Some (c - 48)
      else if 97 \<le> c \<and> c \<le> 102 then Some (c - 87)
      else if 65 \<le> c \<and> c \<le> 70 then Some (c - 55) else None)"

definition hex_digit :: "nat \<Rightarrow> nat" where
  "hex_digit n = (if n < 10 then 48 + n else 87 + n)"

definition hex4 :: "nat \<Rightarrow> codes" where
  "hex4 n = [hex_digit (n div 4096 mod 16), hex_digit (n div 256 mod 16), hex_digit (n div 16 mod 16), hex_digit (n mod 16)]"

definition high_surrogate :: "nat \<Rightarrow> bool" where
  "high_surrogate c \<longleftrightarrow> 0xD800 \<le> c \<and> c \<le> 0xDBFF"

definition low_surrogate :: "nat \<Rightarrow> bool" where
  "low_surrogate c \<longleftrightarrow> 0xDC00 \<le> c \<and> c \<le> 0xDFFF"

definition join_surrogates :: "nat \<Rightarrow> nat \<Rightarrow> nat" where
  "join_surrogates hi lo = 0x10000 + (hi - 0xD800) * 0x400 + (lo - 0xDC00)"

section \<open>Writing\<close>

datatype json = JNull | JBool bool | JInt int | JFloat rat | JStr codes | JArr "json list" | JObj "(codes \<times> json) list"

definition short_escapes :: "(nat \<times> nat) list" where
  "short_escapes = [(8, 98), (12, 102), (10, 110), (13, 114), (9, 116)]"

text \<open>One character of a string literal; with \<open>ensure_ascii\<close> only printable ASCII is written as it is.\<close>

definition escape_code :: "bool \<Rightarrow> nat \<Rightarrow> codes" where
  "escape_code ensure_ascii c =
     (if c = 34 \<or> c = 92 then [92, c]
      else case map_of short_escapes c of
        Some e \<Rightarrow> [92, e]
      | None \<Rightarrow>
          if 32 \<le> c \<and> (c \<le> 126 \<or> \<not> ensure_ascii) then [c]
          else if c < 0x10000 then 92 # 117 # hex4 c
          else 92 # 117 # hex4 (0xD800 + (c - 0x10000) div 0x400) @ 92 # 117 # hex4 (0xDC00 + (c - 0x10000) mod 0x400))"

definition string_text :: "bool \<Rightarrow> codes \<Rightarrow> codes" where
  "string_text ensure_ascii s = 34 # concat (map (escape_code ensure_ascii) s) @ [34]"

definition int_text :: "int \<Rightarrow> codes" where
  "int_text n = (if n < 0 then 45 # codes (str_of_nat (nat (- n))) else codes (str_of_nat (nat n)))"

fun join_text :: "codes \<Rightarrow> codes list \<Rightarrow> codes" where
  "join_text sep [] = []"
| "join_text sep [x] = x"
| "join_text sep (x # y # xs) = x @ sep @ join_text sep (y # xs)"

text \<open>
  \<open>frepr\<close> is \<open>float.__repr__\<close>; \<open>item_gap\<close> and \<open>key_gap\<close> are what the separators have after the comma and the
  colon, one blank each by default and nothing in the compact form.
\<close>

record json_style =
  js_ascii :: bool
  js_item_gap :: codes
  js_key_gap :: codes

definition default_style :: json_style where
  "default_style = \<lparr>js_ascii = True, js_item_gap = [32], js_key_gap = [32]\<rparr>"

definition compact_style :: "bool \<Rightarrow> json_style" where
  "compact_style ensure_ascii = \<lparr>js_ascii = ensure_ascii, js_item_gap = [], js_key_gap = []\<rparr>"

fun json_text :: "json_style \<Rightarrow> (rat \<Rightarrow> codes) \<Rightarrow> json \<Rightarrow> codes" where
  "json_text st frepr JNull = codes ''null''"
| "json_text st frepr (JBool b) = codes (if b then ''true'' else ''false'')"
| "json_text st frepr (JInt n) = int_text n"
| "json_text st frepr (JFloat x) = frepr x"
| "json_text st frepr (JStr s) = string_text (js_ascii st) s"
| "json_text st frepr (JArr xs) = 91 # join_text (44 # js_item_gap st) (map (json_text st frepr) xs) @ [93]"
| "json_text st frepr (JObj kvs) =
     123 # join_text (44 # js_item_gap st)
       (map (\<lambda>(k, v). string_text (js_ascii st) k @ 58 # js_key_gap st @ json_text st frepr v) kvs) @ [125]"

section \<open>Reading\<close>

record 'v json_hooks =
  jh_null :: 'v
  jh_bool :: "bool \<Rightarrow> 'v"
  jh_int :: "int \<Rightarrow> 'v"
  jh_str :: "codes \<Rightarrow> 'v"
  jh_list :: "'v list \<Rightarrow> 'v"
  jh_float :: "codes \<Rightarrow> 'v result"
  jh_constant :: "codes \<Rightarrow> 'v result"
  jh_pairs :: "(codes \<times> 'v) list \<Rightarrow> 'v result"

fun scan_hex4 :: "codes \<Rightarrow> (nat \<times> codes) option" where
  "scan_hex4 (a # b # c # d # r) =
     (case (hex_value a, hex_value b, hex_value c, hex_value d) of
        (Some w, Some x, Some y, Some z) \<Rightarrow> Some (((w * 16 + x) * 16 + y) * 16 + z, r)
      | _ \<Rightarrow> None)"
| "scan_hex4 _ = None"

text \<open>After the \<open>u\<close> of an escape: four hex digits, and a second such escape when the two are a surrogate pair.\<close>

definition scan_unicode :: "codes \<Rightarrow> (nat \<times> codes) option" where
  "scan_unicode cs =
     (case scan_hex4 cs of
        None \<Rightarrow> None
      | Some (c, r) \<Rightarrow>
          if high_surrogate c \<and> take 2 r = [92, 117] then
            (case scan_hex4 (drop 2 r) of
               None \<Rightarrow> None
             | Some (c2, r2) \<Rightarrow> if low_surrogate c2 then Some (join_surrogates c c2, r2) else Some (c, r))
          else Some (c, r))"

definition scan_escape :: "codes \<Rightarrow> (nat \<times> codes) option" where
  "scan_escape cs =
     (case cs of
        [] \<Rightarrow> None
      | c # r \<Rightarrow>
          if c = 34 \<or> c = 92 \<or> c = 47 then Some (c, r)
          else if c = 117 then scan_unicode r
          else map_option (\<lambda>d. (d, r)) (map_of (map prod.swap short_escapes) c))"

lemma scan_hex4_length: "scan_hex4 cs = Some (c, r) \<Longrightarrow> length r < length cs"
  by (induction cs rule: scan_hex4.induct) (auto split: option.splits)

lemma scan_unicode_length: "scan_unicode cs = Some (c, r) \<Longrightarrow> length r < length cs"
  by (auto simp: scan_unicode_def split: option.splits if_splits dest!: scan_hex4_length)

lemma scan_escape_length: "scan_escape cs = Some (c, r) \<Longrightarrow> length r < length cs"
  by (auto simp: scan_escape_def split: list.splits if_splits dest: scan_unicode_length)

text \<open>The rest of a string literal, after its opening quote.\<close>

function scan_string :: "codes \<Rightarrow> (codes \<times> codes) result" where
  "scan_string [] = Inl JSONDecodeError"
| "scan_string (c # r) =
     (if c = 34 then Inr ([], r)
      else if c = 92 then
        (case scan_escape r of
           None \<Rightarrow> Inl JSONDecodeError
         | Some (d, r') \<Rightarrow> rbind (scan_string r') (\<lambda>(s, r''). Inr (d # s, r'')))
      else if c < 32 then Inl JSONDecodeError
      else rbind (scan_string r) (\<lambda>(s, r'). Inr (c # s, r')))"
  by pat_completeness auto
termination by (relation "measure length") (auto dest: scan_escape_length)

text \<open>
  A number: \<open>-?(0|[1-9][0-9]*)\<close>, then optionally a fraction and an exponent; the flag tells whether
  either is there.
\<close>

definition scan_integer :: "codes \<Rightarrow> (codes \<times> codes) option" where
  "scan_integer cs =
     (let (sign, r) = (if take 1 cs = [45] then ([45], tl cs) else ([], cs)) in
      case r of
        [] \<Rightarrow> None
      | c # r' \<Rightarrow>
          if c = 48 then Some (sign @ [48], r')
          else if is_digit_code c then Some (sign @ takeWhile is_digit_code r, dropWhile is_digit_code r)
          else None)"

definition scan_fraction :: "codes \<Rightarrow> codes \<times> codes" where
  "scan_fraction cs =
     (case cs of
        c # r \<Rightarrow>
          if c = 46 \<and> takeWhile is_digit_code r \<noteq> [] then (46 # takeWhile is_digit_code r, dropWhile is_digit_code r)
          else ([], cs)
      | [] \<Rightarrow> ([], cs))"

definition scan_exponent :: "codes \<Rightarrow> codes \<times> codes" where
  "scan_exponent cs =
     (case cs of
        e # r \<Rightarrow>
          (let (sign, r') = (if take 1 r = [43] \<or> take 1 r = [45] then (take 1 r, tl r) else ([], r)) in
           if (e = 101 \<or> e = 69) \<and> takeWhile is_digit_code r' \<noteq> []
           then (e # sign @ takeWhile is_digit_code r', dropWhile is_digit_code r') else ([], cs))
      | [] \<Rightarrow> ([], cs))"

definition scan_number :: "codes \<Rightarrow> (bool \<times> codes \<times> codes) option" where
  "scan_number cs =
     (case scan_integer cs of
        None \<Rightarrow> None
      | Some (i, r1) \<Rightarrow>
          (case scan_fraction r1 of (f, r2) \<Rightarrow>
             (case scan_exponent r2 of (e, r3) \<Rightarrow> Some (f \<noteq> [] \<or> e \<noteq> [], i @ f @ e, r3))))"

definition codes_value :: "codes \<Rightarrow> nat" where
  "codes_value = foldl (\<lambda>n c. 10 * n + (c - 48)) 0"

text \<open>\<open>int(text)\<close>; CPython refuses more than 4300 digits.\<close>

definition int_of_codes :: "codes \<Rightarrow> int result" where
  "int_of_codes cs =
     (let (neg, ds) = (if take 1 cs = [45] then (True, tl cs) else (False, cs)) in
      if 4300 < length ds then Inl ValueError
      else Inr ((if neg then - 1 else 1) * int (codes_value ds)))"

definition starts_with :: "string \<Rightarrow> codes \<Rightarrow> bool" where
  "starts_with w cs \<longleftrightarrow> take (length w) cs = codes w"

definition parse_scalar :: "'v json_hooks \<Rightarrow> codes \<Rightarrow> ('v \<times> codes) result" where
  "parse_scalar H cs =
     (if take 1 cs = [34] then rbind (scan_string (tl cs)) (\<lambda>(s, r). Inr (jh_str H s, r))
      else if starts_with ''null'' cs then Inr (jh_null H, drop 4 cs)
      else if starts_with ''true'' cs then Inr (jh_bool H True, drop 4 cs)
      else if starts_with ''false'' cs then Inr (jh_bool H False, drop 5 cs)
      else if starts_with ''NaN'' cs then rbind (jh_constant H (codes ''NaN'')) (\<lambda>v. Inr (v, drop 3 cs))
      else if starts_with ''Infinity'' cs then rbind (jh_constant H (codes ''Infinity'')) (\<lambda>v. Inr (v, drop 8 cs))
      else if starts_with ''-Infinity'' cs then rbind (jh_constant H (codes ''-Infinity'')) (\<lambda>v. Inr (v, drop 9 cs))
      else case scan_number cs of
        None \<Rightarrow> Inl JSONDecodeError
      | Some (is_float, t, r) \<Rightarrow>
          if is_float then rbind (jh_float H t) (\<lambda>v. Inr (v, r))
          else rbind (int_of_codes t) (\<lambda>n. Inr (jh_int H n, r)))"

lemma length_skip_ws: "length (skip_ws cs) \<le> length cs"
  by (simp add: skip_ws_def length_dropWhile_le)

text \<open>
  The loop over the elements of an array or the members of an object, after the opening bracket and
  the check for an empty container. \<open>p\<close> reads one item, \<open>close\<close> is the closing bracket. An item is not
  empty, so the text gets shorter; the test says so to the termination prover.
\<close>

function parse_items :: "nat \<Rightarrow> (codes \<Rightarrow> ('v \<times> codes) result) \<Rightarrow> codes \<Rightarrow> ('v list \<times> codes) result" where
  "parse_items close p cs =
     rbind (p cs) (\<lambda>(v, r).
       case skip_ws r of
         [] \<Rightarrow> Inl JSONDecodeError
       | c # r' \<Rightarrow>
           if c = close then Inr ([v], r')
           else if c = 44 \<and> length r' < length cs then
             rbind (parse_items close p (skip_ws r')) (\<lambda>(vs, q). Inr (v # vs, q))
           else Inl JSONDecodeError)"
  by pat_completeness auto
termination
  by (relation "measure (\<lambda>(close, p, cs). length cs)") (auto intro: le_less_trans [OF length_skip_ws])

declare parse_items.simps [simp del]

definition parse_member :: "(codes \<Rightarrow> ('v \<times> codes) result) \<Rightarrow> codes \<Rightarrow> ((codes \<times> 'v) \<times> codes) result" where
  "parse_member p cs =
     (if take 1 cs = [34] then
        rbind (scan_string (tl cs)) (\<lambda>(k, r).
          if take 1 (skip_ws r) = [58] then
            rbind (p (skip_ws (tl (skip_ws r)))) (\<lambda>(v, r'). Inr ((k, v), r'))
          else Inl JSONDecodeError)
      else Inl JSONDecodeError)"

fun parse_value :: "'v json_hooks \<Rightarrow> nat \<Rightarrow> codes \<Rightarrow> ('v \<times> codes) result" where
  "parse_value H 0 cs =
     (if take 1 cs = [91] \<or> take 1 cs = [123] then Inl RecursionError else parse_scalar H cs)"
| "parse_value H (Suc depth) cs =
     (if take 1 cs = [91] then
        (if take 1 (skip_ws (tl cs)) = [93] then Inr (jh_list H [], tl (skip_ws (tl cs)))
         else rbind (parse_items 93 (parse_value H depth) (skip_ws (tl cs))) (\<lambda>(vs, r). Inr (jh_list H vs, r)))
      else if take 1 cs = [123] then
        (if take 1 (skip_ws (tl cs)) = [125] then rbind (jh_pairs H []) (\<lambda>v. Inr (v, tl (skip_ws (tl cs))))
         else rbind (parse_items 125 (parse_member (parse_value H depth)) (skip_ws (tl cs))) (\<lambda>(kvs, r).
           rbind (jh_pairs H kvs) (\<lambda>v. Inr (v, r))))
      else parse_scalar H cs)"

text \<open>\<open>loads\<close> of a text: one value between white space, and no byte order mark.\<close>

definition loads_text :: "'v json_hooks \<Rightarrow> nat \<Rightarrow> codes \<Rightarrow> 'v result" where
  "loads_text H depth cs =
     (if take 1 cs = [0xFEFF] then Inl JSONDecodeError
      else rbind (parse_value H depth (skip_ws cs)) (\<lambda>(v, r). if skip_ws r = [] then Inr v else Inl JSONDecodeError))"

section \<open>Bytes to text\<close>

text \<open>UTF-8; with \<open>surrogates\<close> (the handler \<open>surrogatepass\<close>) encoded surrogates are let through.\<close>

definition is_continuation :: "nat \<Rightarrow> bool" where
  "is_continuation b \<longleftrightarrow> 0x80 \<le> b \<and> b \<le> 0xBF"

definition keep_code :: "bool \<Rightarrow> nat \<Rightarrow> bool" where
  "keep_code surrogates c \<longleftrightarrow> c \<le> 0x10FFFF \<and> (surrogates \<or> \<not> (high_surrogate c \<or> low_surrogate c))"

fun utf8_decode :: "bool \<Rightarrow> nat list \<Rightarrow> codes option" where
  "utf8_decode sp [] = Some []"
| "utf8_decode sp (a # r) =
     (if a < 0x80 then map_option ((#) a) (utf8_decode sp r)
      else case r of
        [] \<Rightarrow> None
      | b # r1 \<Rightarrow>
          if 0xC2 \<le> a \<and> a \<le> 0xDF then
            (if is_continuation b then map_option ((#) ((a - 0xC0) * 64 + (b - 0x80))) (utf8_decode sp r1) else None)
          else case r1 of
            [] \<Rightarrow> None
          | c # r2 \<Rightarrow>
              if 0xE0 \<le> a \<and> a \<le> 0xEF then
                (let n = ((a - 0xE0) * 64 + (b - 0x80)) * 64 + (c - 0x80) in
                 if is_continuation b \<and> is_continuation c \<and> 0x800 \<le> n \<and> keep_code sp n
                 then map_option ((#) n) (utf8_decode sp r2) else None)
              else case r2 of
                [] \<Rightarrow> None
              | d # r3 \<Rightarrow>
                  (let n = (((a - 0xF0) * 64 + (b - 0x80)) * 64 + (c - 0x80)) * 64 + (d - 0x80) in
                   if 0xF0 \<le> a \<and> a \<le> 0xF4 \<and> is_continuation b \<and> is_continuation c \<and> is_continuation d
                      \<and> 0x10000 \<le> n \<and> keep_code sp n
                   then map_option ((#) n) (utf8_decode sp r3) else None))"

fun utf16_units :: "bool \<Rightarrow> nat list \<Rightarrow> nat list option" where
  "utf16_units big [] = Some []"
| "utf16_units big [a] = None"
| "utf16_units big (a # b # r) = map_option ((#) (if big then a * 256 + b else b * 256 + a)) (utf16_units big r)"

fun join_units :: "nat list \<Rightarrow> codes" where
  "join_units (u # v # r) =
     (if high_surrogate u \<and> low_surrogate v then join_surrogates u v # join_units r else u # join_units (v # r))"
| "join_units us = us"

fun utf32_decode :: "bool \<Rightarrow> nat list \<Rightarrow> codes option" where
  "utf32_decode big [] = Some []"
| "utf32_decode big (a # b # c # d # r) =
     (let n = (if big then ((a * 256 + b) * 256 + c) * 256 + d else ((d * 256 + c) * 256 + b) * 256 + a) in
      if n \<le> 0x10FFFF then map_option ((#) n) (utf32_decode big r) else None)"
| "utf32_decode big _ = None"

text \<open>\<open>json.detect_encoding\<close> followed by \<open>decode(encoding, "surrogatepass")\<close>.\<close>

definition utf16_decode :: "bool \<Rightarrow> nat list \<Rightarrow> codes option" where
  "utf16_decode big bs = map_option join_units (utf16_units big bs)"

definition decode_detected :: "nat list \<Rightarrow> codes option" where
  "decode_detected b =
     (if take 4 b = [0, 0, 0xFE, 0xFF] then utf32_decode True (drop 4 b)
      else if take 4 b = [0xFF, 0xFE, 0, 0] then utf32_decode False (drop 4 b)
      else if take 2 b = [0xFE, 0xFF] then utf16_decode True (drop 2 b)
      else if take 2 b = [0xFF, 0xFE] then utf16_decode False (drop 2 b)
      else if take 3 b = [0xEF, 0xBB, 0xBF] then utf8_decode True (drop 3 b)
      else if 4 \<le> length b \<and> b ! 0 = 0 then (if b ! 1 \<noteq> 0 then utf16_decode True b else utf32_decode True b)
      else if 4 \<le> length b \<and> b ! 1 = 0 then
        (if b ! 2 \<noteq> 0 \<or> b ! 3 \<noteq> 0 then utf16_decode False b else utf32_decode False b)
      else if length b = 2 \<and> b ! 0 = 0 then utf16_decode True b
      else if length b = 2 \<and> b ! 1 = 0 then utf16_decode False b
      else utf8_decode True b)"

text \<open>\<open>json.loads\<close> of bytes.\<close>

definition loads_bytes :: "'v json_hooks \<Rightarrow> nat \<Rightarrow> bytes \<Rightarrow> 'v result" where
  "loads_bytes H depth bs =
     (case decode_detected (map unat bs) of None \<Rightarrow> Inl UnicodeDecodeError | Some cs \<Rightarrow> loads_text H depth cs)"

text \<open>\<open>str.encode("ascii")\<close> or \<open>("utf-8")\<close> of a text that is ASCII.\<close>

definition ascii_bytes :: "codes \<Rightarrow> bytes" where
  "ascii_bytes = map word_of_nat"

section \<open>Round trip of scalars\<close>

lemma hex_value_digit: "n < 16 \<Longrightarrow> hex_value (hex_digit n) = Some n"
  by (auto simp: hex_value_def hex_digit_def)

lemma hex4_value:
  assumes "(n::nat) < 65536"
  shows "(((n div 4096 mod 16) * 16 + n div 256 mod 16) * 16 + n div 16 mod 16) * 16 + n mod 16 = n"
proof -
  have "n div 256 = n div 16 div 16" "n div 4096 = n div 16 div 16 div 16"
    by (simp_all flip: div_mult2_eq)
  then have "n div 256 * 16 + n div 16 mod 16 = n div 16" "n div 4096 * 16 + n div 256 mod 16 = n div 256"
    by (metis div_mult_mod_eq)+
  moreover have "n div 4096 mod 16 = n div 4096" using assms by simp
  ultimately show ?thesis by (simp only: div_mult_mod_eq)
qed

lemma scan_hex4_hex4 [simp]: "n < 65536 \<Longrightarrow> scan_hex4 (hex4 n @ r) = Some (n, r)"
  using hex4_value [of n] by (simp add: hex4_def hex_value_digit)


text \<open>
  A string that survives: real code points, and no high surrogate right before a low one, which the
  reader would join.
\<close>

fun no_split_pair :: "codes \<Rightarrow> bool" where
  "no_split_pair (c # d # r) \<longleftrightarrow> \<not> (high_surrogate c \<and> low_surrogate d) \<and> no_split_pair (d # r)"
| "no_split_pair _ \<longleftrightarrow> True"

definition string_ok :: "codes \<Rightarrow> bool" where
  "string_ok s \<longleftrightarrow> (\<forall>c \<in> set s. c \<le> 0x10FFFF) \<and> no_split_pair s"

lemma string_ok_codes: "string_ok (codes s)"
proof -
  have "of_char c < (256 :: nat)" for c :: char by simp
  then have "\<forall>c \<in> set (codes s). c < 256" by (auto simp: codes_def)
  moreover have "no_split_pair cs" if "\<forall>c \<in> set cs. c < 256" for cs
    using that by (induction cs rule: no_split_pair.induct) (auto simp: high_surrogate_def)
  ultimately show ?thesis by (fastforce simp: string_ok_def)
qed

text \<open>What may follow the escape of \<open>c\<close>: not the escape of a low surrogate when \<open>c\<close> is a high one.\<close>

definition no_low_escape :: "codes \<Rightarrow> bool" where
  "no_low_escape r \<longleftrightarrow>
     (take 2 r = [92, 117] \<longrightarrow> (\<exists>d r'. d < 65536 \<and> \<not> low_surrogate d \<and> r = 92 # 117 # hex4 d @ r'))"

lemma scan_unicode_pair:
  assumes "0x10000 \<le> c" "c \<le> 0x10FFFF"
  shows "scan_unicode (hex4 (0xD800 + (c - 0x10000) div 0x400) @ 92 # 117 # hex4 (0xDC00 + (c - 0x10000) mod 0x400) @ r)
    = Some (c, r)"
proof -
  let ?q = "(c - 0x10000) div 0x400" and ?m = "(c - 0x10000) mod 0x400"
  have q: "?q < 0x400" using assms by (simp add: less_mult_imp_div_less)
  have m: "?m < 0x400" by simp
  have "c = 0x10000 + ?q * 0x400 + ?m" using assms by simp
  with q m show ?thesis
    by (simp add: scan_unicode_def high_surrogate_def low_surrogate_def join_surrogates_def)
qed

lemma scan_unicode_single:
  assumes "c < 65536" "high_surrogate c \<Longrightarrow> no_low_escape r"
  shows "scan_unicode (hex4 c @ r) = Some (c, r)"
  using assms by (auto simp: scan_unicode_def no_low_escape_def)

lemma scan_escape_short:
  "map_of short_escapes c = Some e \<Longrightarrow> scan_escape (e # r) = Some (c, r) \<and> e \<noteq> 117"
  by (auto simp: short_escapes_def scan_escape_def split: if_splits)

lemma scan_escape_unicode: "scan_escape (117 # r) = scan_unicode r"
  by (simp add: scan_escape_def)

lemma scan_string_escape_code:
  assumes "c \<le> 0x10FFFF" "high_surrogate c \<Longrightarrow> no_low_escape r"
  shows "scan_string (escape_code ea c @ r) = rbind (scan_string r) (\<lambda>(s, r'). Inr (c # s, r'))"
proof (cases "c = 34 \<or> c = 92")
  case True
  then show ?thesis by (auto simp: escape_code_def scan_escape_def)
next
  case plain: False
  show ?thesis
  proof (cases "map_of short_escapes c")
    case (Some e)
    with plain show ?thesis by (simp add: escape_code_def scan_escape_short)
  next
    case None
    consider "32 \<le> c \<and> (c \<le> 126 \<or> \<not> ea)" | "\<not> (32 \<le> c \<and> (c \<le> 126 \<or> \<not> ea))" "c < 0x10000" | "0x10000 \<le> c" "ea"
      by fastforce
    then show ?thesis
    proof cases
      case 1
      with plain None show ?thesis by (auto simp: escape_code_def)
    next
      case 2
      with plain None assms(2) show ?thesis
        by (auto simp: escape_code_def scan_escape_unicode scan_unicode_single)
    next
      case 3
      with plain None assms(1) show ?thesis
        by (simp add: escape_code_def scan_escape_unicode scan_unicode_pair)
    qed
  qed
qed

lemma no_low_escape_code:
  assumes "\<not> low_surrogate d" "d \<le> 0x10FFFF"
  shows "no_low_escape (escape_code ea d @ r)"
proof (cases "map_of short_escapes d")
  case (Some e)
  with scan_escape_short [OF Some] show ?thesis
    by (auto simp: no_low_escape_def escape_code_def)
next
  case None
  let ?hi = "0xD800 + (d - 0x10000) div 0x400"
  have "(d - 0x10000) div 0x400 < 0x400" using assms by (simp add: less_mult_imp_div_less)
  then have "?hi < 65536 \<and> \<not> low_surrogate ?hi" by (simp add: low_surrogate_def)
  with None assms show ?thesis
    by (cases "d < 65536") (auto simp: no_low_escape_def escape_code_def intro: exI [of _ ?hi])
qed

lemma no_low_escape_quote [simp]: "no_low_escape (34 # r)"
  by (simp add: no_low_escape_def)

lemma scan_string_text:
  assumes "string_ok s"
  shows "scan_string (concat (map (escape_code ea) s) @ 34 # r) = Inr (s, r)"
  using assms
proof (induction s)
  case (Cons c s)
  have "no_low_escape (concat (map (escape_code ea) s) @ 34 # r)" if "high_surrogate c"
    using that Cons.prems by (cases s) (auto simp: string_ok_def intro: no_low_escape_code)
  moreover have "string_ok s" using Cons.prems by (cases s) (auto simp: string_ok_def)
  ultimately show ?case using Cons by (simp add: scan_string_escape_code string_ok_def)
qed simp

text \<open>What may follow a number without becoming part of it.\<close>

definition ends_number :: "codes \<Rightarrow> bool" where
  "ends_number r \<longleftrightarrow> (\<forall>c r'. r = c # r' \<longrightarrow> \<not> is_digit_code c \<and> c \<noteq> 46 \<and> c \<noteq> 101 \<and> c \<noteq> 69 \<and> c \<noteq> 43 \<and> c \<noteq> 45)"

lemma ends_number_simps [simp]: "ends_number []" "ends_number (44 # r)" "ends_number (93 # r)" "ends_number (125 # r)"
  by (simp_all add: ends_number_def is_digit_code_def)

lemma code_of_digit: "(d::nat) < 10 \<Longrightarrow> (of_char (char_of (48 + d) :: char) :: nat) = 48 + d"
  by simp

lemma str_of_nat_digits: "\<forall>c \<in> set (codes (str_of_nat n)). is_digit_code c"
proof (induction n rule: str_of_nat.induct)
  case (1 n)
  moreover have "n mod 10 < 10" by simp
  ultimately show ?case
    by (subst str_of_nat.simps) (auto simp: is_digit_code_def)
qed

lemma str_of_nat_first:
  "0 < n \<Longrightarrow> \<exists>c r. codes (str_of_nat n) = c # r \<and> is_digit_code c \<and> c \<noteq> 48"
proof (induction n rule: str_of_nat.induct)
  case (1 n)
  show ?case
  proof (cases "n < 10")
    case True
    with 1(2) show ?thesis by (subst str_of_nat.simps) (simp add: is_digit_code_def)
  next
    case False
    then have "0 < n div 10" by (simp add: div_greater_zero_iff)
    with 1(1) False show ?thesis by (subst str_of_nat.simps) auto
  qed
qed

lemma codes_value_str_of_nat [simp]: "codes_value (codes (str_of_nat n)) = n"
proof -
  have "foldl (\<lambda>n c. 10 * n + (c - 48)) a (codes s) = foldl (\<lambda>a c. 10 * a + (of_char c - 48)) a s" for a s
    by (induction s arbitrary: a) simp_all
  then show ?thesis using digits_value_str_of_nat [of n] by (simp add: codes_value_def digits_value_def)
qed

lemma takeWhile_digits:
  assumes "\<forall>c \<in> set ds. is_digit_code c" "ends_number r"
  shows "takeWhile is_digit_code (ds @ r) = ds" "dropWhile is_digit_code (ds @ r) = r"
  using assms by (induction ds) (cases r; simp add: ends_number_def)+

lemma scan_integer_nat:
  assumes "ends_number r"
  shows "scan_integer (codes (str_of_nat n) @ r) = Some (codes (str_of_nat n), r)"
    and "scan_integer (45 # codes (str_of_nat n) @ r) = Some (45 # codes (str_of_nat n), r)"
proof -
  let ?ds = "codes (str_of_nat n)"
  note tw = takeWhile_digits [OF str_of_nat_digits [of n] assms]
  have "scan_integer (?ds @ r) = Some (?ds, r) \<and> scan_integer (45 # ?ds @ r) = Some (45 # ?ds, r)"
  proof (cases "n = 0")
    case True
    then show ?thesis by (simp add: scan_integer_def str_of_nat.simps)
  next
    case False
    then obtain c q where c: "?ds = c # q" "is_digit_code c" "c \<noteq> 48" using str_of_nat_first [of n] by auto
    then have "c \<noteq> 45" by (auto simp: is_digit_code_def)
    with c tw show ?thesis by (simp add: scan_integer_def)
  qed
  then show "scan_integer (?ds @ r) = Some (?ds, r)" "scan_integer (45 # ?ds @ r) = Some (45 # ?ds, r)" by simp_all
qed

lemma scan_number_int:
  assumes "ends_number r"
  shows "scan_number (int_text n @ r) = Some (False, int_text n, r)"
proof -
  have "scan_fraction r = ([], r)" "scan_exponent r = ([], r)"
    using assms by (cases r; simp add: scan_fraction_def scan_exponent_def ends_number_def Let_def)+
  then show ?thesis
    by (simp add: scan_number_def int_text_def scan_integer_nat [OF assms])
qed

lemma int_of_codes_text:
  assumes "length (int_text \<bar>n\<bar>) \<le> 4300"
  shows "int_of_codes (int_text n) = Inr n"
proof -
  have "take 1 (codes (str_of_nat k)) \<noteq> [45]" for k
    using str_of_nat_digits [of k] by (cases "codes (str_of_nat k)") (auto simp: is_digit_code_def)
  with assms show ?thesis by (cases "n < 0") (simp_all add: int_of_codes_def int_text_def)
qed

section \<open>Round trip of documents\<close>

text \<open>
  The value the hooks build from a document, in the order of the text.
\<close>

fun build :: "'v json_hooks \<Rightarrow> (rat \<Rightarrow> codes) \<Rightarrow> json \<Rightarrow> 'v result" where
  "build H frepr JNull = Inr (jh_null H)"
| "build H frepr (JBool b) = Inr (jh_bool H b)"
| "build H frepr (JInt n) = Inr (jh_int H n)"
| "build H frepr (JFloat x) = jh_float H (frepr x)"
| "build H frepr (JStr s) = Inr (jh_str H s)"
| "build H frepr (JArr xs) = rbind (rmap (build H frepr) xs) (\<lambda>vs. Inr (jh_list H vs))"
| "build H frepr (JObj kvs) =
     rbind (rmap (\<lambda>(k, t). rbind (build H frepr t) (\<lambda>v. Inr (k, v))) kvs) (jh_pairs H)"


text \<open>
  Documents that can be read back within \<open>depth\<close> nested containers: strings survive, integers are
  within CPython's digit limit, and the text of a float is a number with a fraction or an exponent.
\<close>

definition is_float_text :: "codes \<Rightarrow> bool" where
  "is_float_text t \<longleftrightarrow> scan_number t = Some (True, t, [])"

fun json_ok :: "(rat \<Rightarrow> codes) \<Rightarrow> nat \<Rightarrow> json \<Rightarrow> bool" where
  "json_ok frepr depth (JInt n) \<longleftrightarrow> length (int_text \<bar>n\<bar>) \<le> 4300"
| "json_ok frepr depth (JFloat x) \<longleftrightarrow> is_float_text (frepr x)"
| "json_ok frepr depth (JStr s) \<longleftrightarrow> string_ok s"
| "json_ok frepr depth (JArr xs) \<longleftrightarrow> 0 < depth \<and> (\<forall>x \<in> set xs. json_ok frepr (depth - 1) x)"
| "json_ok frepr depth (JObj kvs) \<longleftrightarrow>
     0 < depth \<and> (\<forall>(k, v) \<in> set kvs. string_ok k \<and> json_ok frepr (depth - 1) v)"
| "json_ok frepr depth _ \<longleftrightarrow> True"

lemma dropWhile_append_stop:
  "ends_number r \<Longrightarrow> takeWhile is_digit_code (xs @ r) = takeWhile is_digit_code xs
    \<and> dropWhile is_digit_code (xs @ r) = dropWhile is_digit_code xs @ r"
  by (induction xs) (cases r; auto simp: ends_number_def)+

lemma scan_integer_append:
  assumes "scan_integer t = Some (i, q)" "ends_number r"
  shows "scan_integer (t @ r) = Some (i, q @ r)"
proof -
  have "t \<noteq> []" using assms(1) by (auto simp: scan_integer_def)
  moreover have "tl t \<noteq> []" if "take 1 t = [45]" using that assms(1) by (auto simp: scan_integer_def split: list.splits)
  ultimately show ?thesis
    using assms(1) dropWhile_append_stop [OF assms(2), of t] dropWhile_append_stop [OF assms(2), of "tl t"]
    by (cases t) (auto simp: scan_integer_def split: list.splits if_splits)
qed

lemma scan_fraction_append:
  "ends_number r \<Longrightarrow> scan_fraction (t @ r) = (fst (scan_fraction t), snd (scan_fraction t) @ r)"
  using dropWhile_append_stop [of r "tl t"] by (cases t; cases r) (auto simp: scan_fraction_def ends_number_def)

lemma scan_exponent_append:
  "ends_number r \<Longrightarrow> scan_exponent (t @ r) = (fst (scan_exponent t), snd (scan_exponent t) @ r)"
  using dropWhile_append_stop [of r "tl t"] dropWhile_append_stop [of r "tl (tl t)"]
  by (cases t; cases "tl t"; cases r) (auto simp: scan_exponent_def ends_number_def Let_def split: if_splits)

lemma scan_number_float:
  assumes "is_float_text t" "ends_number r"
  shows "scan_number (t @ r) = Some (True, t, r)"
proof -
  obtain i q where i: "scan_integer t = Some (i, q)"
    using assms(1) by (auto simp: is_float_text_def scan_number_def split: option.splits)
  note a = scan_integer_append [OF this assms(2)]
  from i assms(1) show ?thesis
    by (simp add: is_float_text_def scan_number_def a scan_fraction_append scan_exponent_append assms(2) split: prod.splits)
qed

lemma skip_ws_Cons: "\<not> is_ws c \<Longrightarrow> skip_ws (c # r) = c # r"
  by (simp add: skip_ws_def)

lemma skip_ws_gap [simp]: "\<forall>c \<in> set gap. is_ws c \<Longrightarrow> skip_ws (gap @ r) = skip_ws r"
  by (simp add: skip_ws_def)

lemma parse_items_join:
  assumes "xs \<noteq> []" "rmap b xs = Inr vs" "close \<noteq> 44" "\<forall>c \<in> set gap. is_ws c" "ends_number (close # r)" "\<not> is_ws close"
    and p: "\<And>x v r. x \<in> set xs \<Longrightarrow> b x = Inr v \<Longrightarrow> ends_number r \<Longrightarrow> p (t x @ r) = Inr (v, r)"
    and t: "\<And>x r. x \<in> set xs \<Longrightarrow> skip_ws (t x @ r) = t x @ r"
  shows "parse_items close p (join_text (44 # gap) (map t xs) @ close # r) = Inr (vs, r)"
  using assms(1,2) p t
proof (induction xs arbitrary: vs)
  case (Cons x xs)
  then obtain v ws where v: "b x = Inr v" "rmap b xs = Inr ws" "vs = v # ws" by (auto simp: rbind_eq_Inr_iff)
  have close: "skip_ws (close # q) = close # q" for q using assms(6) by (simp add: skip_ws_def)
  show ?case
  proof (cases xs)
    case Nil
    with v Cons.prems(3) [of x v "close # r"] assms(5) show ?thesis
      by (simp add: parse_items.simps close)
  next
    case (Cons y ys)
    let ?tail = "join_text (44 # gap) (map t xs) @ close # r"
    have "skip_ws (join_text sep (map t xs) @ q) = join_text sep (map t xs) @ q" for sep q
      using Cons Cons.prems(4) [of y] by (cases ys) simp_all
    with assms(4) have tail: "skip_ws (gap @ ?tail) = ?tail" by simp
    have "parse_items close p ?tail = Inr (ws, r)"
      using Cons v(2) by (intro Cons.IH) (simp_all add: Cons.prems)
    with v(1,3) Cons Cons.prems(3) [of x v "44 # gap @ ?tail"] tail show ?thesis
      using assms(3) by (subst parse_items.simps) (simp add: skip_ws_def is_ws_def)
  qed
qed simp

lemma parse_value_scalar:
  "take 1 cs \<noteq> [91] \<Longrightarrow> take 1 cs \<noteq> [123] \<Longrightarrow> parse_value H depth cs = parse_scalar H cs"
  by (cases depth) simp_all

lemma scan_number_first:
  assumes "scan_number cs = Some (f, t, r)"
  obtains c q where "cs = c # q" "is_digit_code c" | c q where "cs = 45 # c # q" "is_digit_code c"
  using assms
  by (cases cs; cases "tl cs")
    (auto simp: scan_number_def scan_integer_def is_digit_code_def split: option.splits if_splits)

lemma parse_value_number:
  assumes "scan_number cs = Some (f, t, r)"
  shows "parse_value H depth cs =
    (if f then rbind (jh_float H t) (\<lambda>v. Inr (v, r)) else rbind (int_of_codes t) (\<lambda>n. Inr (jh_int H n, r)))"
proof -
  have "parse_value H depth cs = parse_scalar H cs"
    using assms by (elim scan_number_first) (auto intro!: parse_value_scalar simp: is_digit_code_def)
  moreover have "take 1 cs \<noteq> [34] \<and> \<not> starts_with ''null'' cs \<and> \<not> starts_with ''true'' cs \<and> \<not> starts_with ''false'' cs
    \<and> \<not> starts_with ''NaN'' cs \<and> \<not> starts_with ''Infinity'' cs \<and> \<not> starts_with ''-Infinity'' cs"
    using assms by (elim scan_number_first) (auto simp: starts_with_def is_digit_code_def)
  ultimately show ?thesis using assms by (simp add: parse_scalar_def)
qed

lemma parse_string_text:
  "string_ok s \<Longrightarrow> parse_value H depth (string_text ea s @ r) = Inr (jh_str H s, r)"
  by (simp add: parse_value_scalar parse_scalar_def string_text_def scan_string_text)

lemma skip_ws_number: "scan_number t = Some (f, u, q) \<Longrightarrow> skip_ws (t @ r) = t @ r"
  by (elim scan_number_first) (auto simp: skip_ws_def is_ws_def is_digit_code_def)

lemma skip_ws_json_text:
  assumes "json_ok frepr depth t"
  shows "skip_ws (json_text st frepr t @ r) = json_text st frepr t @ r"
proof (cases t)
  case (JInt n)
  with skip_ws_number [OF scan_number_int, of "[]"] show ?thesis by simp
next
  case (JFloat x)
  with assms show ?thesis by (auto simp: is_float_text_def intro: skip_ws_number)
qed (auto simp: skip_ws_def is_ws_def string_text_def)

definition style_ok :: "json_style \<Rightarrow> bool" where
  "style_ok st \<longleftrightarrow> (\<forall>c \<in> set (js_item_gap st) \<union> set (js_key_gap st). is_ws c)"

lemma styles_ok [simp]: "style_ok default_style" "style_ok (compact_style ea)"
  by (simp_all add: style_ok_def default_style_def compact_style_def is_ws_def)

lemma parse_member_text:
  assumes "string_ok k" "style_ok st" "json_ok frepr d t" "p (json_text st frepr t @ r) = Inr (v, r)"
  shows "parse_member p ((string_text (js_ascii st) k @ 58 # js_key_gap st @ json_text st frepr t) @ r) = Inr ((k, v), r)"
  using assms skip_ws_json_text [OF assms(3), of st r]
  by (simp add: parse_member_def string_text_def scan_string_text style_ok_def skip_ws_Cons is_ws_def)

lemma json_text_first:
  assumes "json_ok frepr d t"
  shows "take 1 (json_text st frepr t @ r) \<noteq> [93]"
proof (cases t)
  case (JInt n)
  with scan_number_int [of "[]" n] show ?thesis by (auto elim!: scan_number_first simp: is_digit_code_def)
next
  case (JFloat x)
  with assms show ?thesis by (auto simp: is_float_text_def is_digit_code_def elim!: scan_number_first)
qed (auto simp: string_text_def)

lemma join_text_Cons:
  assumes "xs \<noteq> []"
  obtains q where "join_text sep (map f xs) @ r = f (hd xs) @ q"
proof -
  obtain q where "join_text sep (map f xs) = f (hd xs) @ q"
    using assms by (cases "(sep, map f xs)" rule: join_text.cases) auto
  then show thesis using that by simp
qed

theorem parse_json_text:
  assumes "style_ok st" "json_ok frepr depth t" "build H frepr t = Inr v" "ends_number r"
  shows "parse_value H depth (json_text st frepr t @ r) = Inr (v, r)"
  using assms(2-)
proof (induction t arbitrary: depth v r)
  case JNull
  then show ?case by (simp add: parse_value_scalar parse_scalar_def starts_with_def)
next
  case (JBool b)
  then show ?case by (cases b) (auto simp: parse_value_scalar parse_scalar_def starts_with_def)
next
  case (JInt n)
  then show ?case by (simp add: parse_value_number [OF scan_number_int] int_of_codes_text)
next
  case (JFloat x)
  then show ?case by (simp add: parse_value_number [OF scan_number_float])
next
  case (JStr s)
  then show ?case by (simp add: parse_string_text)
next
  case (JArr xs)
  from JArr.prems obtain d where d: "depth = Suc d" by (cases depth) auto
  from JArr.prems obtain vs where vs: "rmap (build H frepr) xs = Inr vs" "v = jh_list H vs"
    by (auto simp: rbind_eq_Inr_iff)
  show ?case
  proof (cases "xs = []")
    case True
    with d vs show ?thesis by (simp add: skip_ws_Cons is_ws_def)
  next
    case False
    let ?ts = "join_text (44 # js_item_gap st) (map (json_text st frepr) xs) @ 93 # r"
    have ok: "json_ok frepr d x" if "x \<in> set xs" for x using that JArr.prems(1) d by simp
    obtain q where q: "?ts = json_text st frepr (hd xs) @ q"
      using False by (rule join_text_Cons)
    from False ok have "skip_ws ?ts = ?ts" "take 1 ?ts \<noteq> [93]"
      unfolding q using skip_ws_json_text json_text_first hd_in_set by (metis, metis)
    moreover have "parse_items 93 (parse_value H d) ?ts = Inr (vs, r)"
      using assms(1) JArr.IH ok skip_ws_json_text [OF ok]
      by (intro parse_items_join [OF False vs(1)]) (auto simp: style_ok_def is_ws_def)
    ultimately show ?thesis using d vs by simp
  qed
next
  case (JObj kvs)
  from JObj.prems obtain d where d: "depth = Suc d" by (cases depth) auto
  let ?b = "\<lambda>(k, t). rbind (build H frepr t) (\<lambda>v. Inr (k, v))"
  let ?t = "\<lambda>(k, v). string_text (js_ascii st) k @ 58 # js_key_gap st @ json_text st frepr v"
  from JObj.prems obtain vs where vs: "rmap ?b kvs = Inr vs" "jh_pairs H vs = Inr v"
    by (auto simp: rbind_eq_Inr_iff)
  show ?case
  proof (cases "kvs = []")
    case True
    with d vs show ?thesis by (simp add: skip_ws_Cons is_ws_def)
  next
    case False
    let ?ts = "join_text (44 # js_item_gap st) (map ?t kvs) @ 125 # r"
    have ok: "string_ok k \<and> json_ok frepr d x" if "(k, x) \<in> set kvs" for k x
      using that JObj.prems(1) d by auto
    obtain q where q: "?ts = ?t (hd kvs) @ q"
      using False by (rule join_text_Cons)
    have first: "skip_ws (?t kv @ q) = ?t kv @ q" "take 1 (?t kv @ q) = [34]" for kv q
      by (simp_all add: string_text_def skip_ws_Cons is_ws_def split: prod.split)
    from first [of "hd kvs" q] have "skip_ws ?ts = ?ts" "take 1 ?ts \<noteq> [125]" unfolding q by simp_all
    moreover have "parse_member (parse_value H d) (?t kv @ r') = Inr (kv', r')"
      if member: "kv \<in> set kvs" "ends_number r'" and built: "?b kv = Inr kv'" for kv kv' r'
    proof -
      obtain k x w where kv: "kv = (k, x)" "build H frepr x = Inr w" "kv' = (k, w)"
        using built by (cases kv) (auto simp: rbind_eq_Inr_iff)
      with member ok [of k x] JObj.IH [of kv x d w r'] have "parse_value H d (json_text st frepr x @ r') = Inr (w, r')"
        by simp
      with kv member(1) ok [of k x] assms(1) show ?thesis
        using parse_member_text [of k st frepr d x "parse_value H d" r' w] by simp
    qed
    then have "parse_items 125 (parse_member (parse_value H d)) ?ts = Inr (vs, r)"
      using assms(1) first
      by (intro parse_items_join [OF False vs(1)]) (auto simp: style_ok_def is_ws_def)
    ultimately show ?thesis using d vs by simp
  qed
qed

text \<open>With \<open>ensure_ascii\<close> the text is ASCII and has no NUL, so every decoder of \<open>loads\<close> leaves it as it is.\<close>

definition ascii_text :: "codes \<Rightarrow> bool" where
  "ascii_text cs \<longleftrightarrow> (\<forall>c \<in> set cs. 0 < c \<and> c < 128)"

lemma ascii_text_simps [simp]:
  "ascii_text []" "ascii_text (c # cs) \<longleftrightarrow> 0 < c \<and> c < 128 \<and> ascii_text cs" "ascii_text (a @ b) \<longleftrightarrow> ascii_text a \<and> ascii_text b"
  by (auto simp: ascii_text_def)

lemma hex4_ascii [simp]: "ascii_text (hex4 n)"
proof -
  have "hex_digit (k mod 16) < 128 \<and> 0 < hex_digit (k mod 16)" for k
  proof -
    have "k mod 16 < 16" by simp
    then show ?thesis by (auto simp: hex_digit_def)
  qed
  then show ?thesis by (simp add: hex4_def)
qed

lemma string_text_ascii [simp]: "ascii_text (string_text True s)"
proof -
  have "ascii_text (escape_code True c)" for c
    by (auto simp: escape_code_def short_escapes_def split: option.splits if_splits)
  then have "ascii_text (concat (map (escape_code True) s))" by (induction s) simp_all
  then show ?thesis by (simp add: string_text_def)
qed

lemma int_text_ascii [simp]: "ascii_text (int_text n)"
  using str_of_nat_digits [of "nat n"] str_of_nat_digits [of "nat (- n)"]
  by (fastforce simp: int_text_def ascii_text_def is_digit_code_def)

lemma join_text_ascii: "ascii_text sep \<Longrightarrow> (\<And>x. x \<in> set xs \<Longrightarrow> ascii_text x) \<Longrightarrow> ascii_text (join_text sep xs)"
  by (induction sep xs rule: join_text.induct) auto

definition style_ascii :: "json_style \<Rightarrow> bool" where
  "style_ascii st \<longleftrightarrow> style_ok st \<and> js_ascii st"

lemma styles_ascii [simp]: "style_ascii default_style" "style_ascii (compact_style True)"
  by (simp_all add: style_ascii_def) (simp_all add: default_style_def compact_style_def)

lemma ws_range: "is_ws c \<Longrightarrow> 0 < c \<and> c < 128"
  by (auto simp: is_ws_def)

lemma gap_ascii: "style_ascii st \<Longrightarrow> ascii_text (js_item_gap st) \<and> ascii_text (js_key_gap st)"
  by (auto simp: style_ascii_def style_ok_def ascii_text_def dest: ws_range)

lemma digits_ascii [simp]: "ascii_text (takeWhile is_digit_code cs)"
  by (auto simp: ascii_text_def is_digit_code_def dest: set_takeWhileD)

lemma float_text_ascii: "is_float_text t \<Longrightarrow> ascii_text t"
proof -
  assume "is_float_text t"
  then obtain i r1 f r2 e r3 where t: "t = i @ f @ e" "scan_integer t = Some (i, r1)" "scan_fraction r1 = (f, r2)"
    "scan_exponent r2 = (e, r3)"
    by (auto simp: is_float_text_def scan_number_def split: option.splits prod.splits)
  have "ascii_text i" using t(2) by (auto simp: scan_integer_def is_digit_code_def Let_def split: list.splits if_splits)
  moreover have "ascii_text f" using t(3) by (auto simp: scan_fraction_def split: list.splits if_splits)
  moreover have "ascii_text e" using t(4) by (auto simp: scan_exponent_def Let_def split: list.splits if_splits)
  ultimately show ?thesis using t(1) by simp
qed

lemma json_text_ascii:
  assumes "style_ascii st" "json_ok frepr depth t"
  shows "ascii_text (json_text st frepr t)"
  using assms(2)
proof (induction t arbitrary: depth)
  case (JObj kvs)
  have "ascii_text (string_text (js_ascii st) k @ 58 # js_key_gap st @ json_text st frepr v)" if "(k, v) \<in> set kvs" for k v
    using JObj.IH [OF that, of v "depth - 1"] JObj.prems that assms(1) gap_ascii by (auto simp: style_ascii_def)
  then show ?case using gap_ascii [OF assms(1)] by (auto intro!: join_text_ascii)
next
  case (JArr xs)
  then have "ascii_text (json_text st frepr x)" if "x \<in> set xs" for x using that by auto
  then show ?case using gap_ascii [OF assms(1)] by (auto intro!: join_text_ascii)
qed (use assms in \<open>auto simp: style_ascii_def codes_def float_text_ascii\<close>)

lemma utf8_decode_ascii: "ascii_text cs \<Longrightarrow> utf8_decode sp cs = Some cs"
  by (induction cs) auto

lemma decode_detected_ascii:
  assumes "ascii_text cs"
  shows "decode_detected cs = Some cs"
proof (cases cs)
  case (Cons a r)
  with assms show ?thesis
    by (cases r) (auto simp: decode_detected_def utf8_decode_ascii)
qed (simp add: decode_detected_def)

lemma unat_ascii_bytes: "ascii_text cs \<Longrightarrow> map unat (ascii_bytes cs) = cs"
  by (induction cs) (auto simp: ascii_bytes_def unat_of_nat)

theorem loads_dumps:
  assumes "style_ascii st" "json_ok frepr depth t" "build H frepr t = Inr v"
  shows "loads_text H depth (json_text st frepr t) = Inr v"
    and "loads_bytes H depth (ascii_bytes (json_text st frepr t)) = Inr v"
proof -
  let ?t = "json_text st frepr t"
  note ascii = json_text_ascii [OF assms(1,2)]
  have "parse_value H depth (?t @ []) = Inr (v, [])"
    using assms by (intro parse_json_text) (simp_all add: style_ascii_def)
  moreover have "take 1 ?t \<noteq> [0xFEFF]" using ascii by (cases ?t) auto
  ultimately show read: "loads_text H depth ?t = Inr v"
    using skip_ws_json_text [OF assms(2), of st "[]"] by (simp add: loads_text_def skip_ws_def)
  from read ascii show "loads_bytes H depth (ascii_bytes ?t) = Inr v"
    by (simp add: loads_bytes_def unat_ascii_bytes decode_detected_ascii)
qed

end
