(* ===== verification/Json_Codec.thy ===== *)
theory Json_Codec
  imports Py_Json Held_Items
begin

text \<open>
  The wire codec of queue and storage payloads, \<open>backends/_json_codec.py\<close>: rich values are encoded as
  tagged JSON objects, and a caller's dictionary that happens to look like such a tag is escaped.

  A value is a \<open>pyobj\<close>. Of \<open>datetime\<close> and \<open>date\<close> objects the codec uses only \<open>isoformat\<close> and
  \<open>fromisoformat\<close>, which are parameters, as \<open>float.__repr__\<close> is; a \<open>Decimal\<close>, \<open>UUID\<close> or \<open>Path\<close> is its
  \<open>str\<close>. The interpreter's recursion limit is an argument when reading; when writing it is left out.

  Shown: what \<open>serialize\<close> accepts comes back from \<open>deserialize\<close> with the same dictionaries, strings,
  numbers, bytes and dates, whatever keys the caller chose; secrets are never written; duplicate
  member names are refused.
\<close>

section \<open>Values\<close>

datatype pykey = KStr codes | KSecret | KOther

datatype ('t, 'd) pyobj =
    ONone
  | OBool bool
  | OInt int
  | OFloat pyfloat
  | OStr codes
  | OBytes bytes
  | ODatetime 't
  | ODate 'd
  | ODict "(pykey \<times> ('t, 'd) pyobj) list"
  | OList "('t, 'd) pyobj list"
  | OTuple "('t, 'd) pyobj list"
  | OSet "('t, 'd) pyobj list"
  | ODecimal bool codes
  | OUuid codes
  | OPath codes
  | OEnum "('t, 'd) pyobj"
  | OSecret
  | OOther

text \<open>\<open>isoformat\<close> and \<open>fromisoformat\<close> of the two classes, and \<open>float.__repr__\<close>.\<close>

record ('t, 'd) py_texts =
  pt_datetime_iso :: "'t \<Rightarrow> codes"
  pt_datetime_of :: "codes \<Rightarrow> 't option"
  pt_date_iso :: "'d \<Rightarrow> codes"
  pt_date_of :: "codes \<Rightarrow> 'd option"
  pt_float_repr :: "rat \<Rightarrow> codes"

definition codec_tag :: codes where "codec_tag = codes ''__scrapy_extension_json_type__''"
definition codec_data :: codes where "codec_data = codes ''data''"
definition codec_bytes :: codes where "codec_bytes = codes ''bytes''"
definition codec_dict :: codes where "codec_dict = codes ''dict''"
definition codec_datetime :: codes where "codec_datetime = codes ''datetime''"
definition codec_date :: codes where "codec_date = codes ''date''"
definition bytes_tag :: codes where "bytes_tag = codes ''__b64__''"

section \<open>Encoding\<close>

definition marker :: "codes \<Rightarrow> json \<Rightarrow> json" where
  "marker kind data = JObj [(codec_tag, JStr kind), (codec_data, data)]"

fun is_jstr :: "json option \<Rightarrow> bool" where
  "is_jstr (Some (JStr s)) = True"
| "is_jstr _ = False"

definition looks_like_codec_marker :: "(codes \<times> json) list \<Rightarrow> bool" where
  "looks_like_codec_marker obj \<longleftrightarrow>
     length obj = 1 \<and> is_jstr (map_of obj bytes_tag)
     \<or> length obj = 2
       \<and> map_of obj codec_tag \<in> Some ` JStr ` {codec_bytes, codec_dict, codec_datetime, codec_date}
       \<and> codec_data \<in> fst ` set obj"

text \<open>The check of all keys before any value is encoded.\<close>

fun encode_keys :: "pykey list \<Rightarrow> unit result" where
  "encode_keys [] = Inr ()"
| "encode_keys (KStr _ # ks) = encode_keys ks"
| "encode_keys (KSecret # ks) = Inl SecretWrapperSerializationRejected"
| "encode_keys (KOther # ks) = Inl TypeError"

fun key_text :: "pykey \<Rightarrow> codes" where
  "key_text (KStr s) = s"
| "key_text _ = []"

definition escape_dict :: "(codes \<times> json) list \<Rightarrow> json" where
  "escape_dict encoded =
     (if looks_like_codec_marker encoded then marker codec_dict (JArr (map (\<lambda>(k, v). JArr [JStr k, v]) encoded))
      else JObj encoded)"

text \<open>
  \<open>_encode_json_value\<close>, with the classes \<open>_json_default\<close> converts; a converted value is encoded again.
\<close>

fun encode_json_value :: "('t, 'd) py_texts \<Rightarrow> ('t, 'd) pyobj \<Rightarrow> json result" where
  "encode_json_value P OSecret = Inl SecretWrapperSerializationRejected"
| "encode_json_value P (OBytes bs) = Inr (marker codec_bytes (JStr (codes (b64encode bs))))"
| "encode_json_value P (ODatetime t) = Inr (marker codec_datetime (JStr (pt_datetime_iso P t)))"
| "encode_json_value P (ODate d) = Inr (marker codec_date (JStr (pt_date_iso P d)))"
| "encode_json_value P (ODict kvs) =
     rbind (encode_keys (map fst kvs)) (\<lambda>_.
       rbind (rmap (\<lambda>(k, v). rbind (encode_json_value P v) (\<lambda>t. Inr (key_text k, t))) kvs) (\<lambda>encoded.
         Inr (escape_dict encoded)))"
| "encode_json_value P (OList vs) = rbind (rmap (encode_json_value P) vs) (\<lambda>ts. Inr (JArr ts))"
| "encode_json_value P (OTuple vs) = rbind (rmap (encode_json_value P) vs) (\<lambda>ts. Inr (JArr ts))"
| "encode_json_value P (OFloat x) = (case x of Fin r \<Rightarrow> Inr (JFloat r) | _ \<Rightarrow> Inl ValueError)"
| "encode_json_value P ONone = Inr JNull"
| "encode_json_value P (OBool b) = Inr (JBool b)"
| "encode_json_value P (OInt n) = Inr (JInt n)"
| "encode_json_value P (OStr s) = Inr (JStr s)"
| "encode_json_value P (ODecimal is_finite s) = (if is_finite then Inr (JStr s) else Inl ValueError)"
| "encode_json_value P (OUuid s) = Inr (JStr s)"
| "encode_json_value P (OSet vs) = rbind (rmap (encode_json_value P) vs) (\<lambda>ts. Inr (JArr ts))"
| "encode_json_value P (OEnum v) = encode_json_value P v"
| "encode_json_value P (OPath s) = Inr (JStr s)"
| "encode_json_value P OOther = Inl TypeError"

text \<open>\<open>json.dumps\<close> raises for an integer whose decimal text exceeds CPython's limit of 4300 digits.\<close>

fun ints_printable :: "json \<Rightarrow> bool" where
  "ints_printable (JInt n) \<longleftrightarrow> length (int_text \<bar>n\<bar>) \<le> 4300"
| "ints_printable (JArr ts) \<longleftrightarrow> (\<forall>t \<in> set ts. ints_printable t)"
| "ints_printable (JObj kvs) \<longleftrightarrow> (\<forall>(k, t) \<in> set kvs. ints_printable t)"
| "ints_printable _ \<longleftrightarrow> True"

definition serialize :: "('t, 'd) py_texts \<Rightarrow> ('t, 'd) pyobj \<Rightarrow> bytes result" where
  "serialize P obj =
     (case encode_json_value P obj of
        Inl e \<Rightarrow> Inl (if e = SecretWrapperSerializationRejected then TypeError else e)
      | Inr t \<Rightarrow>
          if ints_printable t then Inr (ascii_bytes (json_text default_style (pt_float_repr P) t)) else Inl ValueError)"

section \<open>Decoding\<close>

definition b64decode_codes :: "codes \<Rightarrow> bytes option" where
  "b64decode_codes cs = (if \<forall>c \<in> set cs. c < 128 then b64decode (map char_of cs) else None)"

text \<open>Objects are dictionaries with string keys; \<open>dget\<close> is \<open>dict.get\<close>.\<close>

definition dget :: "(pykey \<times> ('t, 'd) pyobj) list \<Rightarrow> codes \<Rightarrow> ('t, 'd) pyobj option" where
  "dget obj k = map_of obj (KStr k)"

definition decode_bytes_tag :: "(pykey \<times> ('t, 'd) pyobj) list \<Rightarrow> ('t, 'd) pyobj" where
  "decode_bytes_tag obj =
     (if length obj = 1 then
        (case dget obj bytes_tag of
           Some (OStr s) \<Rightarrow> (case b64decode_codes s of Some bs \<Rightarrow> OBytes bs | None \<Rightarrow> ODict obj)
         | _ \<Rightarrow> ODict obj)
      else ODict obj)"

fun pair_of :: "('t, 'd) pyobj \<Rightarrow> (codes \<times> ('t, 'd) pyobj) option" where
  "pair_of (OList [OStr k, v]) = Some (k, v)"
| "pair_of _ = None"

text \<open>The members in order, refusing a name that was already seen.\<close>

fun collect_members ::
  "(codes \<times> ('t, 'd) pyobj) list \<Rightarrow> (pykey \<times> ('t, 'd) pyobj) list \<Rightarrow> (pykey \<times> ('t, 'd) pyobj) list result" where
  "collect_members [] result = Inr result"
| "collect_members ((k, v) # kvs) result =
     (if KStr k \<in> fst ` set result then Inl ValueError else collect_members kvs (result @ [(KStr k, v)]))"

definition decode_marker_dict ::
  "('t, 'd) py_texts \<Rightarrow> (pykey \<times> ('t, 'd) pyobj) list \<Rightarrow> ('t, 'd) pyobj result" where
  "decode_marker_dict P obj =
     (case (length obj = 2, dget obj codec_tag, dget obj codec_data) of
        (True, Some (OStr tag), Some (OList items)) \<Rightarrow>
          if tag = codec_dict \<and> (\<forall>i \<in> set items. pair_of i \<noteq> None)
          then rbind (collect_members (map (the \<circ> pair_of) items) []) (\<lambda>d. Inr (ODict d))
          else Inr (decode_bytes_tag obj)
      | (True, Some (OStr tag), Some (OStr data)) \<Rightarrow>
          (let keep = (\<lambda>r. case r of Some v \<Rightarrow> Inr v | None \<Rightarrow> Inr (decode_bytes_tag obj)) in
           if tag = codec_bytes then keep (map_option OBytes (b64decode_codes data))
           else if tag = codec_datetime then keep (map_option ODatetime (pt_datetime_of P data))
           else if tag = codec_date then keep (map_option ODate (pt_date_of P data))
           else Inr (decode_bytes_tag obj))
      | _ \<Rightarrow> Inr (decode_bytes_tag obj))"

definition json_object_from_pairs ::
  "('t, 'd) py_texts \<Rightarrow> (codes \<times> ('t, 'd) pyobj) list \<Rightarrow> ('t, 'd) pyobj result" where
  "json_object_from_pairs P pairs = rbind (collect_members pairs []) (decode_marker_dict P)"

definition parse_finite_json_float :: "codes \<Rightarrow> ('t, 'd) pyobj result" where
  "parse_finite_json_float value =
     rbind (float_of_string (map char_of value)) (\<lambda>x. case x of Fin _ \<Rightarrow> Inr (OFloat x) | _ \<Rightarrow> Inl ValueError)"

definition reject_non_finite_json_constant :: "codes \<Rightarrow> ('t, 'd) pyobj result" where
  "reject_non_finite_json_constant value = Inl ValueError"

definition codec_hooks :: "('t, 'd) py_texts \<Rightarrow> ('t, 'd) pyobj json_hooks" where
  "codec_hooks P =
     \<lparr>jh_null = ONone, jh_bool = OBool, jh_int = OInt, jh_str = OStr, jh_list = OList,
      jh_float = parse_finite_json_float, jh_constant = reject_non_finite_json_constant,
      jh_pairs = json_object_from_pairs P\<rparr>"

definition deserialize :: "('t, 'd) py_texts \<Rightarrow> nat \<Rightarrow> bytes \<Rightarrow> ('t, 'd) pyobj result" where
  "deserialize P depth data =
     (case utf8_decode False (map unat data) of
        None \<Rightarrow> Inl UnicodeDecodeError
      | Some cs \<Rightarrow> loads_text (codec_hooks P) depth cs)"

section \<open>Round trip\<close>

text \<open>
  What a value becomes on the wire and back: JSON has neither tuples nor sets, and the classes that
  are written as their \<open>str\<close> come back as strings.
\<close>

fun wire_value :: "('t, 'd) pyobj \<Rightarrow> ('t, 'd) pyobj" where
  "wire_value (ODict kvs) = ODict (map (\<lambda>(k, v). (k, wire_value v)) kvs)"
| "wire_value (OList vs) = OList (map wire_value vs)"
| "wire_value (OTuple vs) = OList (map wire_value vs)"
| "wire_value (OSet vs) = OList (map wire_value vs)"
| "wire_value (ODecimal b s) = OStr s"
| "wire_value (OUuid s) = OStr s"
| "wire_value (OPath s) = OStr s"
| "wire_value (OEnum v) = wire_value v"
| "wire_value v = v"

text \<open>A Python dictionary has each key once and a float is a double.\<close>

fun obj_ok :: "('t, 'd) pyobj \<Rightarrow> bool" where
  "obj_ok (ODict kvs) \<longleftrightarrow> distinct (map fst kvs) \<and> (\<forall>(k, v) \<in> set kvs. obj_ok v)"
| "obj_ok (OList vs) \<longleftrightarrow> (\<forall>v \<in> set vs. obj_ok v)"
| "obj_ok (OTuple vs) \<longleftrightarrow> (\<forall>v \<in> set vs. obj_ok v)"
| "obj_ok (OSet vs) \<longleftrightarrow> (\<forall>v \<in> set vs. obj_ok v)"
| "obj_ok (OEnum v) \<longleftrightarrow> obj_ok v"
| "obj_ok (OFloat x) \<longleftrightarrow> (case x of Fin r \<Rightarrow> is_double r | _ \<Rightarrow> True)"
| "obj_ok _ \<longleftrightarrow> True"

text \<open>What Python documents of \<open>fromisoformat\<close> and of the \<open>repr\<close> of a float: they invert each other.\<close>

definition texts_ok :: "('t, 'd) py_texts \<Rightarrow> bool" where
  "texts_ok P \<longleftrightarrow>
     (\<forall>t. pt_datetime_of P (pt_datetime_iso P t) = Some t) \<and> (\<forall>d. pt_date_of P (pt_date_iso P d) = Some d)
     \<and> (\<forall>x. is_double x \<longrightarrow> float_of_string (map char_of (pt_float_repr P x)) = Inr (Fin x))"

lemma b64_char_ascii [simp]: "n < 64 \<Longrightarrow> (of_char (b64_char n) :: nat) < 128"
proof -
  have "list_all (\<lambda>n. (of_char (b64_char n) :: nat) < 128) [0..<64]" by code_simp
  then show "n < 64 \<Longrightarrow> (of_char (b64_char n) :: nat) < 128" by (simp add: list_all_iff)
qed

lemma b64encode_ascii: "\<forall>c \<in> set (codes (b64encode bs)). c < 128"
proof (induction bs rule: b64encode.induct)
  case (2 a)
  show ?case using unat_byte [of a] by simp
next
  case (3 a b)
  show ?case using unat_byte [of a] unat_byte [of b] by simp
next
  case (4 a b c r)
  then show ?case using unat_byte [of a] unat_byte [of b] unat_byte [of c] by simp
qed simp

lemma b64decode_codes_encode [simp]: "b64decode_codes (codes (b64encode bs)) = Some bs"
  using b64encode_ascii by (simp add: b64decode_codes_def)

lemma tags_distinct [simp]:
  "codec_tag \<noteq> codec_data" "codec_data \<noteq> codec_tag" "codec_bytes \<noteq> codec_dict" "codec_datetime \<noteq> codec_dict"
  "codec_date \<noteq> codec_dict" "codec_datetime \<noteq> codec_bytes" "codec_date \<noteq> codec_bytes" "codec_date \<noteq> codec_datetime"
  by (simp_all add: codec_tag_def codec_data_def codec_bytes_def codec_dict_def codec_datetime_def codec_date_def)

lemma tags_string_ok [simp]:
  "string_ok codec_tag" "string_ok codec_data" "string_ok codec_bytes" "string_ok codec_dict" "string_ok codec_datetime"
  "string_ok codec_date" "string_ok bytes_tag"
  by (simp_all only: string_ok_codes codec_tag_def codec_data_def codec_bytes_def codec_dict_def codec_datetime_def
      codec_date_def bytes_tag_def)

lemma collect_members_distinct:
  "distinct (map fst kvs) \<Longrightarrow> (\<forall>k \<in> fst ` set kvs. KStr k \<notin> fst ` set acc) \<Longrightarrow>
    collect_members kvs acc = Inr (acc @ map (\<lambda>(k, v). (KStr k, v)) kvs)"
proof (induction kvs arbitrary: acc)
  case (Cons kv kvs)
  obtain k v where kv: "kv = (k, v)" by (cases kv)
  have "collect_members kvs (acc @ [(KStr k, v)]) = Inr ((acc @ [(KStr k, v)]) @ map (\<lambda>(k, v). (KStr k, v)) kvs)"
    using Cons.prems kv by (intro Cons.IH) auto
  with Cons.prems kv show ?case by simp
qed simp

lemma encode_keys_Inr: "encode_keys ks = Inr () \<Longrightarrow> \<forall>k \<in> set ks. k = KStr (key_text k)"
  by (induction ks rule: encode_keys.induct) auto

lemma encoded_string:
  "encode_json_value P v = Inr t \<Longrightarrow> wire_value v = OStr s \<Longrightarrow> t = JStr s"
  by (induction v arbitrary: t) (auto split: if_splits pyfloat.splits)


text \<open>A dictionary that is not escaped is not taken for a marker, because its children are strings exactly when
  their encodings are.\<close>

lemma dget_wire:
  assumes "\<forall>(k, v) \<in> set kvs. k = KStr (key_text k)"
    and "rmap (\<lambda>(k, v). rbind (encode_json_value P v) (\<lambda>t. Inr (key_text k, t))) kvs = Inr encoded"
    and "dget (map (\<lambda>(k, v). (k, wire_value v)) kvs) key = Some x"
  shows "key \<in> fst ` set encoded \<and> (\<forall>s. x = OStr s \<longrightarrow> map_of encoded key = Some (JStr s))"
  using assms
proof (induction kvs arbitrary: encoded)
  case (Cons kv kvs)
  then obtain k v t rest where kv: "kv = (KStr k, v)" "encode_json_value P v = Inr t" "encoded = (k, t) # rest"
    "rmap (\<lambda>(k, v). rbind (encode_json_value P v) (\<lambda>t. Inr (key_text k, t))) kvs = Inr rest"
    by (cases kv) (force simp: rbind_eq_Inr_iff)
  then show ?case
    using Cons.prems Cons.IH [OF _ kv(4)] encoded_string [OF kv(2)] by (auto simp: dget_def split: if_splits)
qed (simp add: dget_def)

lemma decode_plain_dict:
  assumes "\<forall>(k, v) \<in> set kvs. k = KStr (key_text k)"
    and "rmap (\<lambda>(k, v). rbind (encode_json_value P v) (\<lambda>t. Inr (key_text k, t))) kvs = Inr encoded"
    and "\<not> looks_like_codec_marker encoded"
  shows "decode_marker_dict P (map (\<lambda>(k, v). (k, wire_value v)) kvs) = Inr (ODict (map (\<lambda>(k, v). (k, wire_value v)) kvs))"
proof -
  let ?obj = "map (\<lambda>(k, v). (k, wire_value v)) kvs"
  note get = dget_wire [OF assms(1,2)]
  have len: "length encoded = length kvs" using rmap_eq_Inr_length [OF assms(2)] .
  have "decode_bytes_tag ?obj = ODict ?obj"
    using get [of bytes_tag] assms(3) len
    by (auto simp: decode_bytes_tag_def looks_like_codec_marker_def split: option.splits pyobj.splits)
  moreover have "tag \<notin> {codec_bytes, codec_dict, codec_datetime, codec_date}"
    if "length ?obj = 2" "dget ?obj codec_tag = Some (OStr tag)" "dget ?obj codec_data = Some x" for tag x
    using get [OF that(2)] get [OF that(3)] that(1) assms(3) len by (auto simp: looks_like_codec_marker_def)
  ultimately show ?thesis
    unfolding decode_marker_dict_def by (auto split: option.splits pyobj.splits bool.splits)
qed

lemma dget_simps [simp]: "dget [] k = None" "dget ((KStr j, v) # kvs) k = (if j = k then Some v else dget kvs k)"
  by (simp_all add: dget_def)

lemma codec_hooks_simps [simp]:
  "jh_null (codec_hooks P) = ONone" "jh_bool (codec_hooks P) = OBool" "jh_int (codec_hooks P) = OInt"
  "jh_str (codec_hooks P) = OStr" "jh_list (codec_hooks P) = OList"
  "jh_float (codec_hooks P) = parse_finite_json_float" "jh_pairs (codec_hooks P) = json_object_from_pairs P"
  by (simp_all add: codec_hooks_def)

lemma build_marker:
  "build (codec_hooks P) frepr (marker kind t) = rbind (build (codec_hooks P) frepr t) (\<lambda>v.
     decode_marker_dict P [(KStr codec_tag, OStr kind), (KStr codec_data, v)])"
  by (cases "build (codec_hooks P) frepr t") (simp_all add: marker_def json_object_from_pairs_def)

lemma rmap_rmap:
  "rmap f xs = Inr ys \<Longrightarrow> (\<And>x y. x \<in> set xs \<Longrightarrow> f x = Inr y \<Longrightarrow> g y = Inr (h x)) \<Longrightarrow> rmap g ys = Inr (map h xs)"
  by (induction xs arbitrary: ys) (auto simp: rbind_eq_Inr_iff)

lemma rmap_compose: "rmap f (map g xs) = rmap (f \<circ> g) xs"
  by (induction xs) auto

text \<open>Both forms of a dictionary are read back to it.\<close>

lemma build_escape_dict:
  assumes keys: "encode_keys (map fst kvs) = Inr ()" and distinct: "distinct (map fst kvs)"
    and encoded: "rmap (\<lambda>(k, v). rbind (encode_json_value P v) (\<lambda>t. Inr (key_text k, t))) kvs = Inr encoded"
    and built: "\<And>k v t. (k, v) \<in> set kvs \<Longrightarrow> encode_json_value P v = Inr t \<Longrightarrow> build (codec_hooks P) frepr t = Inr (wire_value v)"
  shows "build (codec_hooks P) frepr (escape_dict encoded) = Inr (wire_value (ODict kvs))"
proof -
  let ?members = "map (\<lambda>(k, v). (key_text k, wire_value v)) kvs"
  let ?obj = "map (\<lambda>(k, v). (k, wire_value v)) kvs"
  have str: "\<forall>(k, v) \<in> set kvs. k = KStr (key_text k)"
    using encode_keys_Inr [OF keys] by auto
  then have obj: "map (\<lambda>(k, v). (KStr k, v)) ?members = ?obj" by auto
  have "inj_on key_text (set (map fst kvs))"
  proof (intro inj_onI)
    fix x y
    assume "x \<in> set (map fst kvs)" "y \<in> set (map fst kvs)" "key_text x = key_text y"
    then show "x = y" using encode_keys_Inr [OF keys] by metis
  qed
  with distinct have "distinct (map key_text (map fst kvs))" by (simp only: distinct_map)
  then have "distinct (map fst ?members)" by (simp add: comp_def case_prod_beta)
  then have "collect_members ?members [] = Inr ([] @ map (\<lambda>(k, v). (KStr k, v)) ?members)"
    by (rule collect_members_distinct) simp
  then have collect: "collect_members ?members [] = Inr ?obj" by (simp only: obj append_Nil)
  have members: "rmap (\<lambda>(k, t). rbind (build (codec_hooks P) frepr t) (\<lambda>v. Inr (k, v))) encoded = Inr ?members"
    by (rule rmap_rmap [OF encoded]) (use built in \<open>auto simp: rbind_eq_Inr_iff\<close>)
  show ?thesis
  proof (cases "looks_like_codec_marker encoded")
    case False
    then show ?thesis
      using members collect decode_plain_dict [OF str encoded False]
      by (simp add: escape_dict_def json_object_from_pairs_def)
  next
    case True
    define items where "items = map (\<lambda>(k, v). OList [OStr (key_text k), wire_value v]) kvs"
    have "rmap (build (codec_hooks P) frepr) (map (\<lambda>(k, v). JArr [JStr k, v]) encoded) = Inr items"
      unfolding rmap_compose items_def
      by (rule rmap_rmap [OF encoded]) (use built in \<open>auto simp: rbind_eq_Inr_iff\<close>)
    moreover have "map (the \<circ> pair_of) items = ?members" "\<forall>i \<in> set items. pair_of i \<noteq> None"
      by (auto simp: items_def)
    ultimately show ?thesis
      using True collect by (simp add: escape_dict_def build_marker decode_marker_dict_def)
  qed
qed

lemma build_encode_list:
  assumes "rmap (encode_json_value P) vs = Inr ts"
    and "\<And>v t. v \<in> set vs \<Longrightarrow> encode_json_value P v = Inr t \<Longrightarrow> build (codec_hooks P) frepr t = Inr (wire_value v)"
  shows "build (codec_hooks P) frepr (JArr ts) = Inr (OList (map wire_value vs))"
  using rmap_rmap [OF assms(1), of "build (codec_hooks P) frepr" wire_value] assms(2) by simp

lemma build_encode:
  assumes "texts_ok P"
  shows "obj_ok v \<Longrightarrow> encode_json_value P v = Inr t \<Longrightarrow> build (codec_hooks P) (pt_float_repr P) t = Inr (wire_value v)"
proof (induction v arbitrary: t)
  case (OFloat x)
  with assms show ?case
    by (cases x) (auto simp: parse_finite_json_float_def texts_ok_def)
next
  case (OBytes bs)
  then show ?case by (auto simp: build_marker decode_marker_dict_def)
next
  case (ODatetime d)
  with assms show ?case by (auto simp: build_marker decode_marker_dict_def texts_ok_def)
next
  case (ODate d)
  with assms show ?case by (auto simp: build_marker decode_marker_dict_def texts_ok_def)
next
  case (ODict kvs)
  then obtain encoded where "encode_keys (map fst kvs) = Inr ()" "t = escape_dict encoded"
    "rmap (\<lambda>(k, v). rbind (encode_json_value P v) (\<lambda>t. Inr (key_text k, t))) kvs = Inr encoded"
    by (auto simp: rbind_eq_Inr_iff)
  moreover have "build (codec_hooks P) (pt_float_repr P) t = Inr (wire_value v)"
    if "(k, v) \<in> set kvs" "encode_json_value P v = Inr t" for k v t
    using ODict.IH [OF that(1), of v t] ODict.prems(1) that by auto
  moreover have "distinct (map fst kvs)" using ODict.prems(1) by simp
  ultimately show ?case by (simp only: build_escape_dict)
next
  case (OList vs)
  then obtain ts where "rmap (encode_json_value P) vs = Inr ts" "t = JArr ts" by (auto simp: rbind_eq_Inr_iff)
  with OList show ?case using build_encode_list [of P vs ts] by simp
next
  case (OTuple vs)
  then obtain ts where "rmap (encode_json_value P) vs = Inr ts" "t = JArr ts" by (auto simp: rbind_eq_Inr_iff)
  with OTuple show ?case using build_encode_list [of P vs ts] by simp
next
  case (OSet vs)
  then obtain ts where "rmap (encode_json_value P) vs = Inr ts" "t = JArr ts" by (auto simp: rbind_eq_Inr_iff)
  with OSet show ?case using build_encode_list [of P vs ts] by simp
qed (auto split: if_splits)

section \<open>Properties\<close>

text \<open>The document of a value can be read back within \<open>depth\<close> nested containers.\<close>

definition readable :: "('t, 'd) py_texts \<Rightarrow> nat \<Rightarrow> ('t, 'd) pyobj \<Rightarrow> bool" where
  "readable P depth v \<longleftrightarrow>
     (case encode_json_value P v of Inr t \<Rightarrow> json_ok (pt_float_repr P) depth t | Inl _ \<Rightarrow> True)"

lemma deserialize_serialize:
  assumes "texts_ok P" "obj_ok v" "readable P depth v" "serialize P v = Inr bs"
  shows "deserialize P depth bs = Inr (wire_value v)"
proof -
  obtain t where t: "encode_json_value P v = Inr t" "bs = ascii_bytes (json_text default_style (pt_float_repr P) t)"
    using assms(4) by (auto simp: serialize_def split: sum.splits if_splits)
  with assms(3) have ok: "json_ok (pt_float_repr P) depth t" by (simp add: readable_def)
  let ?text = "json_text default_style (pt_float_repr P) t"
  have "loads_text (codec_hooks P) depth ?text = Inr (wire_value v)"
    using loads_dumps(1) [OF styles_ascii(1) ok build_encode [OF assms(1,2) t(1)]] .
  moreover have "ascii_text ?text" using json_text_ascii [OF styles_ascii(1) ok] .
  ultimately show ?thesis by (simp add: deserialize_def t(2) unat_ascii_bytes utf8_decode_ascii)
qed

text \<open>
  C32. Codec round trip: whatever \<open>serialize\<close> accepts, \<open>deserialize\<close> gives back, up to the classes JSON
  does not have (tuples and sets come back as lists; decimals, UUIDs and paths as strings; enum
  members as their values). Dictionaries come back with the same keys, values and order even when
  the caller's keys are the codec's own tags. The hypotheses: dictionaries have distinct keys and
  floats are doubles, as in Python; \<open>fromisoformat\<close> inverts \<open>isoformat\<close> and \<open>float\<close> inverts \<open>repr\<close>; and the
  document has only strings without a split surrogate pair and a nesting within the reader's
  recursion limit.
\<close>

theorem codec_roundtrip:
  assumes "texts_ok P" "obj_ok v" "readable P depth v" "serialize P v = Inr bs"
  shows "deserialize P depth bs = Inr (wire_value v)"
  using deserialize_serialize [OF assms] .

text \<open>
  Texts for the witness. Days and instants are numbers; a double is written exactly, as a decimal
  integer with an exponent.
\<close>

definition demo_scale :: nat where
  "demo_scale = 1074"

definition exact_repr :: "rat \<Rightarrow> string" where
  "exact_repr x =
     (if x < 0 then ''-'' else []) @ str_of_nat (nat \<lfloor>\<bar>x\<bar> * 10 ^ demo_scale\<rfloor>) @ ''e-'' @ str_of_nat demo_scale"

definition demo_texts :: "(nat, nat) py_texts" where
  "demo_texts =
     \<lparr>pt_datetime_iso = (\<lambda>n. codes (str_of_nat n)), pt_datetime_of = (\<lambda>cs. Some (codes_value cs)),
      pt_date_iso = (\<lambda>n. codes (str_of_nat n)), pt_date_of = (\<lambda>cs. Some (codes_value cs)),
      pt_float_repr = codes \<circ> exact_repr\<rparr>"

lemma double_scaled:
  assumes "is_double x"
  obtains n where "\<bar>x\<bar> * 10 ^ demo_scale = of_nat n"
proof -
  have cancel: "a / 2 ^ e * 2 ^ e = a" for a :: rat and e :: nat by simp
  have "\<bar>x\<bar> = round_mag \<bar>x\<bar>"
    using assms by (auto simp: is_double_def round_double_def split: if_splits)
  then have "\<bar>x\<bar> * 2 ^ demo_scale = round_scaled (\<bar>x\<bar> * 2 ^ 1074)"
    by (metis cancel demo_scale_def round_mag_def)
  then obtain n where n: "\<bar>x\<bar> * 2 ^ demo_scale = of_int n"
    by (metis of_int_mult of_int_numeral of_int_power round_scaled_def)
  have "(10::rat) ^ demo_scale = 2 ^ demo_scale * 5 ^ demo_scale" by (simp flip: power_mult_distrib)
  with n have "\<bar>x\<bar> * 10 ^ demo_scale = of_int (n * 5 ^ demo_scale)" by simp
  moreover have "0 \<le> \<bar>x\<bar> * 10 ^ demo_scale" by simp
  ultimately show thesis using that by (metis of_int_0_le_iff of_int_of_nat_eq zero_le_imp_eq_int)
qed

lemma is_digit_code_of: "is_digit c \<longleftrightarrow> is_digit_code (of_char c)"
proof -
  have "c \<in> set ''0123456789'' \<longleftrightarrow> of_char c \<in> set (codes ''0123456789'')"
    by (auto simp: codes_def simp del: of_char_Char)
  also have "\<dots> \<longleftrightarrow> is_digit_code (of_char c)" by (simp add: is_digit_code_def) presburger
  finally show ?thesis by (simp only: is_digit_def)
qed

lemma str_of_nat_is_digit: "c \<in> set (str_of_nat n) \<Longrightarrow> is_digit c"
  using str_of_nat_digits [of n] by (auto simp: is_digit_code_of codes_def)

lemma scan_digits_run:
  "\<forall>c \<in> set ds. is_digit c \<Longrightarrow> r = [] \<or> (\<not> is_digit (hd r) \<and> hd r \<noteq> CHR ''_'') \<Longrightarrow> scan_digits (ds @ r) = (ds, r)"
proof (induction ds)
  case Nil
  then show ?case by (cases r) auto
next
  case (Cons d ds)
  have "skip_underscore (ds @ r) = ds @ r"
    using Cons.prems by (cases ds; cases r) (auto simp: skip_underscore_def is_digit_def split: list.splits)
  with Cons show ?case by simp
qed

lemma digits_to_nat_str [simp]: "digits_to_nat (str_of_nat n) = n"
  using digits_value_str_of_nat [of n] by (simp add: digits_to_nat_def digits_value_def)

lemma str_of_nat_nonempty [simp]: "str_of_nat n \<noteq> []"
  by (subst str_of_nat.simps) simp

lemma parse_exact:
  "parse_decimal (str_of_nat n @ ''e-'' @ str_of_nat k) = Some (of_nat n / 10 ^ k)"
proof -
  have "scan_digits (str_of_nat n @ ''e-'' @ str_of_nat k) = (str_of_nat n, ''e-'' @ str_of_nat k)"
    by (rule scan_digits_run) (use str_of_nat_is_digit in blast, simp add: is_digit_def)
  moreover have "scan_digits (str_of_nat k @ []) = (str_of_nat k, [])"
    by (rule scan_digits_run) (auto simp: str_of_nat_is_digit)
  ultimately show ?thesis
    by (simp add: parse_decimal_def parse_exponent_def split_sign_def ascii_lower_def Let_def char_of_def bit_0)
qed

lemma strip_no_spaces:
  assumes "\<forall>c \<in> set s. \<not> is_space c"
  shows "strip_spaces s = s"
proof -
  have "dropWhile is_space t = t" if "set t = set s" for t using that assms by (cases t) auto
  from this [of s] this [of "rev s"] show ?thesis by (simp add: strip_spaces_def)
qed

lemma texts_ok_demo: "texts_ok demo_texts"
proof -
  have "float_of_string (exact_repr x) = Inr (Fin x)" if d: "is_double x" for x
  proof -
    obtain n where n: "\<bar>x\<bar> * 10 ^ demo_scale = of_nat n" using double_scaled [OF d] .
    let ?body = "str_of_nat n @ ''e-'' @ str_of_nat demo_scale"
    have repr: "exact_repr x = (if x < 0 then ''-'' else []) @ ?body" by (simp add: exact_repr_def n)
    have first: "\<exists>c r. ?body = c # r \<and> is_digit c"
      using str_of_nat_is_digit [of "hd (str_of_nat n)" n] by (cases "str_of_nat n") auto
    have "\<not> is_space c" if "is_digit c" for c using that by (auto simp: is_digit_def is_space_def)
    then have "strip_spaces (exact_repr x) = exact_repr x"
      by (intro strip_no_spaces) (auto simp: repr is_space_def dest: str_of_nat_is_digit)
    moreover have "split_sign (exact_repr x) = (x < 0, ?body)"
      using first by (auto simp: repr split_sign_def is_digit_def)
    moreover have name: "map ascii_lower ?body \<noteq> w" if "CHR ''-'' \<notin> set w" for w
      using that by (auto simp: ascii_lower_def)
    have "map ascii_lower ?body \<noteq> ''inf''" "map ascii_lower ?body \<noteq> ''infinity''" "map ascii_lower ?body \<noteq> ''nan''"
      by (rule name; simp)+
    moreover have "(of_nat n :: rat) / 10 ^ demo_scale = \<bar>x\<bar>" by (simp add: field_simps flip: n)
    ultimately show ?thesis
      using d parse_exact [of n demo_scale] by (auto simp: float_of_string_def Let_def)
  qed
  then show ?thesis by (simp add: texts_ok_def demo_texts_def)
qed

definition demo_name :: string where
  "demo_name = ''AQ==''"

definition demo_value :: "(nat, nat) pyobj" where
  "demo_value =
     ODict [(KStr codec_tag, OStr codec_dict),
            (KStr codec_data, OTuple [OBytes [1, 255], ODict [(KStr bytes_tag, OStr (codes demo_name))], OInt (- 20)])]"

theorem codec_roundtrip_witness:
  "\<exists>bs. serialize demo_texts demo_value = Inr bs
     \<and> deserialize demo_texts 10 bs = Inr (wire_value demo_value)"
proof -
  have "\<exists>t. encode_json_value demo_texts demo_value = Inr t \<and> ints_printable t \<and> json_ok (pt_float_repr demo_texts) 10 t"
    by (simp add: demo_value_def escape_dict_def looks_like_codec_marker_def marker_def int_text_def str_of_nat.simps
        string_ok_codes del: codes_simps(1-3) b64encode.simps)
  then obtain t where "encode_json_value demo_texts demo_value = Inr t" "ints_printable t" "json_ok (pt_float_repr demo_texts) 10 t"
    by blast
  then have "serialize demo_texts demo_value = Inr (ascii_bytes (json_text default_style (pt_float_repr demo_texts) t))"
    "readable demo_texts 10 demo_value"
    by (simp_all add: serialize_def readable_def)
  moreover have "obj_ok demo_value" by (simp add: demo_value_def)
  ultimately show ?thesis using codec_roundtrip [OF texts_ok_demo] by blast
qed

text \<open>A secret occurs in the value, as a value or as the key of a dictionary.\<close>

fun has_secret :: "('t, 'd) pyobj \<Rightarrow> bool" where
  "has_secret OSecret \<longleftrightarrow> True"
| "has_secret (ODict kvs) \<longleftrightarrow> (\<exists>(k, v) \<in> set kvs. k = KSecret \<or> has_secret v)"
| "has_secret (OList vs) \<longleftrightarrow> (\<exists>v \<in> set vs. has_secret v)"
| "has_secret (OTuple vs) \<longleftrightarrow> (\<exists>v \<in> set vs. has_secret v)"
| "has_secret (OSet vs) \<longleftrightarrow> (\<exists>v \<in> set vs. has_secret v)"
| "has_secret (OEnum v) \<longleftrightarrow> has_secret v"
| "has_secret _ \<longleftrightarrow> False"

lemma rmap_eq_InrD: "rmap f xs = Inr ys \<Longrightarrow> x \<in> set xs \<Longrightarrow> \<exists>y. f x = Inr y"
  by (induction xs arbitrary: ys) (auto simp: rbind_eq_Inr_iff)

lemma encode_no_secret: "encode_json_value P v = Inr t \<Longrightarrow> \<not> has_secret v"
proof (induction v arbitrary: t)
  case (ODict kvs)
  from ODict.prems obtain encoded where e: "encode_keys (map fst kvs) = Inr ()"
    "rmap (\<lambda>(k, v). rbind (encode_json_value P v) (\<lambda>t. Inr (key_text k, t))) kvs = Inr encoded"
    by (auto simp: rbind_eq_Inr_iff)
  have "k \<noteq> KSecret \<and> \<not> has_secret v" if "(k, v) \<in> set kvs" for k v
    using encode_keys_Inr [OF e(1)] rmap_eq_InrD [OF e(2) that] ODict.IH [OF that, of v] that
    by (force simp: rbind_eq_Inr_iff)
  then show ?case by auto
qed (auto simp: rbind_eq_Inr_iff dest!: rmap_eq_InrD)

text \<open>
  Secrets are never written: a value that contains a secret wrapper anywhere, also as a dictionary
  key, inside a set or as the value of an enum member, is not serialized.
\<close>

lemma secrets_never_serialized:
  assumes "has_secret v"
  shows "\<exists>e. serialize P v = Inl e"
  using assms encode_no_secret by (auto simp: serialize_def split: sum.splits)

end
