(* ===== verification/Snapshot_Store.thy ===== *)
theory Snapshot_Store
  imports Py_Json Held_Items "HOL-Library.List_Lexorder" "HOL-Library.Char_ord"
begin

text \<open>
  The snapshot repository \<open>queue/snapshot.py\<close>: a state is cut into chunks under the keys of a fresh
  generation, and a manifest written last, under the logical key, makes them the current snapshot.
  Reading checks everything it finds; maintenance deletes chunks no manifest refers to.

  The storage is a parameter: a record of its methods over a state type, any of which may raise, apply
  its effect before raising, or return a value of a wrong type. SHA-256 (as a hex digest) and the
  generation, \<open>uuid4().hex\<close>, are parameters too. The manifest is real JSON bytes (\<open>Py_Json\<close>). Failure
  messages are left out: a static failure is the exception \<open>SnapshotRepositoryError\<close>. \<open>ProcessSignal\<close> stands
  for the exceptions that are not \<open>Exception\<close>s, which no handler here stops.
\<close>

section \<open>Buffers and storage\<close>

text \<open>
  What a storage may return: a buffer with its bytes, whether it is contiguous and whether it is
  immutable; a buffer that cannot be viewed; or something else.
\<close>

datatype pybuf = PBuffer bytes bool bool | PBroken | PForeign

abbreviation PBytes :: "bytes \<Rightarrow> pybuf" where
  "PBytes bs \<equiv> PBuffer bs True True"

datatype buffer_error = BufInvalid | BufConversionFailed | BufOversized | BufNoncontiguous | BufMutable

definition copy_buffer :: "pybuf option \<Rightarrow> nat \<Rightarrow> buffer_error + bytes" where
  "copy_buffer value maximum =
     (case value of
        None \<Rightarrow> Inl BufInvalid
      | Some PForeign \<Rightarrow> Inl BufInvalid
      | Some PBroken \<Rightarrow> Inl BufConversionFailed
      | Some (PBuffer bs contiguous immutable) \<Rightarrow>
          if maximum < length bs then Inl BufOversized
          else if \<not> contiguous then Inl BufNoncontiguous
          else if \<not> immutable then Inl BufMutable
          else Inr bs)"

text \<open>
  A key listing: nothing iterable, or an iterator, whose \<open>next\<close> at each position yields an object
  (\<open>None\<close> for one that is not a string), stops, or raises.
\<close>

datatype listed = Yields "string option" | Stops | Raises exn

datatype listing = NotIterable | Iterator "nat \<Rightarrow> listed"

record 's snap_storage =
  ss_backend_type :: pyval
  ss_retrieve :: "string \<Rightarrow> 's \<Rightarrow> (pybuf option, 's) outcome"
  ss_store :: "string \<Rightarrow> bytes \<Rightarrow> 's \<Rightarrow> (unit, 's) outcome"
  ss_delete :: "string \<Rightarrow> 's \<Rightarrow> (pyval, 's) outcome"
  ss_list_keys :: "(string \<Rightarrow> nat \<Rightarrow> 's \<Rightarrow> (listing, 's) outcome) option"

text \<open>\<open>except Exception\<close>: what it stops becomes the static failure.\<close>

definition redact :: "exn \<Rightarrow> exn" where
  "redact e = (if ordinary e then SnapshotRepositoryError else e)"

section \<open>Limits and keys\<close>

definition max_snapshot_chunk_bytes :: nat where
  "max_snapshot_chunk_bytes = 256 * 1024"

definition max_snapshot_chunks :: nat where
  "max_snapshot_chunks = 4096"

definition max_gc_generations :: nat where
  "max_gc_generations = 16"

definition max_gc_deletions :: nat where
  "max_gc_deletions = max_snapshot_chunks * 2"

definition max_manifest_bytes :: nat where
  "max_manifest_bytes = 64 * 1024"

record repo =
  rp_max_bytes :: nat
  rp_chunk_bytes :: nat

definition min_chunk_bytes :: "nat \<Rightarrow> nat" where
  "min_chunk_bytes max_bytes = (max_bytes + max_snapshot_chunks - 1) div max_snapshot_chunks"

definition repo_init :: "pyval \<Rightarrow> pyval \<Rightarrow> repo result" where
  "repo_init max_bytes chunk_bytes =
     (case (max_bytes, chunk_bytes) of
        (PyInt m, PyInt c) \<Rightarrow>
          if m < 1 \<or> c < int (min_chunk_bytes (nat m)) \<or> m < c \<or> int max_snapshot_chunk_bytes < c then Inl ValueError
          else Inr \<lparr>rp_max_bytes = nat m, rp_chunk_bytes = nat c\<rparr>
      | _ \<Rightarrow> Inl ValueError)"

definition legacy_chunk_prefix :: string where
  "legacy_chunk_prefix = ''queue:snapshot-chunk:v1:''"

definition current_chunk_prefix :: string where
  "current_chunk_prefix = ''queue:snapshot-chunk:v2:''"

definition has_prefix :: "string \<Rightarrow> string \<Rightarrow> bool" where
  "has_prefix p s \<longleftrightarrow> take (length p) s = p"

definition logical_key_limit :: "pyval \<Rightarrow> nat option" where
  "logical_key_limit raw =
     (case raw of
        PyStr t \<Rightarrow> map_of [(''memcached'', 250), (''elasticsearch'', 512), (''dynamodb'', 2048)] t
      | _ \<Rightarrow> None)"

definition validate_logical_key :: "'s snap_storage \<Rightarrow> string \<Rightarrow> unit result" where
  "validate_logical_key S key =
     (case validate_key_name key None of
        Inl _ \<Rightarrow> Inl SnapshotRepositoryError
      | Inr _ \<Rightarrow>
          if has_prefix legacy_chunk_prefix key \<or> has_prefix current_chunk_prefix key then Inl SnapshotRepositoryError
          else case logical_key_limit (ss_backend_type S) of
            Some limit \<Rightarrow> if limit < length (utf8_encode key) then Inl SnapshotRepositoryError else Inr ()
          | None \<Rightarrow> Inr ())"

definition legacy_chunk_key :: "(bytes \<Rightarrow> string) \<Rightarrow> string \<Rightarrow> string \<Rightarrow> nat \<Rightarrow> string" where
  "legacy_chunk_key sha key generation index =
     legacy_chunk_prefix @ sha (ascii_bytes (json_text (compact_style False) (\<lambda>_. [])
       (JArr [JStr (codes key), JStr (codes generation), JInt (int index)])))"

definition logical_key_digest :: "(bytes \<Rightarrow> string) \<Rightarrow> string \<Rightarrow> string" where
  "logical_key_digest sha key = sha (utf8_encode key)"

definition chunk_key :: "(bytes \<Rightarrow> string) \<Rightarrow> string \<Rightarrow> string \<Rightarrow> nat \<Rightarrow> string" where
  "chunk_key sha key generation index =
     current_chunk_prefix @ logical_key_digest sha key @ '':'' @ generation @ '':'' @ str_of_nat index"

definition v4_chunk_key :: "string \<Rightarrow> string \<Rightarrow> nat \<Rightarrow> string" where
  "v4_chunk_key key generation index =
     key @ '':generation:'' @ generation @ '':chunk:'' @ str_of_nat index"

section \<open>The storage calls\<close>

text \<open>\<open>_retrieve\<close>: an ordinary exception is only a status.\<close>

definition retrieve :: "'s snap_storage \<Rightarrow> string \<Rightarrow> 's \<Rightarrow> (pybuf option, 's) outcome" where
  "retrieve S key s =
     (case ss_retrieve S key s of (Inl e, s') \<Rightarrow> (Inl (redact e), s') | (Inr v, s') \<Rightarrow> (Inr v, s'))"

text \<open>\<open>_store\<close>: after an exception one exact read-back may show that the write was applied.\<close>

definition store_verified :: "'s snap_storage \<Rightarrow> string \<Rightarrow> bytes \<Rightarrow> 's \<Rightarrow> (unit, 's) outcome" where
  "store_verified S key value s =
     (case ss_store S key value s of
        (Inr _, s') \<Rightarrow> (Inr (), s')
      | (Inl e, s') \<Rightarrow>
          if \<not> ordinary e then (Inl e, s')
          else case retrieve S key s' of
            (Inl e', s'') \<Rightarrow> (Inl e', s'')
          | (Inr observed, s'') \<Rightarrow>
              (if copy_buffer observed (length value) = Inr value then Inr () else Inl SnapshotRepositoryError, s''))"

section \<open>The manifest\<close>

record manifest =
  mf_version :: int
  mf_generation :: string
  mf_length :: nat
  mf_chunk_bytes :: nat
  mf_chunks :: nat
  mf_checksum :: string
  mf_state_present :: bool

definition manifest_schema :: string where
  "manifest_schema = ''scrapy-extension.queue-strategy-snapshot''"

definition manifest_json :: "manifest \<Rightarrow> json" where
  "manifest_json m =
     JObj [(codes ''schema'', JStr (codes manifest_schema)), (codes ''version'', JInt 7),
           (codes ''generation'', JStr (codes (mf_generation m))), (codes ''length'', JInt (int (mf_length m))),
           (codes ''chunk_bytes'', JInt (int (mf_chunk_bytes m))), (codes ''chunks'', JInt (int (mf_chunks m))),
           (codes ''sha256'', JStr (codes (mf_checksum m))),
           (codes ''state'', JStr (codes (if mf_state_present m then ''bytes'' else ''none'')))]"

definition encode_manifest :: "manifest \<Rightarrow> bytes" where
  "encode_manifest m = ascii_bytes (json_text (compact_style True) (\<lambda>_. []) (manifest_json m))"

text \<open>The values plain \<open>json.loads\<close> builds; of a repeated key the last value counts.\<close>

datatype jval = VNull | VBool bool | VInt int | VFloat pyfloat | VStr codes | VList "jval list" | VDict "(codes \<times> jval) list"

definition plain_hooks :: "jval json_hooks" where
  "plain_hooks =
     \<lparr>jh_null = VNull, jh_bool = VBool, jh_int = VInt, jh_str = VStr, jh_list = VList,
      jh_float = (\<lambda>t. rbind (float_of_string (map char_of t)) (\<lambda>x. Inr (VFloat x))),
      jh_constant = (\<lambda>t. Inr (VFloat (if t = codes ''NaN'' then NaN else if t = codes ''Infinity'' then PInf else NInf))),
      jh_pairs = (\<lambda>kvs. Inr (VDict kvs))\<rparr>"

definition vget :: "(codes \<times> jval) list \<Rightarrow> string \<Rightarrow> jval option" where
  "vget kvs k = map_of (rev kvs) (codes k)"

text \<open>
  \<open>_has_current_manifest_marker\<close>, on bytes as numbers. \<open>raw_token\<close> reads up to the closing quote of a string,
  which it leaves in the rest.
\<close>

fun raw_token :: "nat list \<Rightarrow> nat list \<times> nat list" where
  "raw_token [] = ([], [])"
| "raw_token [c] = (if c = 34 then ([], [c]) else ([c], []))"
| "raw_token (c # d # r) =
     (if c = 34 then ([], c # d # r)
      else if c = 92 then (case raw_token r of (t, q) \<Rightarrow> (c # d # t, q))
      else (case raw_token (d # r) of (t, q) \<Rightarrow> (c # t, q)))"

lemma raw_token_length: "raw_token cs = (t, q) \<Longrightarrow> length q \<le> length cs"
  by (induction cs arbitrary: t q rule: raw_token.induct) (auto split: if_splits prod.splits)

definition lstrip :: "nat list \<Rightarrow> nat list" where
  "lstrip = dropWhile (\<lambda>c. c = 32 \<or> 9 \<le> c \<and> c \<le> 13)"

definition begins :: "nat list \<Rightarrow> nat list \<Rightarrow> bool" where
  "begins p s \<longleftrightarrow> take (length p) s = p"

text \<open>After a top-level key \<open>schema\<close>: the verdict, if there is one, and where scanning goes on.\<close>

definition schema_value :: "nat list \<Rightarrow> bool \<times> nat list" where
  "schema_value cs =
     (let r = skip_ws cs in
      if take 1 r = [58] then
        (let v = skip_ws (tl r) in
         (v = []
          \<or> take 1 v = [34] \<and> begins (takeWhile (\<lambda>c. c \<noteq> 34) (tl v)) (codes manifest_schema)
          \<or> take 1 v \<noteq> [34] \<and> begins (codes manifest_schema) v, v))
      else (False, r))"

lemma schema_value_length: "schema_value cs = (b, v) \<Longrightarrow> length v \<le> length cs"
  using length_skip_ws [of cs] length_skip_ws [of "tl (skip_ws cs)"] by (auto simp: schema_value_def Let_def split: if_splits)

function scan_marker :: "nat \<Rightarrow> nat list \<Rightarrow> bool" where
  "scan_marker depth [] = False"
| "scan_marker depth (c # cs) =
     (if depth = 0 then False
      else if c = 34 then
        (case raw_token cs of (token, q) \<Rightarrow>
           (if depth = 1 \<and> token = codes ''schema'' then
              (case schema_value (tl q) of (found, r) \<Rightarrow> found \<or> scan_marker depth r)
            else scan_marker depth (tl q)))
      else scan_marker (if c = 123 then depth + 1 else if c = 125 then depth - 1 else depth) cs)"
  by pat_completeness auto
termination
  by (relation "measure (\<lambda>(d, cs). length cs)")
    (auto dest!: raw_token_length [OF sym] schema_value_length [OF sym])

definition has_current_manifest_marker :: "bytes \<Rightarrow> bool" where
  "has_current_manifest_marker value =
     (let stripped = lstrip (map unat value); first_key = lstrip (tl stripped); q = 34 # codes ''chunk_bytes'' @ [34] in
      take 1 stripped = [123] \<and> (begins first_key q \<or> begins q first_key \<or> scan_marker 1 (tl stripped)))"

definition lower_hex :: "nat \<Rightarrow> bool" where
  "lower_hex c \<longleftrightarrow> is_digit_code c \<or> 97 \<le> c \<and> c \<le> 102"

definition hex_text :: "nat \<Rightarrow> codes \<Rightarrow> bool" where
  "hex_text n cs \<longleftrightarrow> length cs = n \<and> list_all lower_hex cs"

text \<open>The fields of a decoded manifest object; \<open>None\<close> when the schema is invalid.\<close>

definition manifest_keys :: "int \<Rightarrow> string set" where
  "manifest_keys version =
     {''schema'', ''version'', ''generation'', ''length'', ''chunk_bytes'', ''chunks'', ''sha256''}
     \<union> (if version \<in> {6, 7} then {''state''} else {})"

definition manifest_of :: "(codes \<times> jval) list \<Rightarrow> manifest option" where
  "manifest_of d =
     (case (vget d ''version'', vget d ''generation'', vget d ''length'', vget d ''chunk_bytes'', vget d ''chunks'', vget d ''sha256'') of
        (Some (VInt version), Some (VStr generation), Some (VInt len), Some (VInt chunk_bytes), Some (VInt chunks), Some (VStr checksum)) \<Rightarrow>
          if version \<in> {4, 5, 6, 7} \<and> fst ` set d = codes ` manifest_keys version
             \<and> hex_text 32 generation \<and> 0 \<le> len \<and> 1 \<le> chunk_bytes \<and> 0 \<le> chunks \<and> hex_text 64 checksum
             \<and> chunks = (len + chunk_bytes - 1) div chunk_bytes
             \<and> (version \<in> {6, 7} \<longrightarrow> vget d ''state'' = Some (VStr (codes ''none'')) \<or> vget d ''state'' = Some (VStr (codes ''bytes'')))
             \<and> (version \<in> {6, 7} \<and> vget d ''state'' = Some (VStr (codes ''none'')) \<longrightarrow> len = 0)
          then Some \<lparr>mf_version = version, mf_generation = map char_of generation, mf_length = nat len,
                     mf_chunk_bytes = nat chunk_bytes, mf_chunks = nat chunks, mf_checksum = map char_of checksum,
                     mf_state_present = (if version \<in> {6, 7} then vget d ''state'' = Some (VStr (codes ''bytes'')) else 0 < len)\<rparr>
          else None
      | _ \<Rightarrow> None)"

text \<open>
  \<open>_decode_manifest\<close>: no manifest (a legacy raw payload), a manifest, or a failure. \<open>depth\<close> is what the
  recursion limit allows the JSON reader.
\<close>

definition decode_manifest :: "nat \<Rightarrow> bytes \<Rightarrow> manifest option result" where
  "decode_manifest depth value =
     (if max_manifest_bytes < length value then Inr None
      else case loads_bytes plain_hooks depth value of
        Inl e \<Rightarrow>
          if (e = UnicodeDecodeError \<or> e = JSONDecodeError) \<and> \<not> has_current_manifest_marker value then Inr None
          else Inl SnapshotRepositoryError
      | Inr (VDict d) \<Rightarrow>
          if vget d ''schema'' \<noteq> Some (VStr (codes manifest_schema)) then Inr None
          else (case manifest_of d of None \<Rightarrow> Inl SnapshotRepositoryError | Some m \<Rightarrow> Inr (Some m))
      | Inr _ \<Rightarrow> Inr None)"

section \<open>Reading\<close>

record snapshot_read =
  sr_found :: bool
  sr_state :: "bytes option"
  sr_manifest :: bool
  sr_generation :: "string option"

definition manifest_chunk_key :: "(bytes \<Rightarrow> string) \<Rightarrow> string \<Rightarrow> manifest \<Rightarrow> nat \<Rightarrow> string" where
  "manifest_chunk_key sha key m index =
     (if mf_version m = 4 then v4_chunk_key key (mf_generation m) index
      else if mf_version m \<in> {5, 6} then legacy_chunk_key sha key (mf_generation m) index
      else chunk_key sha key (mf_generation m) index)"

fun read_chunks ::
  "'s snap_storage \<Rightarrow> (bytes \<Rightarrow> string) \<Rightarrow> string \<Rightarrow> manifest \<Rightarrow> nat list \<Rightarrow> 's \<Rightarrow> (bytes, 's) outcome" where
  "read_chunks S sha key m [] s = (Inr [], s)"
| "read_chunks S sha key m (index # is) s =
     (case retrieve S (manifest_chunk_key sha key m index) s of
        (Inl e, s') \<Rightarrow> (Inl e, s')
      | (Inr chunk, s') \<Rightarrow>
          let expected = min (mf_chunk_bytes m) (mf_length m - index * mf_chunk_bytes m) in
          case copy_buffer chunk expected of
            Inl _ \<Rightarrow> (Inl SnapshotRepositoryError, s')
          | Inr copied \<Rightarrow>
              if length copied \<noteq> expected then (Inl SnapshotRepositoryError, s')
              else case read_chunks S sha key m is s' of
                (Inl e, s'') \<Rightarrow> (Inl e, s'')
              | (Inr rest, s'') \<Rightarrow> (Inr (copied @ rest), s''))"

definition read_terminal ::
  "'s snap_storage \<Rightarrow> repo \<Rightarrow> (bytes \<Rightarrow> string) \<Rightarrow> nat \<Rightarrow> string \<Rightarrow> 's \<Rightarrow> (snapshot_read, 's) outcome" where
  "read_terminal S R sha depth key s =
     (case retrieve S key s of
        (Inl e, s1) \<Rightarrow> (Inl e, s1)
      | (Inr None, s1) \<Rightarrow> (Inr \<lparr>sr_found = False, sr_state = None, sr_manifest = False, sr_generation = None\<rparr>, s1)
      | (Inr value, s1) \<Rightarrow>
          (case copy_buffer value (max (rp_max_bytes R) max_manifest_bytes) of
             Inl _ \<Rightarrow> (Inl SnapshotRepositoryError, s1)
           | Inr raw \<Rightarrow>
               (case decode_manifest depth raw of
                  Inl e \<Rightarrow> (Inl e, s1)
                | Inr None \<Rightarrow>
                    (if rp_max_bytes R < length raw then Inl SnapshotRepositoryError
                     else Inr \<lparr>sr_found = True, sr_state = Some raw, sr_manifest = False, sr_generation = None\<rparr>, s1)
                | Inr (Some m) \<Rightarrow>
                    if rp_max_bytes R < mf_length m \<or> rp_chunk_bytes R < mf_chunk_bytes m
                       \<or> mf_chunk_bytes m < min_chunk_bytes (rp_max_bytes R) \<or> max_snapshot_chunks < mf_chunks m
                    then (Inl SnapshotRepositoryError, s1)
                    else if mf_length m = 0 then
                      (if mf_checksum m \<noteq> sha [] then Inl SnapshotRepositoryError
                       else Inr \<lparr>sr_found = True, sr_state = (if mf_state_present m then Some [] else None),
                                 sr_manifest = True, sr_generation = Some (mf_generation m)\<rparr>, s1)
                    else
                      (case read_chunks S sha key m [0..<mf_chunks m] s1 of
                         (Inl e, s2) \<Rightarrow> (Inl e, s2)
                       | (Inr state, s2) \<Rightarrow>
                           (if length state \<noteq> mf_length m \<or> sha state \<noteq> mf_checksum m then Inl SnapshotRepositoryError
                            else Inr \<lparr>sr_found = True, sr_state = Some state, sr_manifest = True,
                                      sr_generation = Some (mf_generation m)\<rparr>, s2)))))"

definition repo_read ::
  "'s snap_storage \<Rightarrow> repo \<Rightarrow> (bytes \<Rightarrow> string) \<Rightarrow> nat \<Rightarrow> string \<Rightarrow> 's \<Rightarrow> (snapshot_read, 's) outcome" where
  "repo_read S R sha depth key s =
     (case validate_logical_key S key of Inl e \<Rightarrow> (Inl e, s) | Inr _ \<Rightarrow> read_terminal S R sha depth key s)"

section \<open>Committing\<close>

text \<open>The argument of \<open>commit\<close>: no state, bytes, or an object of another type.\<close>

datatype snap_state = NoState | StateBytes bytes | StateForeign

fun write_chunks ::
  "'s snap_storage \<Rightarrow> (bytes \<Rightarrow> string) \<Rightarrow> string \<Rightarrow> string \<Rightarrow> nat \<Rightarrow> bytes \<Rightarrow> nat list \<Rightarrow> 's \<Rightarrow> (unit, 's) outcome" where
  "write_chunks S sha key generation chunk_bytes payload [] s = (Inr (), s)"
| "write_chunks S sha key generation chunk_bytes payload (index # is) s =
     (case store_verified S (chunk_key sha key generation index) (take chunk_bytes (drop (index * chunk_bytes) payload)) s of
        (Inl e, s') \<Rightarrow> (Inl e, s')
      | (Inr _, s') \<Rightarrow> write_chunks S sha key generation chunk_bytes payload is s')"

definition new_manifest :: "repo \<Rightarrow> (bytes \<Rightarrow> string) \<Rightarrow> string \<Rightarrow> bytes \<Rightarrow> bool \<Rightarrow> manifest" where
  "new_manifest R sha generation payload state_present =
     \<lparr>mf_version = 7, mf_generation = generation, mf_length = length payload, mf_chunk_bytes = rp_chunk_bytes R,
      mf_chunks = (length payload + rp_chunk_bytes R - 1) div rp_chunk_bytes R, mf_checksum = sha payload,
      mf_state_present = state_present\<rparr>"

definition commit_payload ::
  "'s snap_storage \<Rightarrow> repo \<Rightarrow> (bytes \<Rightarrow> string) \<Rightarrow> string \<Rightarrow> string \<Rightarrow> bytes \<Rightarrow> bool \<Rightarrow> 's \<Rightarrow> (unit, 's) outcome" where
  "commit_payload S R sha generation key payload state_present s =
     (let m = new_manifest R sha generation payload state_present in
      case write_chunks S sha key generation (rp_chunk_bytes R) payload [0..<mf_chunks m] s of
        (Inl e, s') \<Rightarrow> (Inl e, s')
      | (Inr _, s') \<Rightarrow> store_verified S key (encode_manifest m) s')"

definition commit_terminal ::
  "'s snap_storage \<Rightarrow> repo \<Rightarrow> (bytes \<Rightarrow> string) \<Rightarrow> string \<Rightarrow> string \<Rightarrow> snap_state \<Rightarrow> 's \<Rightarrow> (unit, 's) outcome" where
  "commit_terminal S R sha generation key state s =
     (case state of
        NoState \<Rightarrow> commit_payload S R sha generation key [] False s
      | StateForeign \<Rightarrow> (Inl SnapshotRepositoryError, s)
      | StateBytes bs \<Rightarrow>
          (case copy_buffer (Some (PBytes bs)) (rp_max_bytes R) of
             Inl _ \<Rightarrow> (Inl SnapshotRepositoryError, s)
           | Inr payload \<Rightarrow> commit_payload S R sha generation key payload True s))"

definition repo_commit ::
  "'s snap_storage \<Rightarrow> repo \<Rightarrow> (bytes \<Rightarrow> string) \<Rightarrow> string \<Rightarrow> string \<Rightarrow> snap_state \<Rightarrow> 's \<Rightarrow> (unit, 's) outcome" where
  "repo_commit S R sha generation key state s =
     (case validate_logical_key S key of
        Inl e \<Rightarrow> (Inl e, s) | Inr _ \<Rightarrow> commit_terminal S R sha generation key state s)"

section \<open>Maintenance\<close>

definition parse_current_chunk_key :: "string \<Rightarrow> string \<Rightarrow> (string \<times> nat) option" where
  "parse_current_chunk_key key pre =
     (if \<not> has_prefix pre key then None
      else
        (let suffix = drop (length pre) key;
             generation = takeWhile (\<lambda>c. c \<noteq> CHR '':'') suffix;
             raw_index = drop (Suc (length generation)) suffix in
         if length (filter (\<lambda>c. c = CHR '':'') suffix) \<noteq> 1 \<or> \<not> hex_text 32 (codes generation)
            \<or> raw_index = [] \<or> \<not> list_all is_digit raw_index then None
         else
           (let index = digits_to_nat raw_index in
            if max_snapshot_chunks \<le> index \<or> raw_index \<noteq> str_of_nat index then None else Some (generation, index))))"

text \<open>Pull the iterator at most one element past the limit.\<close>

fun pull_listing :: "(nat \<Rightarrow> listed) \<Rightarrow> nat \<Rightarrow> nat \<Rightarrow> string option list result" where
  "pull_listing it position 0 =
     (case it position of Stops \<Rightarrow> Inr [] | Raises e \<Rightarrow> Inl (redact e) | Yields _ \<Rightarrow> Inl SnapshotRepositoryError)"
| "pull_listing it position (Suc left) =
     (case it position of
        Stops \<Rightarrow> Inr []
      | Raises e \<Rightarrow> Inl (redact e)
      | Yields candidate \<Rightarrow> rbind (pull_listing it (Suc position) left) (\<lambda>cs. Inr (candidate # cs)))"

definition bounded_storage_listing ::
  "(string \<Rightarrow> nat \<Rightarrow> 's \<Rightarrow> (listing, 's) outcome) \<Rightarrow> string \<Rightarrow> 's \<Rightarrow> (string option list, 's) outcome" where
  "bounded_storage_listing list_keys pre s =
     (case list_keys pre max_gc_deletions s of
        (Inl e, s') \<Rightarrow> (Inl (redact e), s')
      | (Inr NotIterable, s') \<Rightarrow> (Inl SnapshotRepositoryError, s')
      | (Inr (Iterator it), s') \<Rightarrow> (pull_listing it 0 max_gc_deletions, s'))"

definition delete_and_confirm :: "'s snap_storage \<Rightarrow> string \<Rightarrow> 's \<Rightarrow> (bool, 's) outcome" where
  "delete_and_confirm S key s =
     (case ss_delete S key s of (result, s1) \<Rightarrow>
        if (\<exists>e. result = Inl e \<and> \<not> ordinary e) then (Inl ProcessSignal, s1)
        else case retrieve S key s1 of
          (Inl e, s2) \<Rightarrow> (Inl e, s2)
        | (Inr (Some _), s2) \<Rightarrow> (Inl SnapshotRepositoryError, s2)
        | (Inr None, s2) \<Rightarrow> (Inr (result \<noteq> Inr (PyBool False)), s2))"

text \<open>The deletions in order; the count travels along, also beside an exception, which carries it.\<close>

fun gc_delete :: "'s snap_storage \<Rightarrow> nat \<Rightarrow> string list \<Rightarrow> nat \<Rightarrow> 's \<Rightarrow> unit result \<times> nat \<times> 's" where
  "gc_delete S max_deletions [] deleted s = (Inr (), deleted, s)"
| "gc_delete S max_deletions (candidate # cs) deleted s =
     (if max_deletions \<le> deleted then (Inr (), deleted, s)
      else case delete_and_confirm S candidate s of
        (Inl e, s') \<Rightarrow> (Inl e, deleted, s')
      | (Inr confirmed, s') \<Rightarrow> gc_delete S max_deletions cs (if confirmed then Suc deleted else deleted) s')"

definition gc_candidates :: "(bytes \<Rightarrow> string) \<Rightarrow> string \<Rightarrow> string \<Rightarrow> string option list \<Rightarrow> (string \<times> string) list" where
  "gc_candidates sha key current observed =
     (let pre = current_chunk_prefix @ logical_key_digest sha key @ '':'' in
      rev (remdups (rev (concat (map (\<lambda>c. case c of
        None \<Rightarrow> []
      | Some candidate \<Rightarrow>
          (case parse_current_chunk_key candidate pre of
             None \<Rightarrow> []
           | Some (generation, index) \<Rightarrow>
               if candidate \<noteq> chunk_key sha key generation index \<or> generation = current then []
               else [(candidate, generation)])) observed)))))"

definition gc_order :: "nat \<Rightarrow> (string \<times> string) list \<Rightarrow> string list" where
  "gc_order max_generations parsed =
     concat (map (\<lambda>g. map fst (filter (\<lambda>(c, g'). g' = g) parsed))
       (take max_generations (sort (remdups (map snd parsed)))))"

definition gc_limits :: "pyval \<Rightarrow> pyval \<Rightarrow> pyval \<Rightarrow> (nat \<times> nat) result" where
  "gc_limits quiescent max_generations max_deletions =
     (if quiescent \<noteq> PyBool True then Inl ValueError
      else case (max_generations, max_deletions) of
        (PyInt g, PyInt d) \<Rightarrow>
          if g < 1 \<or> d < 1 then Inl ValueError
          else if int max_gc_generations < g \<or> int max_gc_deletions < d then Inl SnapshotRepositoryError
          else Inr (nat g, nat d)
      | _ \<Rightarrow> Inl ValueError)"

definition repo_gc ::
  "'s snap_storage \<Rightarrow> repo \<Rightarrow> (bytes \<Rightarrow> string) \<Rightarrow> nat \<Rightarrow> string \<Rightarrow> pyval \<Rightarrow> pyval \<Rightarrow> pyval \<Rightarrow> 's
    \<Rightarrow> unit result \<times> nat \<times> 's" where
  "repo_gc S R sha depth key quiescent max_generations max_deletions s =
     (case rbind (validate_logical_key S key) (\<lambda>_. gc_limits quiescent max_generations max_deletions) of
        Inl e \<Rightarrow> (Inl e, 0, s)
      | Inr (gens, dels) \<Rightarrow>
          (case read_terminal S R sha depth key s of
             (Inl e, s1) \<Rightarrow> (Inl e, 0, s1)
           | (Inr current, s1) \<Rightarrow>
               (case (sr_found current, sr_generation current) of
                  (True, Some generation) \<Rightarrow>
                    (case ss_list_keys S of
                       None \<Rightarrow> (Inl SnapshotRepositoryError, 0, s1)
                     | Some list_keys \<Rightarrow>
                         (case bounded_storage_listing list_keys (current_chunk_prefix @ logical_key_digest sha key @ '':'') s1 of
                            (Inl e, s2) \<Rightarrow> (Inl e, 0, s2)
                          | (Inr observed, s2) \<Rightarrow>
                              gc_delete S dels (gc_order gens (gc_candidates sha key generation observed)) 0 s2))
                | _ \<Rightarrow> (Inr (), 0, s1))))"

end
