(* ===== verification/Snapshot_Safety.thy ===== *)
theory Snapshot_Safety
  imports Snapshot_Store
begin

text \<open>
  What the snapshot repository guarantees over a storage that may fail at any call, with or without
  applying it: a commit is atomic, what was committed is what is read, and maintenance changes no
  snapshot.

  \<open>lawful_storage\<close> says of a storage, through the key-value map \<open>content\<close> of its state, what the \<open>StorageBackend\<close>
  interface documents: a retrieval that answers returns what is stored and changes nothing; a store or a
  delete changes at most the key it is given and has taken effect when it returns. \<open>snap_view\<close> is what a read
  returns when every retrieval answers.
\<close>

section \<open>Storages\<close>

definition lawful_storage :: "'s snap_storage \<Rightarrow> ('s \<Rightarrow> string \<Rightarrow> bytes option) \<Rightarrow> bool" where
  "lawful_storage S content \<longleftrightarrow>
     (\<forall>k s r s'. ss_retrieve S k s = (r, s') \<longrightarrow>
        content s' = content s \<and> (\<forall>v. r = Inr v \<longrightarrow> v = map_option PBytes (content s k)))
     \<and> (\<forall>k v s r s'. ss_store S k v s = (r, s') \<longrightarrow>
        content s' = (content s)(k \<mapsto> v) \<or> content s' = content s \<and> r \<noteq> Inr ())
     \<and> (\<forall>k s r s'. ss_delete S k s = (r, s') \<longrightarrow> content s' = (content s)(k := None) \<or> content s' = content s)
     \<and> (\<forall>l p n s r s'. ss_list_keys S = Some l \<longrightarrow> l p n s = (r, s') \<longrightarrow> content s' = content s)"

text \<open>The storage that is the map itself and never fails.\<close>

definition mem_storage :: "(string \<Rightarrow> bytes option) snap_storage" where
  "mem_storage =
     \<lparr>ss_backend_type = PyNone,
      ss_retrieve = (\<lambda>k c. (Inr (map_option PBytes (c k)), c)),
      ss_store = (\<lambda>k v c. (Inr (), c(k \<mapsto> v))),
      ss_delete = (\<lambda>k c. (Inr (PyBool (c k \<noteq> None)), c(k := None))),
      ss_list_keys = None\<rparr>"

definition snap_view ::
  "repo \<Rightarrow> (bytes \<Rightarrow> string) \<Rightarrow> nat \<Rightarrow> string \<Rightarrow> (string \<Rightarrow> bytes option) \<Rightarrow> snapshot_read result" where
  "snap_view R sha depth key c = fst (read_terminal mem_storage R sha depth key c)"

lemma mem_retrieve [simp]: "retrieve mem_storage k c = (Inr (map_option PBytes (c k)), c)"
  by (simp add: retrieve_def mem_storage_def)

lemma copy_bytes [simp]:
  "copy_buffer (Some (PBytes bs)) n = (if n < length bs then Inl BufOversized else Inr bs)"
  "copy_buffer None n = Inl BufInvalid"
  by (simp_all add: copy_buffer_def)

lemma lawful_retrieve:
  assumes "lawful_storage S content" "retrieve S k s = (r, s')"
  shows "content s' = content s \<and> (\<forall>v. r = Inr v \<longrightarrow> v = map_option PBytes (content s k))"
  using assms by (auto simp: lawful_storage_def retrieve_def split: prod.splits sum.splits)

lemma lawful_store:
  assumes "lawful_storage S content" "store_verified S k v s = (r, s')"
  shows "content s' = (content s)(k \<mapsto> v) \<or> content s' = content s \<and> r \<noteq> Inr ()"
proof -
  obtain r1 s1 where st: "ss_store S k v s = (r1, s1)" by (cases "ss_store S k v s")
  with assms(1) have c1: "content s1 = (content s)(k \<mapsto> v) \<or> content s1 = content s \<and> r1 \<noteq> Inr ()"
    by (simp add: lawful_storage_def)
  show ?thesis
  proof (cases "\<exists>e. r1 = Inl e \<and> ordinary e")
    case False
    with assms(2) st c1 show ?thesis by (auto simp: store_verified_def split: sum.splits if_splits)
  next
    case True
    then obtain e where e: "r1 = Inl e" "ordinary e" by blast
    obtain r2 s2 where rt: "retrieve S k s1 = (r2, s2)" by (cases "retrieve S k s1")
    note lr = lawful_retrieve [OF assms(1) rt]
    show ?thesis
    proof (cases "\<exists>bs. r2 = Inr (Some (PBytes bs)) \<and> bs = v")
      case True
      with lr have "content s1 k = Some v" by (cases "content s1 k") auto
      with c1 lr assms(2) st e rt show ?thesis by (auto simp: store_verified_def fun_upd_idem split: sum.splits)
    next
      case False
      then have "r \<noteq> Inr ()"
        using assms(2) st e rt lr
        by (cases r2; cases "content s1 k") (auto simp: store_verified_def copy_buffer_def split: if_splits)
      with c1 lr assms(2) st e rt show ?thesis by (auto simp: store_verified_def split: sum.splits)
    qed
  qed
qed

section \<open>What a read depends on\<close>

lemma read_chunks_mem_state: "snd (read_chunks mem_storage sha key m is c) = c"
  by (induction "is") (auto simp: Let_def split: sum.splits prod.splits)

lemma read_chunks_lawful:
  assumes "lawful_storage S content" "read_chunks S sha key m is s = (r, s')"
  shows "content s' = content s \<and> (\<forall>bs. r = Inr bs \<longrightarrow> fst (read_chunks mem_storage sha key m is (content s)) = Inr bs)"
  using assms(2)
proof (induction "is" arbitrary: s s' r)
  case (Cons i "is")
  obtain r1 s1 where rt: "retrieve S (manifest_chunk_key sha key m i) s = (r1, s1)" by fastforce
  note lr = lawful_retrieve [OF assms(1) rt]
  obtain r2 s2 where rc: "read_chunks S sha key m is s1 = (r2, s2)" by fastforce
  obtain r3 c3 where mc: "read_chunks mem_storage sha key m is (content s) = (r3, c3)" by fastforce
  note ih = Cons.IH [OF rc]
  show ?case
    using Cons.prems lr ih rt rc mc
    by (auto simp: Let_def split: sum.splits if_splits)
qed simp

text \<open>A read that returns gives the view, and no read changes the content.\<close>

lemma read_terminal_lawful:
  assumes "lawful_storage S content" "read_terminal S R sha depth key s = (r, s')"
  shows "content s' = content s \<and> (\<forall>x. r = Inr x \<longrightarrow> snap_view R sha depth key (content s) = Inr x)"
proof -
  obtain r1 s1 where rt: "retrieve S key s = (r1, s1)" by fastforce
  note lr = lawful_retrieve [OF assms(1) rt]
  show ?thesis
  proof (cases "\<exists>raw m. r1 = Inr (Some (PBytes raw)) \<and> decode_manifest depth raw = Inr (Some m)")
    case True
    then obtain raw m where raw: "r1 = Inr (Some (PBytes raw))" "decode_manifest depth raw = Inr (Some m)" by blast
    with lr have c: "content s key = Some raw" "content s1 = content s" by (auto simp: map_option_case split: option.splits)
    obtain r2 s2 where rc: "read_chunks S sha key m [0..<mf_chunks m] s1 = (r2, s2)" by fastforce
    obtain r3 c3 where mc: "read_chunks mem_storage sha key m [0..<mf_chunks m] (content s) = (r3, c3)" by fastforce
    note ch = read_chunks_lawful [OF assms(1) rc]
    show ?thesis
      using assms(2) rt raw c rc mc ch
      by (auto simp: read_terminal_def snap_view_def split: sum.splits if_splits)
  next
    case False
    with assms(2) rt lr show ?thesis
      by (auto simp: read_terminal_def snap_view_def map_option_case copy_buffer_def
          split: sum.splits option.splits if_splits)
  qed
qed

text \<open>A read depends on the logical key and on the chunks its manifest names.\<close>

lemma read_chunks_cong:
  "(\<And>i. i \<in> set is \<Longrightarrow> c (manifest_chunk_key sha key m i) = c' (manifest_chunk_key sha key m i)) \<Longrightarrow>
    fst (read_chunks mem_storage sha key m is c) = fst (read_chunks mem_storage sha key m is c')"
proof (induction "is")
  case (Cons i "is")
  obtain r1 c1 where 1: "read_chunks mem_storage sha key m is c = (r1, c1)" by fastforce
  obtain r2 c2 where 2: "read_chunks mem_storage sha key m is c' = (r2, c2)" by fastforce
  from Cons 1 2 show ?case by (auto simp: Let_def split: sum.splits)
qed simp

lemma snap_view_cong:
  assumes "c key = c' key"
    and "\<And>raw m i. c key = Some raw \<Longrightarrow> decode_manifest depth raw = Inr (Some m) \<Longrightarrow>
      c (manifest_chunk_key sha key m i) = c' (manifest_chunk_key sha key m i)"
  shows "snap_view R sha depth key c = snap_view R sha depth key c'"
proof (cases "\<exists>raw m. c key = Some raw \<and> decode_manifest depth raw = Inr (Some m)")
  case True
  then obtain raw m where raw: "c key = Some raw" "decode_manifest depth raw = Inr (Some m)" by blast
  have "fst (read_chunks mem_storage sha key m [0..<mf_chunks m] c) = fst (read_chunks mem_storage sha key m [0..<mf_chunks m] c')"
    using assms(2) [OF raw] by (rule read_chunks_cong)
  moreover obtain r1 c1 where "read_chunks mem_storage sha key m [0..<mf_chunks m] c = (r1, c1)" by fastforce
  moreover obtain r2 c2 where "read_chunks mem_storage sha key m [0..<mf_chunks m] c' = (r2, c2)" by fastforce
  ultimately show ?thesis
    using raw assms(1) [symmetric] by (auto simp: snap_view_def read_terminal_def split: sum.splits)
next
  case False
  then show ?thesis
    using assms(1) [symmetric] by (auto simp: snap_view_def read_terminal_def split: option.splits sum.splits)
qed

section \<open>Keys\<close>

text \<open>SHA-256 as a hex digest: 64 lower-case hex digits.\<close>

definition sha_ok :: "(bytes \<Rightarrow> string) \<Rightarrow> bool" where
  "sha_ok sha \<longleftrightarrow> (\<forall>bs. hex_text 64 (codes (sha bs)))"

lemma sha_ok_length: "sha_ok sha \<Longrightarrow> length (sha bs) = 64"
  by (auto simp: sha_ok_def hex_text_def)

lemma chunk_key_inj:
  assumes "sha_ok sha" "length g = 32" "length g' = 32" "chunk_key sha key g i = chunk_key sha key' g' i'"
  shows "sha (utf8_encode key) = sha (utf8_encode key') \<and> g = g' \<and> i = i'"
proof -
  let ?d = "sha (utf8_encode key)" and ?d' = "sha (utf8_encode key')"
  have len: "length ?d = length ?d'" using assms(1) by (simp add: sha_ok_length)
  have eq: "?d @ CHR '':'' # g @ CHR '':'' # str_of_nat i = ?d' @ CHR '':'' # g' @ CHR '':'' # str_of_nat i'"
    using assms(4) by (simp add: chunk_key_def logical_key_digest_def)
  with len have "?d = ?d'" and rest: "g @ CHR '':'' # str_of_nat i = g' @ CHR '':'' # str_of_nat i'"
    by (simp_all add: append_eq_append_conv)
  moreover from rest have "g = g' \<and> str_of_nat i = str_of_nat i'"
    using assms(2,3) by (simp add: append_eq_append_conv)
  ultimately show ?thesis by (simp add: str_of_nat_inj)
qed

lemma chunk_key_not_legacy: "chunk_key sha key g i \<noteq> legacy_chunk_key sha' key' g' i'"
  by (simp add: chunk_key_def legacy_chunk_key_def legacy_chunk_prefix_def current_chunk_prefix_def)

lemma hex_not_g: "hex_text n cs \<Longrightarrow> 103 \<notin> set cs"
  by (auto simp: hex_text_def list_all_iff lower_hex_def is_digit_code_def)

lemma has_prefix_split: "p @ r = k @ t \<Longrightarrow> \<not> has_prefix p k \<Longrightarrow> \<exists>n < length p. k = take n p \<and> t = drop n p @ r"
proof -
  assume eq: "p @ r = k @ t" and "\<not> has_prefix p k"
  then have "length k < length p"
    by (metis append_eq_append_conv_if has_prefix_def leI)
  moreover from eq this have "k = take (length k) p" "t = drop (length k) p @ r"
    by (metis append_eq_append_conv_if append_take_drop_id less_imp_le_nat nat_less_le)+
  ultimately show ?thesis by blast
qed

text \<open>A version 4 chunk key of a logical key is never in the current chunk namespace.\<close>

lemma chunk_key_not_v4:
  assumes "sha_ok sha" "\<not> has_prefix current_chunk_prefix key'"
  shows "chunk_key sha key g i \<noteq> v4_chunk_key key' g' i'"
proof
  let ?d = "sha (utf8_encode key)"
  assume "chunk_key sha key g i = v4_chunk_key key' g' i'"
  then have "current_chunk_prefix @ ?d @ '':'' @ g @ '':'' @ str_of_nat i = key' @ '':generation:'' @ g' @ '':chunk:'' @ str_of_nat i'"
    by (simp add: chunk_key_def v4_chunk_key_def logical_key_digest_def)
  from has_prefix_split [OF this assms(2)] obtain n where n: "n < length current_chunk_prefix"
    and eq: "'':generation:'' @ g' @ '':chunk:'' @ str_of_nat i' = drop n current_chunk_prefix @ ?d @ '':'' @ g @ '':'' @ str_of_nat i"
    by blast
  have hex: "hex_text 64 (codes ?d)" using assms(1) by (simp add: sha_ok_def)
  have "list_all (\<lambda>n. length (drop n current_chunk_prefix) \<ge> 2 \<and> take 2 (drop n current_chunk_prefix) \<noteq> '':g'') [0..<23]"
    unfolding current_chunk_prefix_def by code_simp
  then have "2 \<le> length (drop n current_chunk_prefix) \<and> take 2 (drop n current_chunk_prefix) \<noteq> '':g''" if "n \<noteq> 23"
    using that n by (auto simp: list_all_iff current_chunk_prefix_def)
  moreover from eq have "take 2 (drop n current_chunk_prefix @ ?d @ '':'' @ g @ '':'' @ str_of_nat i) = '':g''"
    by (metis append_Cons take0 take_Suc_Cons numeral_2_eq_2)
  moreover have "take 2 (a @ b) = take 2 a" if "2 \<le> length a" for a b :: string using that by simp
  ultimately have "n = 23" by metis
  with eq have "''generation:'' @ g' @ '':chunk:'' @ str_of_nat i' = ?d @ '':'' @ g @ '':'' @ str_of_nat i"
    by (simp add: current_chunk_prefix_def)
  then show False using hex hex_not_g [OF hex] by (cases ?d) (auto simp: hex_text_def)
qed

lemma valid_logical_key:
  assumes "validate_logical_key S key = Inr ()"
  shows "\<not> has_prefix current_chunk_prefix key \<and> \<not> has_prefix legacy_chunk_prefix key \<and> list_all key_name_char key"
  using assms by (auto simp: validate_logical_key_def validate_key_name_def split: sum.splits if_splits option.splits)

lemma chunk_key_not_logical:
  "validate_logical_key S key' = Inr () \<Longrightarrow> chunk_key sha key g i \<noteq> key'"
  using valid_logical_key [of S key'] by (auto simp: chunk_key_def has_prefix_def)

lemma manifest_of_generation: "manifest_of d = Some m \<Longrightarrow> length (mf_generation m) = 32"
  by (auto simp: manifest_of_def hex_text_def split: option.splits jval.splits if_splits)

lemma decoded_generation: "decode_manifest depth raw = Inr (Some m) \<Longrightarrow> length (mf_generation m) = 32"
  by (auto simp: decode_manifest_def dest: manifest_of_generation split: sum.splits jval.splits option.splits if_splits)

text \<open>No decoded manifest of a logical key refers to the chunks of another generation.\<close>

lemma chunk_key_not_referred:
  assumes "sha_ok sha" "length g = 32" "validate_logical_key S key' = Inr ()" "decode_manifest depth raw = Inr (Some m)"
    and "mf_generation m \<noteq> g \<or> sha (utf8_encode key) \<noteq> sha (utf8_encode key')"
  shows "chunk_key sha key g i \<noteq> manifest_chunk_key sha key' m j"
proof -
  have "chunk_key sha key g i \<noteq> v4_chunk_key key' (mf_generation m) j"
    using valid_logical_key [OF assms(3)] by (intro chunk_key_not_v4 [OF assms(1)]) simp
  moreover have "chunk_key sha key g i \<noteq> chunk_key sha key' (mf_generation m) j"
    using chunk_key_inj [OF assms(1,2) decoded_generation [OF assms(4)]] assms(5) by blast
  ultimately show ?thesis by (simp add: manifest_chunk_key_def chunk_key_not_legacy)
qed

section \<open>Committing\<close>

definition chunk_at :: "nat \<Rightarrow> bytes \<Rightarrow> nat \<Rightarrow> bytes" where
  "chunk_at chunk_bytes payload i = take chunk_bytes (drop (i * chunk_bytes) payload)"

lemma write_chunks_lawful:
  assumes "lawful_storage S content" "sha_ok sha" "length g = 32" "distinct is"
    and "write_chunks S sha key g n payload is s = (r, s')"
  shows "(\<forall>k. k \<notin> chunk_key sha key g ` set is \<longrightarrow> content s' k = content s k)
    \<and> (r = Inr () \<longrightarrow> (\<forall>i \<in> set is. content s' (chunk_key sha key g i) = Some (chunk_at n payload i)))"
  using assms(4,5)
proof (induction "is" arbitrary: s)
  case (Cons i "is")
  obtain r1 s1 where st: "store_verified S (chunk_key sha key g i) (chunk_at n payload i) s = (r1, s1)" by fastforce
  note ls = lawful_store [OF assms(1) st]
  show ?case
  proof (cases r1)
    case (Inl e)
    with Cons.prems st ls show ?thesis by (auto simp: chunk_at_def)
  next
    case (Inr u)
    then have wc: "write_chunks S sha key g n payload is s1 = (r, s')" using Cons.prems st by (simp add: chunk_at_def)
    have c1: "content s1 = (content s)(chunk_key sha key g i \<mapsto> chunk_at n payload i)" using ls Inr by auto
    have "chunk_key sha key g i \<notin> chunk_key sha key g ` set is"
      using Cons.prems(1) chunk_key_inj [OF assms(2,3,3)] by auto
    then show ?thesis using Cons.IH [OF _ wc] Cons.prems(1) c1 by auto
  qed
qed simp

section \<open>The manifest round trip\<close>

definition repo_ok :: "repo \<Rightarrow> bool" where
  "repo_ok R \<longleftrightarrow> 1 \<le> rp_max_bytes R \<and> min_chunk_bytes (rp_max_bytes R) \<le> rp_chunk_bytes R
     \<and> rp_chunk_bytes R \<le> rp_max_bytes R \<and> rp_chunk_bytes R \<le> max_snapshot_chunk_bytes"

lemma repo_init_ok: "repo_init m c = Inr R \<Longrightarrow> repo_ok R"
  by (auto simp: repo_init_def repo_ok_def nat_le_iff le_nat_iff split: pyval.splits if_splits)

lemma ceil_div_mult:
  assumes "0 < k"
  shows "(n::nat) \<le> k * ((k - 1 + n) div k)"
proof -
  have "k * ((k - 1 + n) div k) + (k - 1 + n) mod k = k - 1 + n" by (rule mult_div_mod_eq)
  moreover have "(k - 1 + n) mod k < k" using assms by simp
  ultimately show ?thesis using assms by linarith
qed

lemma repo_bounds:
  assumes "repo_ok R"
  shows "1 \<le> rp_chunk_bytes R" "rp_max_bytes R \<le> max_snapshot_chunks * rp_chunk_bytes R"
    "rp_max_bytes R < 10 ^ 10"
proof -
  let ?m = "rp_max_bytes R" and ?c = "rp_chunk_bytes R"
  have min: "(4095 + ?m) div 4096 \<le> ?c" "1 \<le> ?m" "?c \<le> 262144"
    using assms by (simp_all add: repo_ok_def min_chunk_bytes_def max_snapshot_chunks_def max_snapshot_chunk_bytes_def)
  have "?m \<le> 4096 * ((4095 + ?m) div 4096)" using ceil_div_mult [of 4096 ?m] by simp
  then have "?m \<le> 4096 * ?c" using min(1) by (meson le_trans mult_le_mono2)
  with min show "1 \<le> ?c" "?m \<le> max_snapshot_chunks * ?c" "?m < 10 ^ 10"
    by (simp_all add: max_snapshot_chunks_def)
qed

lemma length_str_of_nat: "n < 10 ^ Suc k \<Longrightarrow> length (str_of_nat n) \<le> Suc k"
proof (induction k arbitrary: n)
  case 0
  then show ?case by (simp add: str_of_nat.simps [of n])
next
  case (Suc k)
  have "n div 10 < 10 ^ Suc k" using Suc.prems by (simp add: less_mult_imp_div_less)
  then have "length (str_of_nat (n div 10)) \<le> Suc k" by (rule Suc.IH)
  then show ?case by (subst str_of_nat.simps) simp
qed

lemma string_text_hex: "hex_text n (codes s) \<Longrightarrow> string_text True (codes s) = 34 # codes s @ [34]"
proof -
  have "escape_code True c = [c]" if "lower_hex c" for c
    using that by (auto simp: escape_code_def short_escapes_def lower_hex_def is_digit_code_def)
  then have "list_all lower_hex cs \<Longrightarrow> concat (map (escape_code True) cs) = cs" for cs by (induction cs) auto
  then show "hex_text n (codes s) \<Longrightarrow> string_text True (codes s) = 34 # codes s @ [34]"
    by (simp add: string_text_def hex_text_def)
qed

lemma chunks_bounded:
  assumes "repo_ok R" "n \<le> rp_max_bytes R"
  shows "(n + rp_chunk_bytes R - 1) div rp_chunk_bytes R \<le> max_snapshot_chunks"
proof -
  let ?c = "rp_chunk_bytes R"
  note b = repo_bounds [OF assms(1)]
  have "n \<le> max_snapshot_chunks * ?c" using assms(2) b(2) by linarith
  then have "n + ?c - 1 < (max_snapshot_chunks + 1) * ?c" using b(1) by simp
  from less_mult_imp_div_less [OF this] show ?thesis by simp
qed

text \<open>The manifests \<open>commit\<close> writes.\<close>

definition manifest_ok :: "repo \<Rightarrow> manifest \<Rightarrow> bool" where
  "manifest_ok R m \<longleftrightarrow>
     mf_version m = 7 \<and> hex_text 32 (codes (mf_generation m)) \<and> hex_text 64 (codes (mf_checksum m))
     \<and> mf_length m \<le> rp_max_bytes R \<and> mf_chunk_bytes m = rp_chunk_bytes R
     \<and> mf_chunks m = (mf_length m + mf_chunk_bytes m - 1) div mf_chunk_bytes m
     \<and> (\<not> mf_state_present m \<longrightarrow> mf_length m = 0)"

lemma manifest_digits:
  assumes "repo_ok R" "manifest_ok R m"
  shows "length (str_of_nat (mf_length m)) \<le> 10" "length (str_of_nat (mf_chunk_bytes m)) \<le> 10"
    "length (str_of_nat (mf_chunks m)) \<le> 10"
proof -
  note b = repo_bounds [OF assms(1)]
  have "mf_length m < 10 ^ Suc 9" "mf_chunk_bytes m < 10 ^ Suc 9"
    using assms b(3) by (simp_all add: repo_ok_def manifest_ok_def)
  moreover have "mf_chunks m < 10 ^ Suc 9"
    using chunks_bounded [OF assms(1), of "mf_length m"] assms(2) by (simp add: manifest_ok_def max_snapshot_chunks_def)
  ultimately show "length (str_of_nat (mf_length m)) \<le> 10" "length (str_of_nat (mf_chunk_bytes m)) \<le> 10"
    "length (str_of_nat (mf_chunks m)) \<le> 10"
    using length_str_of_nat [of _ 9] by fastforce+
qed

lemma encode_manifest_length:
  assumes "repo_ok R" "manifest_ok R m"
  shows "length (encode_manifest m) \<le> max_manifest_bytes"
proof -
  define g where "g = string_text True (codes (mf_generation m))"
  define h where "h = string_text True (codes (mf_checksum m))"
  have "length g = 34" "length h = 66"
    using string_text_hex [of 32 "mf_generation m"] string_text_hex [of 64 "mf_checksum m"] assms(2)
    by (simp_all add: g_def h_def manifest_ok_def hex_text_def)
  with manifest_digits [OF assms] show ?thesis
    unfolding encode_manifest_def manifest_json_def json_text.simps list.map prod.case compact_style_def json_style.simps
      g_def [symmetric] h_def [symmetric]
    by (simp add: ascii_bytes_def int_text_def max_manifest_bytes_def string_text_def escape_code_def short_escapes_def manifest_schema_def
        str_of_nat.simps [of 7])
qed

lemma vget_simps: "vget ((k', v) # d) k = (case vget d k of None \<Rightarrow> if codes k = k' then Some v else None | Some w \<Rightarrow> Some w)"
  by (simp add: vget_def map_add_def split: option.splits)

lemma decode_encode_manifest:
  assumes "repo_ok R" "manifest_ok R m" "0 < depth"
  shows "decode_manifest depth (encode_manifest m) = Inr (Some m)"
proof -
  let ?d = "[(codes ''schema'', VStr (codes manifest_schema)), (codes ''version'', VInt 7),
           (codes ''generation'', VStr (codes (mf_generation m))), (codes ''length'', VInt (int (mf_length m))),
           (codes ''chunk_bytes'', VInt (int (mf_chunk_bytes m))), (codes ''chunks'', VInt (int (mf_chunks m))),
           (codes ''sha256'', VStr (codes (mf_checksum m))),
           (codes ''state'', VStr (codes (if mf_state_present m then ''bytes'' else ''none'')))]"
  have ok: "json_ok (\<lambda>_. []) depth (manifest_json m)"
    using assms(3) manifest_digits [OF assms(1,2)]
    by (simp add: manifest_json_def int_text_def string_ok_codes str_of_nat.simps [of 7] del: codes_simps(2))
  have "build plain_hooks (\<lambda>_. []) (manifest_json m) = Inr (VDict ?d)"
    by (simp add: manifest_json_def plain_hooks_def)
  then have "loads_bytes plain_hooks depth (encode_manifest m) = Inr (VDict ?d)"
    unfolding encode_manifest_def by (rule loads_dumps(2) [OF styles_ascii(2) ok])
  moreover have "vget ?d ''schema'' = Some (VStr (codes manifest_schema))"
    by (simp add: vget_def)
  moreover have "manifest_of ?d = Some m"
  proof -
    have cb: "1 \<le> mf_chunk_bytes m" using assms repo_bounds(1) by (simp add: manifest_ok_def)
    then have chunks: "int (mf_chunks m) = (int (mf_length m) + int (mf_chunk_bytes m) - 1) div int (mf_chunk_bytes m)"
      using assms(2) by (simp add: manifest_ok_def zdiv_int of_nat_diff)
    have keys: "fst ` set ?d = codes ` manifest_keys 7"
      unfolding manifest_keys_def by (simp add: insert_commute del: codes_simps(2))
    have get: "vget ?d ''version'' = Some (VInt 7)" "vget ?d ''generation'' = Some (VStr (codes (mf_generation m)))"
      "vget ?d ''length'' = Some (VInt (int (mf_length m)))" "vget ?d ''chunk_bytes'' = Some (VInt (int (mf_chunk_bytes m)))"
      "vget ?d ''chunks'' = Some (VInt (int (mf_chunks m)))" "vget ?d ''sha256'' = Some (VStr (codes (mf_checksum m)))"
      "vget ?d ''state'' = Some (VStr (codes (if mf_state_present m then ''bytes'' else ''none'')))"
      by (simp_all add: vget_def del: codes_simps(2))
    have "\<not> mf_state_present m \<longrightarrow> mf_length m = 0" "hex_text 32 (codes (mf_generation m))"
      "hex_text 64 (codes (mf_checksum m))" "mf_version m = 7" using assms(2) by (simp_all add: manifest_ok_def)
    then show ?thesis
      unfolding manifest_of_def get using cb chunks keys
      by (simp del: codes_simps(2) set_simps)
  qed
  ultimately show ?thesis
    using encode_manifest_length [OF assms(1,2)] by (simp add: decode_manifest_def)
qed

section \<open>What was committed is read\<close>

lemma read_chunks_back:
  assumes "mf_version m = 7" "mf_length m = length payload" "mf_chunks m = (length payload + mf_chunk_bytes m - 1) div mf_chunk_bytes m"
    and "1 \<le> mf_chunk_bytes m" "k \<le> mf_chunks m"
    and "\<And>i. i < mf_chunks m \<Longrightarrow> c (chunk_key sha key (mf_generation m) i) = Some (chunk_at (mf_chunk_bytes m) payload i)"
  shows "fst (read_chunks mem_storage sha key m [k..<mf_chunks m] c) = Inr (drop (k * mf_chunk_bytes m) payload)"
  using assms(5)
proof (induction rule: inc_induct)
  case base
  have "length payload \<le> mf_chunk_bytes m * mf_chunks m"
    using ceil_div_mult [of "mf_chunk_bytes m" "length payload"] assms(3,4) by (simp add: add.commute)
  then show ?case by (simp add: mult.commute)
next
  case (step k)
  let ?n = "mf_chunk_bytes m"
  have key: "manifest_chunk_key sha key m k = chunk_key sha key (mf_generation m) k"
    using assms(1) by (simp add: manifest_chunk_key_def)
  have len: "length (chunk_at ?n payload k) = min ?n (length payload - k * ?n)" by (simp add: chunk_at_def min.commute)
  have glue: "chunk_at ?n payload k @ drop (Suc k * ?n) payload = drop (k * ?n) payload"
    by (simp add: chunk_at_def) (metis add.commute append_take_drop_id drop_drop)
  obtain r c' where rc: "read_chunks mem_storage sha key m [Suc k..<mf_chunks m] c = (r, c')" by fastforce
  have "r = Inr (drop (Suc k * ?n) payload)" using step.IH rc by simp
  then show ?case
    using step.hyps assms(2,6) key len glue rc by (simp add: upt_rec [of k] Let_def min.commute)
qed

text \<open>The result of reading a committed snapshot.\<close>

definition committed_read :: "string \<Rightarrow> bytes option \<Rightarrow> snapshot_read" where
  "committed_read generation state = \<lparr>sr_found = True, sr_state = state, sr_manifest = True, sr_generation = Some generation\<rparr>"

lemma view_committed:
  assumes "repo_ok R" "sha_ok sha" "hex_text 32 (codes g)" "0 < depth" "length payload \<le> rp_max_bytes R"
    and "\<not> present \<longrightarrow> payload = []"
    and "c key = Some (encode_manifest (new_manifest R sha g payload present))"
    and "\<And>i. i < mf_chunks (new_manifest R sha g payload present) \<Longrightarrow>
      c (chunk_key sha key g i) = Some (chunk_at (rp_chunk_bytes R) payload i)"
  shows "snap_view R sha depth key c = Inr (committed_read g (if present then Some payload else None))"
proof -
  let ?m = "new_manifest R sha g payload present"
  have mok: "manifest_ok R ?m"
    using assms(2,3,5,6) by (auto simp: manifest_ok_def new_manifest_def sha_ok_def)
  note dec = decode_encode_manifest [OF assms(1) mok assms(4)]
  note b = repo_bounds [OF assms(1)]
  have "fst (read_chunks mem_storage sha key ?m [0..<mf_chunks ?m] c) = Inr (drop (0 * mf_chunk_bytes ?m) payload)"
    by (rule read_chunks_back) (use assms(8) b(1) in \<open>simp_all add: new_manifest_def\<close>)
  then obtain c' where rc: "read_chunks mem_storage sha key ?m [0..<mf_chunks ?m] c = (Inr payload, c')"
    by (cases "read_chunks mem_storage sha key ?m [0..<mf_chunks ?m] c") auto
  have len: "length (encode_manifest ?m) \<le> max (rp_max_bytes R) max_manifest_bytes"
    using encode_manifest_length [OF assms(1) mok] by simp
  have lims: "\<not> (rp_max_bytes R < mf_length ?m \<or> rp_chunk_bytes R < mf_chunk_bytes ?m
      \<or> mf_chunk_bytes ?m < min_chunk_bytes (rp_max_bytes R) \<or> max_snapshot_chunks < mf_chunks ?m)"
    using assms(1,5) chunks_bounded [OF assms(1,5)] by (auto simp: new_manifest_def repo_ok_def)
  have "mf_length ?m = length payload" "mf_checksum ?m = sha payload" "mf_generation ?m = g" "mf_state_present ?m = present"
    by (simp_all add: new_manifest_def)
  with assms(6,7) dec len lims rc show ?thesis
    by (auto simp: snap_view_def read_terminal_def committed_read_def)
qed

text \<open>The generation of a commit is new: no manifest in the storage names it.\<close>

definition fresh_generation :: "nat \<Rightarrow> string \<Rightarrow> (string \<Rightarrow> bytes option) \<Rightarrow> bool" where
  "fresh_generation depth g c \<longleftrightarrow>
     (\<forall>k raw m. c k = Some raw \<longrightarrow> decode_manifest depth raw = Inr (Some m) \<longrightarrow> mf_generation m \<noteq> g)"

lemma commit_payload_atomic:
  assumes S: "lawful_storage S content" and sha: "sha_ok sha" and R: "repo_ok R" and g: "hex_text 32 (codes g)"
    and d: "0 < depth" and key: "validate_logical_key S key = Inr ()" and fresh: "fresh_generation depth g (content s)"
    and len: "length payload \<le> rp_max_bytes R" and present: "\<not> present \<longrightarrow> payload = []"
    and run: "commit_payload S R sha g key payload present s = (r, s')"
  shows "snap_view R sha depth key (content s') = Inr (committed_read g (if present then Some payload else None))
    \<or> r \<noteq> Inr () \<and> snap_view R sha depth key (content s') = snap_view R sha depth key (content s)"
proof -
  let ?m = "new_manifest R sha g payload present"
  let ?chunks = "chunk_key sha key g ` set [0..<mf_chunks ?m]"
  have g32: "length g = 32" using g by (simp add: hex_text_def)
  have off: "key \<notin> ?chunks" using chunk_key_not_logical [OF key] by (metis imageE)
  have same: "snap_view R sha depth key c = snap_view R sha depth key (content s)"
    if c: "\<forall>k. k \<notin> ?chunks \<longrightarrow> c k = content s k" for c
  proof (rule snap_view_cong)
    fix raw m i
    assume "c key = Some raw" and dec: "decode_manifest depth raw = Inr (Some m)"
    with c off fresh have "mf_generation m \<noteq> g" by (auto simp: fresh_generation_def)
    then have "manifest_chunk_key sha key m i \<notin> ?chunks"
      using chunk_key_not_referred [OF sha g32 key dec] by (metis imageE)
    with c show "c (manifest_chunk_key sha key m i) = content s (manifest_chunk_key sha key m i)" by blast
  qed (use c off in blast)
  obtain r1 s1 where wc: "write_chunks S sha key g (rp_chunk_bytes R) payload [0..<mf_chunks ?m] s = (r1, s1)" by fastforce
  note w = write_chunks_lawful [OF S sha g32 distinct_upt wc]
  show ?thesis
  proof (cases r1)
    case (Inl e)
    with run wc have "r = Inl e" "s' = s1" by (simp_all add: commit_payload_def Let_def)
    with w same [of "content s1"] show ?thesis by simp
  next
    case (Inr u)
    with run wc have st: "store_verified S key (encode_manifest ?m) s1 = (r, s')" by (simp add: commit_payload_def Let_def)
    from lawful_store [OF S st] show ?thesis
    proof
      assume c': "content s' = (content s1)(key \<mapsto> encode_manifest ?m)"
      have "snap_view R sha depth key (content s') = Inr (committed_read g (if present then Some payload else None))"
      proof (rule view_committed [OF R sha g d len present])
        show "content s' key = Some (encode_manifest ?m)" using c' by simp
        fix i assume "i < mf_chunks ?m"
        with w Inr have "content s1 (chunk_key sha key g i) = Some (chunk_at (rp_chunk_bytes R) payload i)" by simp
        then show "content s' (chunk_key sha key g i) = Some (chunk_at (rp_chunk_bytes R) payload i)"
          using c' chunk_key_not_logical [OF key] by simp
      qed
      then show ?thesis ..
    next
      assume "content s' = content s1 \<and> r \<noteq> Inr ()"
      with w same [of "content s1"] show ?thesis by simp
    qed
  qed
qed

text \<open>The state a commit is given, as a read returns it.\<close>

fun state_of :: "snap_state \<Rightarrow> bytes option" where
  "state_of (StateBytes bs) = Some bs"
| "state_of _ = None"

lemma repo_commit_atomic:
  assumes "lawful_storage S content" "sha_ok sha" "repo_ok R" "hex_text 32 (codes generation)" "0 < depth"
    and "fresh_generation depth generation (content s)"
    and "repo_commit S R sha generation key state s = (r, s')"
  shows "snap_view R sha depth key (content s') = Inr (committed_read generation (state_of state))
    \<or> r \<noteq> Inr () \<and> snap_view R sha depth key (content s') = snap_view R sha depth key (content s)"
proof (cases "validate_logical_key S key")
  case (Inl e)
  with assms(7) show ?thesis by (auto simp: repo_commit_def)
next
  case (Inr u)
  then have key: "validate_logical_key S key = Inr ()" by simp
  note atomic = commit_payload_atomic [OF assms(1-5) key assms(6)]
  show ?thesis
  proof (cases state)
    case NoState
    with assms(7) key atomic [of "[]" False r s'] show ?thesis by (simp add: repo_commit_def commit_terminal_def)
  next
    case (StateBytes bs)
    with assms(7) key atomic [of bs True r s'] show ?thesis
      by (auto simp: repo_commit_def commit_terminal_def split: if_splits)
  next
    case StateForeign
    with assms(7) key show ?thesis by (auto simp: repo_commit_def commit_terminal_def)
  qed
qed

text \<open>
  C15. Commits are atomic: over any storage whose calls may fail before or after taking effect, also by a
  signal that stops the process between two writes, a commit leaves the logical key either with the
  new snapshot, complete and validated, or, and then it raised, with exactly what a read returned
  before.
\<close>

theorem snapshot_commit_atomic:
  assumes "lawful_storage S content" "sha_ok sha" "repo_ok R" "hex_text 32 (codes generation)" "0 < depth"
    and "fresh_generation depth generation (content s)"
    and "repo_commit S R sha generation key state s = (r, s')"
  shows "snap_view R sha depth key (content s') = Inr (committed_read generation (state_of state))
    \<or> r \<noteq> Inr () \<and> snap_view R sha depth key (content s') = snap_view R sha depth key (content s)"
  using repo_commit_atomic [OF assms] .

lemma lawful_mem: "lawful_storage mem_storage (\<lambda>c. c)"
  by (auto simp: lawful_storage_def mem_storage_def)

definition demo_sha :: "bytes \<Rightarrow> string" where
  "demo_sha bs = replicate 64 (if bs = [] then CHR ''0'' else CHR ''f'')"

definition demo_repo :: repo where
  "demo_repo = \<lparr>rp_max_bytes = 8, rp_chunk_bytes = 4\<rparr>"

definition demo_generation :: string where
  "demo_generation = replicate 32 (CHR ''a'')"

lemma demo_repository_ok:
  "sha_ok demo_sha" "repo_ok demo_repo" "hex_text 32 (codes demo_generation)"
  "fresh_generation depth g (\<lambda>k. None)" "validate_logical_key mem_storage ''snap:q'' = Inr ()"
  by (simp_all add: sha_ok_def demo_sha_def repo_ok_def demo_repo_def min_chunk_bytes_def max_snapshot_chunks_def
      max_snapshot_chunk_bytes_def demo_generation_def fresh_generation_def hex_text_def codes_def list_all_iff lower_hex_def
      is_digit_code_def validate_logical_key_def validate_key_name_def key_name_char_def has_prefix_def
      legacy_chunk_prefix_def current_chunk_prefix_def logical_key_limit_def mem_storage_def)

lemma mem_store [simp]: "store_verified mem_storage k v c = (Inr (), c(k \<mapsto> v))"
  by (simp add: store_verified_def mem_storage_def)

lemma mem_write_chunks: "\<exists>c'. write_chunks mem_storage sha key g n payload is c = (Inr (), c')"
  by (induction "is" arbitrary: c) simp_all

definition demo_commit :: "(unit, string \<Rightarrow> bytes option) outcome" where
  "demo_commit = repo_commit mem_storage demo_repo demo_sha demo_generation ''snap:q'' (StateBytes [1, 2, 3, 4, 5]) (\<lambda>k. None)"

lemma demo_commit_returns: "\<exists>c. demo_commit = (Inr (), c)"
  using mem_write_chunks [of demo_sha "''snap:q''" demo_generation 4 "[1, 2, 3, 4, 5]"
      "[0..<mf_chunks (new_manifest demo_repo demo_sha demo_generation [1, 2, 3, 4, 5] True)]" "\<lambda>k. None"]
  by (auto simp: demo_commit_def repo_commit_def commit_terminal_def commit_payload_def demo_repository_ok Let_def demo_repo_def)

theorem snapshot_commit_atomic_witness:
  "\<exists>c. demo_commit = (Inr (), c)
     \<and> snap_view demo_repo demo_sha 10 ''snap:q'' c = Inr (committed_read demo_generation (Some [1, 2, 3, 4, 5]))"
proof -
  obtain c where c: "demo_commit = (Inr (), c)" using demo_commit_returns by blast
  with snapshot_commit_atomic [OF lawful_mem demo_repository_ok(1-3), of 10 "\<lambda>k. None" "''snap:q''" "StateBytes [1, 2, 3, 4, 5]"
      "Inr ()" c] demo_repository_ok(4) [of 10 demo_generation]
  show ?thesis by (simp add: demo_commit_def)
qed

section \<open>Maintenance changes no snapshot\<close>

lemma delete_lawful:
  assumes "lawful_storage S content" "delete_and_confirm S k s = (r, s')" "k' \<noteq> k"
  shows "content s' k' = content s k'"
proof -
  obtain r1 s1 where d: "ss_delete S k s = (r1, s1)" by fastforce
  with assms(1) have "content s1 = (content s)(k := None) \<or> content s1 = content s" by (simp add: lawful_storage_def)
  with assms(3) have c1: "content s1 k' = content s k'" by auto
  obtain r2 s2 where rt: "retrieve S k s1 = (r2, s2)" by fastforce
  from lawful_retrieve [OF assms(1) rt] assms(2) d rt c1 show ?thesis
    by (auto simp: delete_and_confirm_def split: if_splits sum.splits option.splits)
qed

lemma gc_delete_lawful:
  assumes "lawful_storage S content" "gc_delete S n ks deleted s = (r, d, s')"
  shows "(\<forall>k. k \<notin> set ks \<longrightarrow> content s' k = content s k) \<and> d \<le> max n deleted"
  using assms(2)
proof (induction ks arbitrary: s deleted)
  case (Cons k ks)
  obtain r1 s1 where dc: "delete_and_confirm S k s = (r1, s1)" by fastforce
  note del = delete_lawful [OF assms(1) dc]
  show ?case
  proof (cases "n \<le> deleted \<or> (\<exists>e. r1 = Inl e)")
    case True
    with Cons.prems dc del show ?thesis by (auto split: if_splits)
  next
    case False
    then obtain b where "r1 = Inr b" by (cases r1) auto
    with False Cons.prems dc have "gc_delete S n ks (if b then Suc deleted else deleted) s1 = (r, d, s')" by simp
    from Cons.IH [OF this] del False show ?thesis by (auto split: if_splits)
  qed
qed simp

lemma gc_candidates_keys:
  assumes "c \<in> set (gc_order n (gc_candidates sha key current observed))"
  shows "\<exists>g i. c = chunk_key sha key g i \<and> length g = 32 \<and> g \<noteq> current"
proof -
  obtain g where "(c, g) \<in> set (gc_candidates sha key current observed)"
    using assms by (auto simp: gc_order_def)
  then show ?thesis
    by (auto simp: gc_candidates_def Let_def parse_current_chunk_key_def hex_text_def split: option.splits if_splits)
qed

text \<open>The generation a read reports is that of the manifest under the logical key.\<close>

lemma view_generation:
  assumes "snap_view R sha depth key c = Inr x" "sr_generation x = Some g" "c key = Some raw" "decode_manifest depth raw = Inr (Some m)"
  shows "mf_generation m = g"
  using assms by (auto simp: snap_view_def read_terminal_def split: if_splits sum.splits prod.splits)

lemma gc_started:
  assumes "lawful_storage S content"
    and "repo_gc S R sha depth key quiescent max_generations (PyInt max_deletions) s = (r, deleted, s')"
  shows "content s' = content s \<and> deleted = 0
    \<or> (\<exists>current g gens observed s2 d. snap_view R sha depth key (content s) = Inr current \<and> sr_generation current = Some g
      \<and> gc_delete S d (gc_order gens (gc_candidates sha key g observed)) 0 s2 = (r, deleted, s') \<and> content s2 = content s
      \<and> int d = max_deletions)"
proof (cases "rbind (validate_logical_key S key) (\<lambda>_. gc_limits quiescent max_generations (PyInt max_deletions))")
  case (Inl e)
  with assms(2) show ?thesis by (simp add: repo_gc_def)
next
  case (Inr gd)
  then obtain gens d where lims: "gd = (gens, d)" "int d = max_deletions"
    by (auto simp: rbind_eq_Inr_iff gc_limits_def split: if_splits pyval.splits)
  obtain r1 s1 where rd: "read_terminal S R sha depth key s = (r1, s1)" by fastforce
  note lr = read_terminal_lawful [OF assms(1) rd]
  show ?thesis
  proof (cases "\<exists>current g l. r1 = Inr current \<and> sr_found current \<and> sr_generation current = Some g \<and> ss_list_keys S = Some l")
    case False
    with assms(2) Inr lims rd lr show ?thesis
      by (auto simp: repo_gc_def split: sum.splits option.splits bool.splits)
  next
    case True
    then obtain current g l where t: "r1 = Inr current" "sr_found current" "sr_generation current = Some g" "ss_list_keys S = Some l"
      by blast
    let ?p = "current_chunk_prefix @ logical_key_digest sha key @ '':''"
    obtain r2 s2 where ls: "bounded_storage_listing l ?p s1 = (r2, s2)" by fastforce
    have "content s2 = content s1"
      using ls assms(1) t(4)
      by (auto simp: bounded_storage_listing_def lawful_storage_def split: prod.splits sum.splits listing.splits)
    with assms(2) Inr lims rd lr t ls show ?thesis
      by (auto simp: repo_gc_def split: sum.splits)
  qed
qed

text \<open>
  C30. Maintenance is safe: however a maintenance run ends, and whatever the storage lists, every
  snapshot reads as before: that of the collected key, and that of any other logical key unless SHA-256
  maps the two keys to the same digest; and it never deletes more than its limit.
\<close>

theorem snapshot_gc_preserves:
  assumes "lawful_storage S content" "sha_ok sha" "validate_logical_key S key' = Inr ()"
    and "key' = key \<or> sha (utf8_encode key') \<noteq> sha (utf8_encode key)"
    and "repo_gc S R sha depth key quiescent max_generations (PyInt max_deletions) s = (r, deleted, s')"
  shows "snap_view R sha depth key' (content s') = snap_view R sha depth key' (content s)
    \<and> int deleted \<le> max 0 max_deletions"
proof -
  consider "content s' = content s" "deleted = 0"
    | current g gens observed s2 d where "snap_view R sha depth key (content s) = Inr current" "sr_generation current = Some g"
      "gc_delete S d (gc_order gens (gc_candidates sha key g observed)) 0 s2 = (r, deleted, s')" "content s2 = content s"
      "int d = max_deletions"
    using assms(5) gc_started [OF assms(1)] by metis
  then show ?thesis
  proof cases
    case 2
    note del = gc_delete_lawful [OF assms(1) 2(3)]
    have "snap_view R sha depth key' (content s') = snap_view R sha depth key' (content s)"
    proof (rule snap_view_cong [symmetric])
      have "key' \<notin> set (gc_order gens (gc_candidates sha key g observed))"
        using gc_candidates_keys [of key' gens sha key g observed] chunk_key_not_logical [OF assms(3)] by metis
      then show "content s key' = content s' key'" using del 2(4) by simp
      fix raw m i
      assume raw: "content s key' = Some raw" and dec: "decode_manifest depth raw = Inr (Some m)"
      have "manifest_chunk_key sha key' m i \<notin> set (gc_order gens (gc_candidates sha key g observed))"
      proof
        assume "manifest_chunk_key sha key' m i \<in> set (gc_order gens (gc_candidates sha key g observed))"
        from gc_candidates_keys [OF this] obtain g' j where g': "manifest_chunk_key sha key' m i = chunk_key sha key g' j"
          "length g' = 32" "g' \<noteq> g" by blast
        have "mf_generation m \<noteq> g' \<or> sha (utf8_encode key) \<noteq> sha (utf8_encode key')"
          using assms(4) view_generation [OF 2(1,2)] raw dec g'(3) by metis
        from chunk_key_not_referred [OF assms(2) g'(2) assms(3) dec this] g'(1) show False by metis
      qed
      then show "content s (manifest_chunk_key sha key' m i) = content s' (manifest_chunk_key sha key' m i)"
        using del 2(4) by simp
    qed
    then show ?thesis using del 2(5) by simp
  qed simp
qed

text \<open>A storage that lists one stale chunk, and a run on it.\<close>

definition stale_key :: string where
  "stale_key = chunk_key demo_sha ''snap:q'' (replicate 32 (CHR ''b'')) 0"

definition listing_storage :: "(string \<Rightarrow> bytes option) snap_storage" where
  "listing_storage = mem_storage
     \<lparr>ss_list_keys := Some (\<lambda>p n c. (Inr (Iterator (\<lambda>i. if i = 0 then Yields (Some stale_key) else Stops)), c))\<rparr>"

definition demo_gc_content :: "string \<Rightarrow> bytes option" where
  "demo_gc_content = (snd demo_commit)(stale_key \<mapsto> [9])"

definition demo_gc :: "unit result \<times> nat \<times> (string \<Rightarrow> bytes option)" where
  "demo_gc = repo_gc listing_storage demo_repo demo_sha 10 ''snap:q'' (PyBool True) (PyInt 16) (PyInt 10) demo_gc_content"

theorem snapshot_gc_preserves_witness:
  "snap_view demo_repo demo_sha 10 ''snap:q'' (snd (snd demo_gc)) = snap_view demo_repo demo_sha 10 ''snap:q'' demo_gc_content
    \<and> int (fst (snd demo_gc)) \<le> 10"
proof -
  have "lawful_storage listing_storage (\<lambda>c. c)"
    by (auto simp: lawful_storage_def listing_storage_def mem_storage_def)
  moreover have "validate_logical_key listing_storage ''snap:q'' = Inr ()"
  proof -
    have "ss_backend_type listing_storage = ss_backend_type mem_storage" by (simp add: listing_storage_def)
    with demo_repository_ok(5) show ?thesis by (simp only: validate_logical_key_def)
  qed
  moreover obtain r d c where "demo_gc = (r, d, c)" by (cases demo_gc)
  ultimately show ?thesis
    using snapshot_gc_preserves [of listing_storage "\<lambda>c. c" demo_sha "''snap:q''" "''snap:q''" demo_repo 10 "PyBool True" "PyInt 16" 10
        demo_gc_content r d c] demo_repository_ok(1) by (simp add: demo_gc_def)
qed

end
