(* ===== verification/Snapshot_Lease.thy ===== *)
theory Snapshot_Lease
  imports Prelude
begin

text \<open>
  The leases of the snapshot repository, \<open>queue/snapshot.py\<close>: readers and commits share the storage,
  maintenance has it alone. \<open>leases\<close> is the state under the condition variable; \<open>lease_step\<close> interleaves the
  threads. A wait is the absence of a step: a thread that waits goes on when the guard of its step holds.
  The ghost fields record which threads are inside the \<open>with\<close> statements. The repairs for a signal
  between two assignments of one critical section restore what that section does and are left out.
\<close>

section \<open>State and critical sections\<close>

record leases =
  ls_readers :: nat
  ls_commits :: nat
  ls_reader_threads :: "nat \<rightharpoonup> nat"
  ls_commit_threads :: "nat \<rightharpoonup> nat"
  ls_maintenance :: bool
  ls_owner :: "nat option"

definition leases_init :: leases where
  "leases_init = \<lparr>ls_readers = 0, ls_commits = 0, ls_reader_threads = Map.empty, ls_commit_threads = Map.empty,
     ls_maintenance = False, ls_owner = None\<rparr>"

text \<open>\<open>None\<close>: the thread waits.\<close>

definition fence_check :: "nat \<Rightarrow> leases \<Rightarrow> unit result option" where
  "fence_check t L =
     (if \<not> ls_maintenance L then Some (Inr ())
      else if ls_owner L = Some t then Some (Inl SnapshotRepositoryError) else None)"

definition bump :: "nat \<Rightarrow> (nat \<rightharpoonup> nat) \<Rightarrow> (nat \<rightharpoonup> nat)" where
  "bump t m = m(t \<mapsto> (case m t of None \<Rightarrow> 0 | Some n \<Rightarrow> n) + 1)"

definition unbump :: "nat \<Rightarrow> (nat \<rightharpoonup> nat) \<Rightarrow> (nat \<rightharpoonup> nat)" where
  "unbump t m = (let target = (case m t of None \<Rightarrow> 1 | Some n \<Rightarrow> n) - 1 in if target = 0 then m(t := None) else m(t \<mapsto> target))"

definition reader_enter :: "nat \<Rightarrow> leases \<Rightarrow> leases" where
  "reader_enter t L = L\<lparr>ls_readers := ls_readers L + 1, ls_reader_threads := bump t (ls_reader_threads L)\<rparr>"

definition reader_exit :: "nat \<Rightarrow> leases \<Rightarrow> leases" where
  "reader_exit t L = L\<lparr>ls_readers := ls_readers L - 1, ls_reader_threads := unbump t (ls_reader_threads L)\<rparr>"

definition commit_enter :: "nat \<Rightarrow> leases \<Rightarrow> leases" where
  "commit_enter t L = L\<lparr>ls_commits := ls_commits L + 1, ls_commit_threads := bump t (ls_commit_threads L)\<rparr>"

definition commit_exit :: "nat \<Rightarrow> leases \<Rightarrow> leases" where
  "commit_exit t L = L\<lparr>ls_commits := ls_commits L - 1, ls_commit_threads := unbump t (ls_commit_threads L)\<rparr>"

definition holds_lease :: "nat \<Rightarrow> leases \<Rightarrow> bool" where
  "holds_lease t L \<longleftrightarrow>
     (\<exists>n. ls_reader_threads L t = Some n \<and> n \<noteq> 0) \<or> (\<exists>n. ls_commit_threads L t = Some n \<and> n \<noteq> 0)"

definition maintenance_check :: "nat \<Rightarrow> leases \<Rightarrow> unit result option" where
  "maintenance_check t L =
     (if ls_maintenance L \<and> ls_owner L = Some t then Some (Inl SnapshotRepositoryError)
      else if holds_lease t L then Some (Inl SnapshotRepositoryError)
      else if ls_maintenance L then None else Some (Inr ()))"

definition raise_fence :: "nat \<Rightarrow> leases \<Rightarrow> leases" where
  "raise_fence t L = L\<lparr>ls_maintenance := True, ls_owner := Some t\<rparr>"

definition fence_drained :: "leases \<Rightarrow> bool" where
  "fence_drained L \<longleftrightarrow> ls_readers L = 0 \<and> ls_commits L = 0"

definition lower_fence :: "leases \<Rightarrow> leases" where
  "lower_fence L = L\<lparr>ls_maintenance := False, ls_owner := None\<rparr>"

section \<open>Interleavings\<close>

datatype phase = Draining | Collecting

text \<open>
  The threads inside: one element per active read and commit, and the phase of a thread in maintenance.
\<close>

record lease_run =
  lr_leases :: leases
  lr_reads :: "nat multiset"
  lr_commits :: "nat multiset"
  lr_maint :: "nat \<rightharpoonup> phase"

definition run_init :: lease_run where
  "run_init = \<lparr>lr_leases = leases_init, lr_reads = {#}, lr_commits = {#}, lr_maint = Map.empty\<rparr>"

inductive lease_step :: "lease_run \<Rightarrow> lease_run \<Rightarrow> bool" where
  read: "fence_check t (lr_leases r) = Some (Inr ()) \<Longrightarrow>
    lease_step r (r\<lparr>lr_leases := reader_enter t (lr_leases r), lr_reads := add_mset t (lr_reads r)\<rparr>)"
| read_done: "t \<in># lr_reads r \<Longrightarrow>
    lease_step r (r\<lparr>lr_leases := reader_exit t (lr_leases r), lr_reads := lr_reads r - {#t#}\<rparr>)"
| commit: "fence_check t (lr_leases r) = Some (Inr ()) \<Longrightarrow>
    lease_step r (r\<lparr>lr_leases := commit_enter t (lr_leases r), lr_commits := add_mset t (lr_commits r)\<rparr>)"
| commit_done: "t \<in># lr_commits r \<Longrightarrow>
    lease_step r (r\<lparr>lr_leases := commit_exit t (lr_leases r), lr_commits := lr_commits r - {#t#}\<rparr>)"
| maintain: "maintenance_check t (lr_leases r) = Some (Inr ()) \<Longrightarrow>
    lease_step r (r\<lparr>lr_leases := raise_fence t (lr_leases r), lr_maint := (lr_maint r)(t \<mapsto> Draining)\<rparr>)"
| drained: "lr_maint r t = Some Draining \<Longrightarrow> fence_drained (lr_leases r) \<Longrightarrow>
    lease_step r (r\<lparr>lr_maint := (lr_maint r)(t \<mapsto> Collecting)\<rparr>)"
| maintained: "lr_maint r t = Some p \<Longrightarrow>
    lease_step r (r\<lparr>lr_leases := lower_fence (lr_leases r), lr_maint := (lr_maint r)(t := None)\<rparr>)"

text \<open>
  The last rule covers the normal end of maintenance and an exception in either phase.
\<close>

definition counts :: "nat multiset \<Rightarrow> (nat \<rightharpoonup> nat)" where
  "counts M = (\<lambda>t. if t \<in># M then Some (count M t) else None)"

definition lease_inv :: "lease_run \<Rightarrow> bool" where
  "lease_inv r \<longleftrightarrow>
     ls_readers (lr_leases r) = size (lr_reads r) \<and> ls_reader_threads (lr_leases r) = counts (lr_reads r)
     \<and> ls_commits (lr_leases r) = size (lr_commits r) \<and> ls_commit_threads (lr_leases r) = counts (lr_commits r)
     \<and> (case ls_owner (lr_leases r) of
          None \<Rightarrow> \<not> ls_maintenance (lr_leases r) \<and> lr_maint r = Map.empty
        | Some t \<Rightarrow> ls_maintenance (lr_leases r) \<and> t \<notin># lr_reads r \<and> t \<notin># lr_commits r
            \<and> (\<exists>p. lr_maint r = [t \<mapsto> p] \<and> (p = Collecting \<longrightarrow> lr_reads r = {#} \<and> lr_commits r = {#})))"

lemma bump_counts: "bump t (counts M) = counts (add_mset t M)"
  by (auto simp: bump_def counts_def fun_eq_iff not_in_iff)

lemma unbump_counts: "t \<in># M \<Longrightarrow> unbump t (counts M) = counts (M - {#t#})"
  by (auto simp: unbump_def counts_def fun_eq_iff Let_def in_diff_count count_eq_zero_iff)

lemma holds_lease_counts:
  "lease_inv r \<Longrightarrow> holds_lease t (lr_leases r) \<longleftrightarrow> t \<in># lr_reads r \<or> t \<in># lr_commits r"
  by (auto simp: lease_inv_def holds_lease_def counts_def)

lemma lease_inv_step: "lease_step r r' \<Longrightarrow> lease_inv r \<Longrightarrow> lease_inv r'"
proof (induction rule: lease_step.induct)
  case (maintain t r)
  then show ?case
    using holds_lease_counts [of r t]
    by (auto simp: lease_inv_def maintenance_check_def raise_fence_def split: if_splits option.splits)
qed (auto simp: lease_inv_def fence_check_def reader_enter_def reader_exit_def commit_enter_def commit_exit_def
      bump_counts unbump_counts size_Diff_singleton fence_drained_def lower_fence_def in_diff_count
      split: if_splits option.splits dest: in_diffD)

lemma lease_inv_reachable: "lease_step\<^sup>*\<^sup>* run_init r \<Longrightarrow> lease_inv r"
proof (induction rule: rtranclp_induct)
  case base
  show ?case by (simp add: lease_inv_def run_init_def leases_init_def counts_def)
qed (rule lease_inv_step)

text \<open>
  C31. Maintenance is exclusive and cannot wait for itself: in every interleaving, a thread that collects
  runs while no read and no commit does; a thread that has raised the fence holds no lease of its own,
  it is the only one in maintenance, and no thread obtains a new lease until it is done; so the
  leases it waits for are those of other threads that were inside before, and when they are gone it may
  go on.
\<close>

theorem snapshot_maintenance_exclusive:
  assumes "lease_step\<^sup>*\<^sup>* run_init r" "lr_maint r t = Some p"
  shows "(p = Collecting \<longrightarrow> lr_reads r = {#} \<and> lr_commits r = {#})
    \<and> t \<notin># lr_reads r + lr_commits r \<and> (\<forall>t'. t' \<noteq> t \<longrightarrow> lr_maint r t' = None)
    \<and> (\<forall>t'. fence_check t' (lr_leases r) \<noteq> Some (Inr ()) \<and> maintenance_check t' (lr_leases r) \<noteq> Some (Inr ()))
    \<and> (p = Draining \<and> lr_reads r + lr_commits r = {#} \<longrightarrow> lease_step r (r\<lparr>lr_maint := (lr_maint r)(t \<mapsto> Collecting)\<rparr>))"
proof -
  have inv: "lease_inv r" using lease_inv_reachable [OF assms(1)] .
  then obtain q where q: "ls_owner (lr_leases r) = Some t" "ls_maintenance (lr_leases r)" "lr_maint r = [t \<mapsto> q]"
    "t \<notin># lr_reads r" "t \<notin># lr_commits r" "q = Collecting \<longrightarrow> lr_reads r = {#} \<and> lr_commits r = {#}"
    using assms(2) by (auto simp: lease_inv_def split: option.splits if_splits)
  moreover have "p = q" using q(3) assms(2) by simp
  moreover have "lease_step r (r\<lparr>lr_maint := (lr_maint r)(t \<mapsto> Collecting)\<rparr>)" if "p = Draining" "lr_reads r + lr_commits r = {#}"
    using that assms(2) inv by (intro lease_step.drained) (simp_all add: fence_drained_def lease_inv_def)
  ultimately show ?thesis by (simp add: fence_check_def maintenance_check_def)
qed

text \<open>Thread 1 reads while thread 2 asks for maintenance; it goes on when the read is done.\<close>

definition demo_leases :: leases where
  "demo_leases = raise_fence 2 (reader_enter 1 leases_init)"

definition demo_run :: lease_run where
  "demo_run = \<lparr>lr_leases = demo_leases, lr_reads = {#1#}, lr_commits = {#}, lr_maint = [2 \<mapsto> Draining]\<rparr>"

lemma demo_run_reachable: "lease_step\<^sup>*\<^sup>* run_init demo_run"
proof -
  let ?r1 = "run_init\<lparr>lr_leases := reader_enter 1 leases_init, lr_reads := {#1#}\<rparr>"
  have "lease_step run_init ?r1"
    using lease_step.read [of 1 run_init] by (simp add: run_init_def fence_check_def leases_init_def)
  moreover have "lease_step ?r1 demo_run"
    using lease_step.maintain [of 2 ?r1]
    by (simp add: run_init_def demo_run_def demo_leases_def maintenance_check_def holds_lease_def reader_enter_def leases_init_def bump_def)
  ultimately show ?thesis by (meson converse_rtranclp_into_rtranclp rtranclp.rtrancl_refl)
qed

theorem snapshot_maintenance_exclusive_witness:
  "(2::nat) \<notin># lr_reads demo_run + lr_commits demo_run \<and> (\<forall>t. fence_check t (lr_leases demo_run) \<noteq> Some (Inr ()))"
  using snapshot_maintenance_exclusive [OF demo_run_reachable, of 2 Draining] by (simp add: demo_run_def)

end
