(* ===== verification/Dupe_Filter.thy ===== *)
theory Dupe_Filter
  imports Filter_Spec
begin

text \<open>
  The duplicate filter \<open>dupefilter/dupefilter.py\<close>: the object between the scheduler and a membership
  filter. It offers two protocols. In the transactional one the scheduler obtains a decision with a
  reservation, pushes the request, and then commits the reservation, which writes the marker, or rolls
  it back. In Scrapy's boolean protocol the marker is written first; a receipt is kept for the push,
  and a failed push is compensated by \<open>forget\<close>, with a retry allowance when the marker cannot be
  removed.

  Objects are numbers: requests, owners, threads, and the identities of reservations and receipts. The
  membership filter is a record of its methods over a state type. The fingerprint of a request is an
  argument. Telemetry (monitor events, the fences of monitor hooks, log records) is left out: no result
  depends on it except that a monitor hook that asks again for its own request is told so.

  The receipts of a request are kept in order of creation in one list instead of one queue per request.
\<close>

section \<open>State\<close>

datatype lifecycle = LNew | LOpening | LOpen | LClearing | LClosing | LClosed

record reservation =
  rv_id :: nat
  rv_fingerprint :: bytes
  rv_epoch :: nat
  rv_owner :: nat
  rv_request :: nat

record receipt =
  rc_id :: nat
  rc_fingerprint :: bytes
  rc_epoch :: nat
  rc_request :: nat
  rc_consumer :: "nat option"
  rc_settling :: bool
  rc_slot :: bool

text \<open>
  \<open>df_active\<close> has the thread and epoch of every admitted operation, \<open>df_filter_requests\<close> the requests whose filter call
  runs, \<open>df_slots\<close> the recovery slots reserved by admitted markers. \<open>df_clear_thread\<close> is the thread of a running
  \<open>clear\<close> (\<open>_clear_in_progress\<close> with \<open>_lifecycle_transition_thread_id\<close>), \<open>df_release_thread\<close> that of a running close
  attempt (\<open>_release_in_progress\<close> with \<open>_release_thread_id\<close>), \<open>df_owns_manager\<close> whether there is a connection manager
  to release. Owner 0 is \<open>_direct_release_owner\<close>.
\<close>

record dupe =
  df_state :: lifecycle
  df_epoch :: nat
  df_active :: "(nat \<times> nat) list"
  df_filter_requests :: "nat list"
  df_next :: nat
  df_reservations :: "reservation list"
  df_pending :: "receipt list"
  df_handoffs :: "receipt list"
  df_retired :: "nat set"
  df_allowances :: "bytes list"
  df_slots :: nat
  df_allowance_limit :: nat
  df_volatile :: "bytes list"
  df_volatile_limit :: nat
  df_spider :: "nat option"
  df_open_owner :: "nat option"
  df_clear_thread :: "nat option"
  df_close_requested :: bool
  df_release_owner :: "nat option"
  df_release_aliases :: "nat list"
  df_release_thread :: "nat option"
  df_filter_released :: bool
  df_manager_released :: bool
  df_owns_manager :: bool

record 'f filter_ops =
  fo_add :: "bytes \<Rightarrow> 'f \<Rightarrow> (bool, 'f) outcome"
  fo_contains :: "bytes \<Rightarrow> 'f \<Rightarrow> (bool, 'f) outcome"
  fo_remove :: "bytes \<Rightarrow> 'f \<Rightarrow> (unit, 'f) outcome"
  fo_clear :: "'f \<Rightarrow> (unit, 'f) outcome"

definition dupe_init :: "bool \<Rightarrow> dupe" where
  "dupe_init owns =
     \<lparr>df_state = LNew, df_epoch = 0, df_active = [], df_filter_requests = [], df_next = 0, df_reservations = [],
      df_pending = [], df_handoffs = [], df_retired = {}, df_allowances = [], df_slots = 0, df_allowance_limit = 1024,
      df_volatile = [], df_volatile_limit = 65536, df_spider = None, df_open_owner = None, df_clear_thread = None,
      df_close_requested = False, df_release_owner = None, df_release_aliases = [], df_release_thread = None,
      df_filter_released = False, df_manager_released = False, df_owns_manager = owns\<rparr>"

section \<open>Admission\<close>

definition admit :: "nat \<Rightarrow> dupe \<Rightarrow> dupe result" where
  "admit t d =
     (if df_state d \<in> {LNew, LOpen} then Inr (d\<lparr>df_active := (t, df_epoch d) # df_active d\<rparr>) else Inl QueueError)"

text \<open>\<open>_filter_operation_scope\<close>: while the membership call of a request runs, the request is marked.\<close>

definition filter_enter :: "nat \<Rightarrow> dupe \<Rightarrow> dupe" where
  "filter_enter request d = d\<lparr>df_filter_requests := request # df_filter_requests d\<rparr>"

definition filter_leave :: "nat \<Rightarrow> dupe \<Rightarrow> dupe" where
  "filter_leave request d = d\<lparr>df_filter_requests := remove1 request (df_filter_requests d)\<rparr>"

definition leave :: "nat \<Rightarrow> nat \<Rightarrow> dupe \<Rightarrow> dupe" where
  "leave t epoch d = d\<lparr>df_active := remove1 (t, epoch) (df_active d)\<rparr>"

definition reservation_current :: "reservation \<Rightarrow> dupe \<Rightarrow> bool" where
  "reservation_current rv d \<longleftrightarrow> rv_epoch rv = df_epoch d \<and> rv \<in> set (df_reservations d)"

definition discard_reservation :: "reservation \<Rightarrow> dupe \<Rightarrow> dupe" where
  "discard_reservation rv d = d\<lparr>df_reservations := filter (\<lambda>r. rv_id r \<noteq> rv_id rv) (df_reservations d)\<rparr>"

text \<open>
  Settling an exact reservation: \<open>None\<close> when there is nothing left to do, which is the case for a reservation that
  is no longer current, and for anything but a rollback once a transition has stopped admission.
\<close>

definition admit_settlement :: "bool \<Rightarrow> nat \<Rightarrow> reservation \<Rightarrow> dupe \<Rightarrow> dupe \<times> bool" where
  "admit_settlement rollback t rv d =
     (if \<not> reservation_current rv d then (d, False)
      else if df_state d \<notin> {LNew, LOpen} \<and> \<not> rollback then (discard_reservation rv d, False)
      else (d\<lparr>df_active := (t, rv_epoch rv) # df_active d\<rparr>, True))"

section \<open>The transactional protocol\<close>

datatype decision = Observational | Seen | Reserved reservation

text \<open>The locked section before the membership call: the exact request may be inside one already.\<close>

definition seen_begin :: "nat \<Rightarrow> bytes \<Rightarrow> nat \<Rightarrow> dupe \<Rightarrow> (reservation option, dupe) outcome" where
  "seen_begin request fingerprint owner d =
     (if request \<in> set (df_filter_requests d) then (Inr None, d)
      else if (\<exists>r \<in> set (df_reservations d). rv_owner r = owner) then (Inl RuntimeError, d)
      else
        (let rv = \<lparr>rv_id = df_next d, rv_fingerprint = fingerprint, rv_epoch = df_epoch d, rv_owner = owner, rv_request = request\<rparr> in
         (Inr (Some rv), d\<lparr>df_next := Suc (df_next d), df_reservations := df_reservations d @ [rv]\<rparr>)))"

text \<open>A transient failure of the backend degrades to a miss; an unsupported backend is an error.\<close>

definition transient :: "exn \<Rightarrow> bool" where
  "transient e \<longleftrightarrow> e = BackendConnectionError \<or> e = CircuitBreakerOpenError"

definition seen_for_scheduler :: "'f filter_ops \<Rightarrow> bytes \<Rightarrow> dupe \<Rightarrow> 'f \<Rightarrow> (bool, 'f) outcome" where
  "seen_for_scheduler F fingerprint d f =
     (if fingerprint \<in> set (df_volatile d) then (Inr True, f)
      else case fo_contains F fingerprint f of
        (Inr seen, f') \<Rightarrow> (Inr seen, f')
      | (Inl e, f') \<Rightarrow>
          (if e = NotImplementedError then Inl RuntimeError else if transient e then Inr False else Inl e, f'))"

definition request_seen_with_reservation ::
  "'f filter_ops \<Rightarrow> nat \<Rightarrow> nat \<Rightarrow> bytes result \<Rightarrow> nat \<Rightarrow> dupe \<times> 'f \<Rightarrow> (decision, dupe \<times> 'f) outcome" where
  "request_seen_with_reservation F t request fp owner s =
     (case s of (d, f) \<Rightarrow>
        (case admit t d of
           Inl e \<Rightarrow> (Inl e, d, f)
         | Inr d1 \<Rightarrow>
             (case fp of
                Inl e \<Rightarrow> (Inl e, leave t (df_epoch d) d1, f)
              | Inr fingerprint \<Rightarrow>
                  (case seen_begin request fingerprint owner d1 of
                     (Inl e, d2) \<Rightarrow> (Inl e, leave t (df_epoch d) d2, f)
                   | (Inr None, d2) \<Rightarrow> (Inr Observational, leave t (df_epoch d) d2, f)
                   | (Inr (Some rv), d2) \<Rightarrow>
                       (case seen_for_scheduler F fingerprint d2 f of
                          (Inl e, f') \<Rightarrow> (Inl e, leave t (df_epoch d) (discard_reservation rv d2), f')
                        | (Inr True, f') \<Rightarrow> (Inr Seen, leave t (df_epoch d) (discard_reservation rv d2), f')
                        | (Inr False, f') \<Rightarrow> (Inr (Reserved rv), leave t (df_epoch d) d2, f'))))))"

text \<open>\<open>commit_reservation\<close>: a full filter or a transient failure leaves the item unmarked.\<close>

definition commit_reservation ::
  "'f filter_ops \<Rightarrow> nat \<Rightarrow> reservation \<Rightarrow> dupe \<times> 'f \<Rightarrow> (unit, dupe \<times> 'f) outcome" where
  "commit_reservation F t rv s =
     (case s of (d, f) \<Rightarrow>
        (case admit_settlement False t rv d of
           (d1, False) \<Rightarrow> (Inr (), d1, f)
         | (d1, True) \<Rightarrow>
             (case fo_add F (rv_fingerprint rv) f of (r, f') \<Rightarrow>
                ((case r of
                    Inr _ \<Rightarrow> Inr ()
                  | Inl e \<Rightarrow> if e = FilterFull \<or> transient e then Inr () else Inl e),
                 leave t (rv_epoch rv) (discard_reservation rv d1), f'))))"

definition volatile_add :: "bytes \<Rightarrow> nat \<Rightarrow> bytes list \<Rightarrow> bytes list" where
  "volatile_add fingerprint limit xs =
     (if fingerprint \<in> set xs then remove1 fingerprint xs @ [fingerprint]
      else (if limit \<le> length xs then tl xs else xs) @ [fingerprint])"

definition commit_volatile_reservation ::
  "nat \<Rightarrow> reservation \<Rightarrow> dupe \<times> 'f \<Rightarrow> (unit, dupe \<times> 'f) outcome" where
  "commit_volatile_reservation t rv s =
     (case s of (d, f) \<Rightarrow>
        (case admit_settlement False t rv d of
           (d1, False) \<Rightarrow> (Inr (), d1, f)
         | (d1, True) \<Rightarrow>
             (Inr (), leave t (rv_epoch rv) (discard_reservation rv
                (d1\<lparr>df_volatile := volatile_add (rv_fingerprint rv) (df_volatile_limit d1) (df_volatile d1)\<rparr>)), f)))"

definition rollback_reservation :: "nat \<Rightarrow> reservation \<Rightarrow> dupe \<times> 'f \<Rightarrow> (unit, dupe \<times> 'f) outcome" where
  "rollback_reservation t rv s =
     (case s of (d, f) \<Rightarrow>
        (case admit_settlement True t rv d of
           (d1, False) \<Rightarrow> (Inr (), d1, f)
         | (d1, True) \<Rightarrow> (Inr (), leave t (rv_epoch rv) (discard_reservation rv d1), f)))"

definition rollback_reservation_intent :: "nat \<Rightarrow> dupe \<Rightarrow> dupe" where
  "rollback_reservation_intent owner d =
     (case filter (\<lambda>r. rv_owner r = owner) (df_reservations d) of [] \<Rightarrow> d | rv # _ \<Rightarrow> discard_reservation rv d)"

section \<open>Retry allowances\<close>

definition reserve_slot :: "dupe \<Rightarrow> dupe option" where
  "reserve_slot d =
     (if df_allowance_limit d \<le> length (df_allowances d) + df_slots d then None else Some (d\<lparr>df_slots := Suc (df_slots d)\<rparr>))"

definition release_slot :: "dupe \<Rightarrow> dupe" where
  "release_slot d = d\<lparr>df_slots := df_slots d - 1\<rparr>"

definition consume_allowance :: "bytes \<Rightarrow> dupe \<Rightarrow> dupe option" where
  "consume_allowance fingerprint d =
     (if fingerprint \<in> set (df_allowances d)
      then Some (d\<lparr>df_allowances := remove1 fingerprint (df_allowances d), df_slots := Suc (df_slots d)\<rparr>) else None)"

text \<open>The slot of the caller, if it has one, becomes the allowance; otherwise a full ledger refuses.\<close>

definition grant_allowance :: "bytes \<Rightarrow> bool \<Rightarrow> dupe \<Rightarrow> dupe" where
  "grant_allowance fingerprint reserved_slot d =
     (if fingerprint \<in> set (df_allowances d) then
        (let d' = d\<lparr>df_allowances := remove1 fingerprint (df_allowances d) @ [fingerprint]\<rparr> in
         if reserved_slot then release_slot d' else d')
      else if reserved_slot then (release_slot d)\<lparr>df_allowances := df_allowances d @ [fingerprint]\<rparr>
      else if df_allowance_limit d \<le> length (df_allowances d) + df_slots d then d
      else d\<lparr>df_allowances := df_allowances d @ [fingerprint]\<rparr>)"

section \<open>The boolean protocol\<close>

text \<open>
  What one check found: a duplicate, a miss without a marker, or a miss whose marker (or allowance) this
  invocation owns, with its recovery slot.
\<close>

datatype legacy = Duplicate | Unmarked | Owned

text \<open>
  The part of \<open>_request_seen_unlocked\<close> before the membership call, in one locked section each: the answer, or
  which call to make.
\<close>

datatype legacy_plan = Answer legacy | Probe | Marker

definition legacy_plan :: "bytes \<Rightarrow> dupe \<Rightarrow> legacy_plan \<times> dupe" where
  "legacy_plan fingerprint d =
     (if fingerprint \<in> set (df_volatile d) then (Answer Duplicate, d)
      else case consume_allowance fingerprint d of
        Some d' \<Rightarrow> (Answer Owned, d')
      | None \<Rightarrow> (case reserve_slot d of None \<Rightarrow> (Probe, d) | Some d' \<Rightarrow> (Marker, d')))"

definition legacy_probe :: "bool result \<Rightarrow> legacy result" where
  "legacy_probe r =
     (case r of
        Inr seen \<Rightarrow> Inr (if seen then Duplicate else Unmarked)
      | Inl e \<Rightarrow> if e = NotImplementedError then Inl RuntimeError else if transient e then Inr Unmarked else Inl e)"

text \<open>The first receipt of a request that is not being settled, and for a handoff one this thread may take.\<close>

definition select_pending :: "nat \<Rightarrow> dupe \<Rightarrow> receipt option" where
  "select_pending request d = List.find (\<lambda>c. rc_request c = request \<and> \<not> rc_settling c) (df_pending d)"

definition select_handoff :: "nat \<Rightarrow> nat \<Rightarrow> dupe \<Rightarrow> receipt option" where
  "select_handoff t request d =
     List.find (\<lambda>c. rc_request c = request \<and> \<not> rc_settling c \<and> rc_consumer c \<in> {None, Some t}) (df_handoffs d)"

text \<open>
  After \<open>add\<close>: the slot is kept by a marker that was written. An exception that leaves open whether the
  marker was written turns the slot into an allowance, unless the first pending receipt of the request has the
  same fingerprint and a slot (\<open>_compensate_interrupted_legacy_add_locked\<close>).
\<close>

definition compensate_interrupted_legacy_add :: "nat \<Rightarrow> bytes \<Rightarrow> dupe \<Rightarrow> dupe" where
  "compensate_interrupted_legacy_add request fingerprint d =
     (case select_pending request d of
        Some c \<Rightarrow> if rc_fingerprint c = fingerprint \<and> rc_slot c then d else grant_allowance fingerprint True d
      | None \<Rightarrow> grant_allowance fingerprint True d)"

definition legacy_marked :: "nat \<Rightarrow> bytes \<Rightarrow> bool result \<Rightarrow> dupe \<Rightarrow> (legacy, dupe) outcome" where
  "legacy_marked request fingerprint r d =
     (case r of
        Inr added \<Rightarrow> if added then (Inr Owned, d) else (Inr Duplicate, release_slot d)
      | Inl e \<Rightarrow>
          if e = NotImplementedError then (Inl RuntimeError, release_slot d)
          else if e = FilterFull \<or> transient e then (Inr Unmarked, release_slot d)
          else (Inl e, compensate_interrupted_legacy_add request fingerprint d))"

definition publish_receipt :: "nat \<Rightarrow> bytes \<Rightarrow> dupe \<Rightarrow> dupe" where
  "publish_receipt request fingerprint d =
     d\<lparr>df_next := Suc (df_next d),
       df_pending := df_pending d @ [\<lparr>rc_id = df_next d, rc_fingerprint = fingerprint, rc_epoch = df_epoch d, rc_request = request,
         rc_consumer = None, rc_settling = False, rc_slot = True\<rparr>]\<rparr>"

definition legacy_finish :: "nat \<Rightarrow> bytes \<Rightarrow> legacy result \<Rightarrow> dupe \<Rightarrow> (bool, dupe) outcome" where
  "legacy_finish request fingerprint r d =
     (case r of
        Inl e \<Rightarrow> (Inl e, d)
      | Inr Duplicate \<Rightarrow> (Inr True, d)
      | Inr Unmarked \<Rightarrow> (Inr False, d)
      | Inr Owned \<Rightarrow> (Inr False, publish_receipt request fingerprint d))"

definition request_seen ::
  "'f filter_ops \<Rightarrow> nat \<Rightarrow> nat \<Rightarrow> bytes result \<Rightarrow> dupe \<times> 'f \<Rightarrow> (bool, dupe \<times> 'f) outcome" where
  "request_seen F t request fp s =
     (case s of (d, f) \<Rightarrow>
        (case admit t d of
           Inl e \<Rightarrow> (Inl e, d, f)
         | Inr d1 \<Rightarrow>
             (case fp of
                Inl e \<Rightarrow> (Inl e, leave t (df_epoch d) d1, f)
              | Inr fingerprint \<Rightarrow>
                  if request \<in> set (df_filter_requests d1) then (Inr True, leave t (df_epoch d) d1, f)
                  else
                    (case (case legacy_plan fingerprint d1 of
                             (Answer a, d2) \<Rightarrow> ((Inr a, d2), f)
                           | (Probe, d2) \<Rightarrow> (case fo_contains F fingerprint f of (r, f') \<Rightarrow> ((legacy_probe r, d2), f'))
                           | (Marker, d2) \<Rightarrow> (case fo_add F fingerprint f of (r, f') \<Rightarrow> (legacy_marked request fingerprint r d2, f'))) of
                       ((r, d3), f') \<Rightarrow>
                         (case legacy_finish request fingerprint r d3 of (b, d4) \<Rightarrow> (b, leave t (df_epoch d) d4, f')))))) "

definition drop_receipt :: "nat \<Rightarrow> receipt list \<Rightarrow> receipt list" where
  "drop_receipt i cs = filter (\<lambda>c. rc_id c \<noteq> i) cs"

definition consume_reservation :: "nat \<Rightarrow> nat \<Rightarrow> dupe \<Rightarrow> bool \<times> dupe" where
  "consume_reservation t request d =
     (case select_pending request d of
        None \<Rightarrow> (False, d)
      | Some c \<Rightarrow>
          if rc_epoch c \<noteq> df_epoch d then (False, d)
          else (True, d\<lparr>df_pending := drop_receipt (rc_id c) (df_pending d), df_retired := df_retired d - {request},
                        df_handoffs := df_handoffs d @ [c\<lparr>rc_consumer := Some t\<rparr>]\<rparr>))"

text \<open>\<open>_remove_legacy_reservation_locked\<close>: the receipt goes, and its slot if it still has one.\<close>

definition remove_receipt :: "receipt \<Rightarrow> dupe \<Rightarrow> dupe" where
  "remove_receipt c d =
     (let d' = d\<lparr>df_pending := drop_receipt (rc_id c) (df_pending d), df_handoffs := drop_receipt (rc_id c) (df_handoffs d)\<rparr> in
      if rc_slot c then release_slot d' else d')"

definition settle_reservation :: "nat \<Rightarrow> nat \<Rightarrow> dupe \<Rightarrow> bool \<times> dupe" where
  "settle_reservation t request d =
     (case select_handoff t request d of
        None \<Rightarrow> (False, d)
      | Some c \<Rightarrow> if rc_epoch c \<noteq> df_epoch d then (False, d) else (True, remove_receipt c d))"

definition mark_settling :: "nat \<Rightarrow> dupe \<Rightarrow> dupe" where
  "mark_settling i d =
     (let m = map (\<lambda>c. if rc_id c = i then c\<lparr>rc_settling := True\<rparr> else c) in
      d\<lparr>df_pending := m (df_pending d), df_handoffs := m (df_handoffs d)\<rparr>)"

text \<open>The choice of \<open>forget\<close>: the handoff of this thread, else a pending receipt, unless the request was retired.\<close>

definition forget_select :: "nat \<Rightarrow> nat \<Rightarrow> dupe \<Rightarrow> receipt option" where
  "forget_select t request d =
     (case (case select_handoff t request d of
              Some c \<Rightarrow> Some c
            | None \<Rightarrow> if request \<in> df_retired d then None else select_pending request d) of
        None \<Rightarrow> None
      | Some c \<Rightarrow> if rc_epoch c = df_epoch d then Some c else None)"

text \<open>After \<open>remove\<close>: a marker that may still be there leaves an allowance, then the receipt is settled.\<close>

definition forget_settle :: "receipt \<Rightarrow> unit result \<Rightarrow> dupe \<Rightarrow> (unit, dupe) outcome" where
  "forget_settle c r d =
     (case r of
        Inr _ \<Rightarrow> (Inr (), remove_receipt c d)
      | Inl e \<Rightarrow>
          (if e = NotImplementedError \<or> transient e then Inr () else Inl e,
           remove_receipt (c\<lparr>rc_slot := False\<rparr>) (grant_allowance (rc_fingerprint c) (rc_slot c) d)))"

definition forget ::
  "'f filter_ops \<Rightarrow> nat \<Rightarrow> nat \<Rightarrow> dupe \<times> 'f \<Rightarrow> (unit, dupe \<times> 'f) outcome" where
  "forget F t request s =
     (case s of (d, f) \<Rightarrow>
        if df_state d = LClosed then (Inl RuntimeError, d, f)
        else case forget_select t request d of
          None \<Rightarrow> (Inr (), d, f)
        | Some c \<Rightarrow>
            if df_state d \<notin> {LNew, LOpen} then (Inr (), remove_receipt c d, f)
            else
              (let d1 = (mark_settling (rc_id c) d)\<lparr>df_active := (t, rc_epoch c) # df_active d\<rparr> in
               case fo_remove F (rc_fingerprint c) f of (r, f') \<Rightarrow>
                 (case forget_settle c r d1 of (u, d2) \<Rightarrow> (u, leave t (rc_epoch c) d2, f'))))"

text \<open>The weak reference of a request died: its receipts go, with their slots.\<close>

definition request_collected :: "nat \<Rightarrow> dupe \<Rightarrow> dupe" where
  "request_collected request d =
     (let gone = filter (\<lambda>c. rc_request c = request \<and> rc_slot c) (df_pending d @ df_handoffs d) in
      d\<lparr>df_pending := filter (\<lambda>c. rc_request c \<noteq> request) (df_pending d),
        df_handoffs := filter (\<lambda>c. rc_request c \<noteq> request) (df_handoffs d),
        df_slots := df_slots d - length gone, df_retired := df_retired d - {request}\<rparr>)"

section \<open>Lifecycle\<close>

text \<open>\<open>_clear_retry_allowances\<close> with its defaults: the epoch ends and everything of it is retired.\<close>

definition retire_epoch :: "dupe \<Rightarrow> dupe" where
  "retire_epoch d =
     d\<lparr>df_allowances := [], df_slots := 0,
       df_retired := df_retired d \<union> rc_request ` set (df_pending d @ df_handoffs d),
       df_reservations := [], df_pending := [], df_handoffs := [], df_volatile := [], df_epoch := Suc (df_epoch d)\<rparr>"

text \<open>
  A transition first changes the state, then waits without a bound on its own: for the admitted
  operations to leave, until a deadline. The waiting thread may not be inside an operation itself.
\<close>

definition wait_refused :: "nat \<Rightarrow> dupe \<Rightarrow> bool" where
  "wait_refused t d \<longleftrightarrow> t \<in> fst ` set (df_active d)"

definition quiescent :: "dupe \<Rightarrow> bool" where
  "quiescent d \<longleftrightarrow> df_active d = []"

text \<open>\<open>open\<close>: \<open>Inr False\<close> when it is open for this spider already.\<close>

definition open_begin :: "nat \<Rightarrow> nat \<Rightarrow> nat option \<Rightarrow> dupe \<Rightarrow> (bool, dupe) outcome" where
  "open_begin t owner spider d =
     (if df_state d \<in> {LClosed, LClosing, LOpening, LClearing} then (Inl RuntimeError, d)
      else if df_state d = LOpen then (if spider = df_spider d then Inr False else Inl RuntimeError, d)
      else if wait_refused t d then (Inl RuntimeError, d\<lparr>df_open_owner := None, df_close_requested := False\<rparr>)
      else (Inr True, d\<lparr>df_state := LOpening, df_open_owner := Some owner, df_close_requested := False\<rparr>))"

definition open_timeout :: "dupe \<Rightarrow> dupe" where
  "open_timeout d = d\<lparr>df_open_owner := None, df_state := LNew\<rparr>"

text \<open>
  After the filter's \<open>open\<close> (and \<open>clear\<close>): the state is published, unless another caller took the transition over.
\<close>

definition open_end :: "nat \<Rightarrow> nat option \<Rightarrow> bool \<Rightarrow> dupe \<Rightarrow> (unit, dupe) outcome" where
  "open_end owner spider clear_on_open d =
     (let d1 = (if clear_on_open then (retire_epoch d)\<lparr>df_epoch := df_epoch d\<rparr> else d) in
      if df_open_owner d1 \<noteq> Some owner then (Inl RuntimeError, d1)
      else (Inr (), d1\<lparr>df_spider := spider, df_open_owner := None, df_state := LOpen\<rparr>))"

definition clear_begin :: "nat \<Rightarrow> dupe \<Rightarrow> (lifecycle, dupe) outcome" where
  "clear_begin t d =
     (if df_state d \<in> {LClosed, LClosing, LOpening, LClearing} \<or> wait_refused t d then (Inl RuntimeError, d)
      else (Inr (df_state d), d\<lparr>df_state := LClearing, df_clear_thread := Some t\<rparr>))"

definition clear_timeout :: "lifecycle \<Rightarrow> dupe \<Rightarrow> dupe" where
  "clear_timeout prior d = d\<lparr>df_clear_thread := None, df_state := prior\<rparr>"

definition clear_end :: "lifecycle \<Rightarrow> bool \<Rightarrow> dupe \<Rightarrow> dupe" where
  "clear_end prior succeeded d =
     (let d1 = (if succeeded then retire_epoch d else d) in
      d1\<lparr>df_clear_thread := None, df_state := (if df_close_requested d1 then LClosing else prior)\<rparr>)"

definition owners_aliased :: "dupe \<Rightarrow> nat \<Rightarrow> nat \<Rightarrow> bool" where
  "owners_aliased d a b \<longleftrightarrow>
     a = b \<or> a = 0 \<and> b \<in> set (df_release_aliases d) \<or> b = 0 \<and> a \<in> set (df_release_aliases d)"

definition authorize_release_owner_alias :: "nat \<Rightarrow> dupe \<Rightarrow> dupe" where
  "authorize_release_owner_alias owner d =
     (if df_state d = LClosed \<or> owner \<in> set (df_release_aliases d) then d
      else d\<lparr>df_release_aliases := df_release_aliases d @ [owner]\<rparr>)"

text \<open>
  \<open>_reserve_release_locked\<close>: \<open>opening\<close> is the token of a failed opener that closes, \<open>alive\<close> whether the frame of the
  current opener still runs.
\<close>

definition reserve_release :: "nat \<Rightarrow> nat \<Rightarrow> nat option \<Rightarrow> bool \<Rightarrow> dupe \<Rightarrow> (bool, dupe) outcome" where
  "reserve_release owner t opening alive d =
     (if df_state d = LClosed then (Inr False, d)
      else if df_state d = LOpening \<and> \<not> (opening \<noteq> None \<and> df_open_owner d = opening) \<and> df_open_owner d \<noteq> None \<and> alive
      then (Inl RuntimeError, d)
      else
        (let d1 = (if df_state d = LOpening then d\<lparr>df_open_owner := None\<rparr> else d) in
         if df_clear_thread d1 = Some t \<or> wait_refused t d1 then (Inl RuntimeError, d1)
         else if df_release_owner d1 \<noteq> None \<and> \<not> owners_aliased d1 (the (df_release_owner d1)) owner then (Inl RuntimeError, d1)
         else
           (let d2 = (if df_release_owner d1 = None then d1\<lparr>df_release_owner := Some owner\<rparr> else d1) in
            if df_release_thread d2 \<noteq> None then
              (if df_release_thread d2 = Some t then Inr False else Inl RuntimeError, d2)
            else
              (Inr True, d2\<lparr>df_release_thread := Some t, df_close_requested := (df_state d2 = LClearing), df_spider := None,
                 df_state := LClosing\<rparr>))))"

text \<open>
  \<open>_close_locked\<close> after its waits: the filter is closed, then the manager released, each until it succeeded once;
  the outcomes of the two calls are arguments.
\<close>

definition close_callbacks :: "unit result \<Rightarrow> unit result \<Rightarrow> dupe \<Rightarrow> (unit, dupe) outcome" where
  "close_callbacks filter_close manager_release d =
     (let (e1, d1) =
        (if df_filter_released d then (None, d)
         else case filter_close of Inl e \<Rightarrow> (Some e, d) | Inr _ \<Rightarrow> (None, d\<lparr>df_filter_released := True\<rparr>));
          (e2, d2) =
        (if df_filter_released d1 \<and> df_owns_manager d1 \<and> \<not> df_manager_released d1
         then (case manager_release of
                 Inl e \<Rightarrow> (Some (case e1 of None \<Rightarrow> e | Some e' \<Rightarrow> e'), d1)
               | Inr _ \<Rightarrow> (e1, d1\<lparr>df_manager_released := True\<rparr>))
         else (e1, d1));
          d3 = (if df_filter_released d2 \<and> (\<not> df_owns_manager d2 \<or> df_manager_released d2)
                then d2\<lparr>df_close_requested := False, df_state := LClosed\<rparr> else d2) in
      (case e2 of None \<Rightarrow> Inr () | Some e \<Rightarrow> Inl e, d3))"

definition release_end :: "dupe \<Rightarrow> dupe" where
  "release_end d = d\<lparr>df_release_thread := None\<rparr>"

text \<open>
  The three transitions as one call each, when nothing else runs but the operations already admitted: those
  that do not leave before the deadline make the transition fail. Outcomes of \<open>filter.open\<close>, \<open>filter.close\<close> and of
  the release of the manager are arguments.
\<close>

definition dupe_clear :: "'f filter_ops \<Rightarrow> nat \<Rightarrow> dupe \<times> 'f \<Rightarrow> (unit, dupe \<times> 'f) outcome" where
  "dupe_clear F t s =
     (case s of (d, f) \<Rightarrow>
        (case clear_begin t d of
           (Inl e, d1) \<Rightarrow> (Inl e, d1, f)
         | (Inr prior, d1) \<Rightarrow>
             if \<not> quiescent d1 then (Inl BackendOperationTimeout, clear_timeout prior d1, f)
             else case fo_clear F f of
               (Inl e, f') \<Rightarrow> (Inl e, clear_end prior False d1, f')
             | (Inr _, f') \<Rightarrow> (Inr (), clear_end prior True d1, f')))"

definition run_reserved_release :: "unit result \<Rightarrow> unit result \<Rightarrow> dupe \<Rightarrow> (unit, dupe) outcome" where
  "run_reserved_release filter_close manager_release d =
     (if df_clear_thread d \<noteq> None \<or> \<not> quiescent d then (Inl BackendOperationTimeout, release_end d)
      else case close_callbacks filter_close manager_release (retire_epoch d) of (r, d') \<Rightarrow> (r, release_end d'))"

definition dupe_release ::
  "nat \<Rightarrow> nat \<Rightarrow> bool \<Rightarrow> unit result \<Rightarrow> unit result \<Rightarrow> dupe \<Rightarrow> (unit, dupe) outcome" where
  "dupe_release owner t alive filter_close manager_release d =
     (case reserve_release owner t None alive d of
        (Inl e, d1) \<Rightarrow> (Inl e, d1)
      | (Inr False, d1) \<Rightarrow> (Inr (), d1)
      | (Inr True, d1) \<Rightarrow> run_reserved_release filter_close manager_release d1)"

text \<open>A failed opener closes what it opened; what that raises is dropped.\<close>

definition dupe_open ::
  "'f filter_ops \<Rightarrow> ('f \<Rightarrow> (unit, 'f) outcome) \<Rightarrow> unit result \<Rightarrow> unit result \<Rightarrow> nat \<Rightarrow> nat \<Rightarrow> nat option \<Rightarrow> unit result
    \<Rightarrow> bool \<Rightarrow> dupe \<times> 'f \<Rightarrow> (unit, dupe \<times> 'f) outcome" where
  "dupe_open F filter_open filter_close manager_release t owner spider valid clear_on_open s =
     (case s of (d, f) \<Rightarrow>
        (case open_begin t owner spider d of
           (Inl e, d1) \<Rightarrow> (Inl e, d1, f)
         | (Inr False, d1) \<Rightarrow> (Inr (), d1, f)
         | (Inr True, d1) \<Rightarrow>
             if \<not> quiescent d1 then (Inl BackendOperationTimeout, open_timeout d1, f)
             else
               (let d2 = retire_epoch d1 in
                case (case valid of
                        Inl e \<Rightarrow> (Inl e, f)
                      | Inr _ \<Rightarrow>
                          (case filter_open f of
                             (Inl e, f1) \<Rightarrow> (Inl e, f1)
                           | (Inr _, f1) \<Rightarrow> if clear_on_open then fo_clear F f1 else (Inr (), f1))) of
                  (Inr _, f2) \<Rightarrow> (case open_end owner spider clear_on_open d2 of (r, d3) \<Rightarrow> (r, d3, f2))
                | (Inl e, f2) \<Rightarrow>
                    (case reserve_release 0 t (Some owner) True d2 of
                       (Inr True, d3) \<Rightarrow> (Inl e, snd (run_reserved_release filter_close manager_release d3), f2)
                     | (_, d3) \<Rightarrow> (Inl e, d3, f2)))))"

end
