(* ===== verification/Dupe_Protocol.thy ===== *)
theory Dupe_Protocol
  imports Dupe_Filter Memory_Filter
begin

text \<open>
  The transactional protocol of \<open>Dupe_Filter\<close> over an exact membership filter: whatever scheduler calls, pushes and
  clears are interleaved, a request is a duplicate only if the push of its fingerprint was committed since
  the last clear, and is one if the marker was written.
\<close>

section \<open>Exact filters\<close>

locale exact_filter = membership_filter +
  fixes clear :: "'f \<Rightarrow> (unit, 'f) outcome"
  assumes add_exact: "wf f \<Longrightarrow> add x f = (r, f') \<Longrightarrow> reports y f' \<Longrightarrow> y = x \<or> reports y f"
    and contains_exact: "wf f \<Longrightarrow> contains x f = (r, f') \<Longrightarrow> reports y f' \<Longrightarrow> reports y f"
    and clear_ok: "wf f \<Longrightarrow> clear f = (Inr u, f') \<Longrightarrow> wf f' \<and> \<not> reports y f'"
    and clear_failed: "wf f \<Longrightarrow> clear f = (Inl e, f') \<Longrightarrow> wf f' \<and> (reports y f' \<longrightarrow> reports y f)"

definition memory_ops :: "memory_filter filter_ops" where
  "memory_ops =
     \<lparr>fo_add = memory_add, fo_contains = memory_contains, fo_remove = (\<lambda>x f. (Inr (), snd (memory_remove x f))),
      fo_clear = (\<lambda>f. (Inr (), memory_clear f))\<rparr>"

interpretation memory_exact: exact_filter "fo_add memory_ops" "fo_contains memory_ops" "\<lambda>x f. x \<in> set (mf_data f)"
  "\<lambda>f. memory_wf f \<and> mf_maxsize f = None" "fo_clear memory_ops"
proof unfold_locales
  fix f f' :: memory_filter and x y :: bytes and r and u :: unit and e
  assume wf: "memory_wf f \<and> mf_maxsize f = None"
  show "(x \<in> set (mf_data f)) = (fst (fo_contains memory_ops x f) = Inr True)"
    by (simp add: memory_ops_def memory_contains_def)
  show "x \<in> set (mf_data f') \<and> (b \<longleftrightarrow> x \<notin> set (mf_data f))" if "fo_add memory_ops x f = (Inr b, f')" for b
    using memory.add_ok [OF wf, of x b f'] that by (simp add: memory_ops_def)
  show "(memory_wf f' \<and> mf_maxsize f' = None) \<and> (\<forall>y. y \<in> set (mf_data f) \<longrightarrow> y \<in> set (mf_data f'))"
    if "fo_add memory_ops x f = (r, f')"
    using memory.add_keeps [OF wf, of x r f'] that by (simp add: memory_ops_def)
  show "(memory_wf f' \<and> mf_maxsize f' = None) \<and> (\<forall>y. y \<in> set (mf_data f) \<longrightarrow> y \<in> set (mf_data f'))"
    if "fo_contains memory_ops x f = (r, f')"
    using memory.contains_keeps [OF wf, of x r f'] that by (simp add: memory_ops_def)
  show "y = x \<or> y \<in> set (mf_data f)" if "fo_add memory_ops x f = (r, f')" "y \<in> set (mf_data f')"
    using that wf by (auto simp: memory_ops_def memory_add_def at_capacity_def split: if_splits)
  show "y \<in> set (mf_data f)" if "fo_contains memory_ops x f = (r, f')" "y \<in> set (mf_data f')"
    using that by (auto simp: memory_ops_def memory_contains_def split: if_splits)
  show "(memory_wf f' \<and> mf_maxsize f' = None) \<and> y \<notin> set (mf_data f')" if "fo_clear memory_ops f = (Inr u, f')"
    using that wf by (auto simp: memory_ops_def memory_clear_def memory_wf_def)
  show "(memory_wf f' \<and> mf_maxsize f' = None) \<and> (y \<in> set (mf_data f') \<longrightarrow> y \<in> set (mf_data f))"
    if "fo_clear memory_ops f = (Inl e, f')"
    using that by (simp add: memory_ops_def)
qed

section \<open>Runs of the transactional protocol\<close>

text \<open>
  The calls of a scheduler, in any order. \<open>tx_tried\<close> collects the fingerprints whose commit was carried out, and \<open>tx_marked\<close>
  those of them for which the filter's \<open>add\<close> returned, since the last clear.
\<close>

datatype tx_event =
    Check nat nat bytes nat
  | Commit nat reservation
  | CommitVolatile nat reservation
  | Rollback nat reservation
  | RollbackIntent nat
  | Clear nat

record 'f tx =
  tx_dupe :: dupe
  tx_filter :: 'f
  tx_tried :: "bytes set"
  tx_marked :: "bytes set"

definition carried_out :: "reservation \<Rightarrow> dupe \<Rightarrow> bool" where
  "carried_out rv d \<longleftrightarrow> reservation_current rv d \<and> df_state d \<in> {LNew, LOpen}"

fun tx_step :: "'f filter_ops \<Rightarrow> tx_event \<Rightarrow> 'f tx \<Rightarrow> 'f tx" where
  "tx_step F (Check t request x owner) s =
     (case request_seen_with_reservation F t request (Inr x) owner (tx_dupe s, tx_filter s) of
        (_, d, f) \<Rightarrow> s\<lparr>tx_dupe := d, tx_filter := f\<rparr>)"
| "tx_step F (Commit t rv) s =
     (case commit_reservation F t rv (tx_dupe s, tx_filter s) of
        (_, d, f) \<Rightarrow>
          s\<lparr>tx_dupe := d, tx_filter := f,
            tx_tried := (if carried_out rv (tx_dupe s) then insert (rv_fingerprint rv) (tx_tried s) else tx_tried s),
            tx_marked := (if carried_out rv (tx_dupe s) \<and> \<not> isl (fst (fo_add F (rv_fingerprint rv) (tx_filter s)))
                          then insert (rv_fingerprint rv) (tx_marked s) else tx_marked s)\<rparr>)"
| "tx_step F (CommitVolatile t rv) s =
     (case commit_volatile_reservation t rv (tx_dupe s, tx_filter s) of
        (_, d, f) \<Rightarrow>
          s\<lparr>tx_dupe := d, tx_filter := f,
            tx_tried := (if carried_out rv (tx_dupe s) then insert (rv_fingerprint rv) (tx_tried s) else tx_tried s)\<rparr>)"
| "tx_step F (Rollback t rv) s =
     (case rollback_reservation t rv (tx_dupe s, tx_filter s) of (_, d, f) \<Rightarrow> s\<lparr>tx_dupe := d, tx_filter := f\<rparr>)"
| "tx_step F (RollbackIntent owner) s = s\<lparr>tx_dupe := rollback_reservation_intent owner (tx_dupe s)\<rparr>"
| "tx_step F (Clear t) s =
     (case dupe_clear F t (tx_dupe s, tx_filter s) of
        (r, d, f) \<Rightarrow>
          s\<lparr>tx_dupe := d, tx_filter := f,
            tx_tried := (if \<not> isl r then {} else tx_tried s), tx_marked := {}\<rparr>)"

definition tx_run :: "'f filter_ops \<Rightarrow> tx_event list \<Rightarrow> 'f tx \<Rightarrow> 'f tx" where
  "tx_run F evs s = fold (tx_step F) evs s"

text \<open>No operation is in progress between the calls, and the filter has no markers but those tried.\<close>

definition tx_idle :: "dupe \<Rightarrow> bool" where
  "tx_idle d \<longleftrightarrow> df_state d \<in> {LNew, LOpen} \<and> df_active d = [] \<and> df_filter_requests d = [] \<and> \<not> df_close_requested d"

definition tx_inv :: "(bytes \<Rightarrow> 'f \<Rightarrow> bool) \<Rightarrow> ('f \<Rightarrow> bool) \<Rightarrow> 'f tx \<Rightarrow> bool" where
  "tx_inv reports sound s \<longleftrightarrow>
     tx_idle (tx_dupe s) \<and> sound (tx_filter s) \<and> set (df_volatile (tx_dupe s)) \<subseteq> tx_tried s
     \<and> (\<forall>x. reports x (tx_filter s) \<longrightarrow> x \<in> tx_tried s) \<and> (\<forall>x \<in> tx_marked s. reports x (tx_filter s))"

lemmas dupe_frame = admit_def leave_def seen_begin_def discard_reservation_def admit_settlement_def

lemma set_volatile_add: "set (volatile_add x n xs) \<subseteq> insert x (set xs)"
  by (cases xs) (auto simp: volatile_add_def dest: notin_set_remove1 [THEN contrapos_pp])

lemma rollback_intent_frame:
  "tx_idle (rollback_reservation_intent owner d) = tx_idle d"
  "df_volatile (rollback_reservation_intent owner d) = df_volatile d"
  by (simp_all add: rollback_reservation_intent_def discard_reservation_def tx_idle_def split: list.split)

context exact_filter
begin

lemma tx_inv_Check:
  assumes "tx_inv reports wf s" and "fo_contains F = contains"
  shows "tx_inv reports wf (tx_step F (Check t request x owner) s)"
proof -
  obtain r f' where c: "contains x (tx_filter s) = (r, f')" by fastforce
  have "wf (tx_filter s)" using assms(1) by (simp add: tx_inv_def)
  note keep = contains_keeps [OF this c] contains_exact [OF this c]
  have "tx_idle d \<and> df_volatile d = df_volatile (tx_dupe s) \<and> (f = tx_filter s \<or> f = f')"
    if "request_seen_with_reservation F t request (Inr x) owner (tx_dupe s, tx_filter s) = (q, d, f)" for q d f
    using that assms c
    by (auto simp: request_seen_with_reservation_def dupe_frame tx_inv_def tx_idle_def seen_for_scheduler_def Let_def
        split: if_splits sum.splits bool.splits)
  then show ?thesis using assms(1) keep by (fastforce simp: tx_inv_def split: prod.splits)
qed

lemma tx_inv_Commit:
  assumes "tx_inv reports wf s" and "fo_add F = add"
  shows "tx_inv reports wf (tx_step F (Commit t rv) s)"
proof -
  obtain r f' where a: "add (rv_fingerprint rv) (tx_filter s) = (r, f')" by fastforce
  have w: "wf (tx_filter s)" using assms(1) by (simp add: tx_inv_def)
  note keep = add_keeps [OF w a] add_exact [OF w a]
  have ok: "reports (rv_fingerprint rv) f'" if "\<not> isl r" using add_ok [OF w, of "rv_fingerprint rv"] a that by (cases r) auto
  show ?thesis
  proof (cases "carried_out rv (tx_dupe s)")
    case True
    then show ?thesis using assms a keep ok
      by (auto simp: tx_inv_def tx_idle_def commit_reservation_def dupe_frame carried_out_def)
  next
    case False
    then show ?thesis using assms(1)
      by (auto simp: tx_inv_def tx_idle_def commit_reservation_def dupe_frame carried_out_def)
  qed
qed

lemma tx_inv_CommitVolatile:
  assumes "tx_inv reports wf s"
  shows "tx_inv reports wf (tx_step F (CommitVolatile t rv) s)"
  using assms set_volatile_add [of "rv_fingerprint rv" "df_volatile_limit (tx_dupe s)" "df_volatile (tx_dupe s)"]
  by (auto simp: tx_inv_def tx_idle_def commit_volatile_reservation_def dupe_frame carried_out_def)

lemma tx_inv_Rollback:
  assumes "tx_inv reports wf s"
  shows "tx_inv reports wf (tx_step F (Rollback t rv) s)"
    and "tx_inv reports wf (tx_step F (RollbackIntent owner) s)"
  using assms
  by (auto simp: tx_inv_def tx_idle_def rollback_reservation_def dupe_frame rollback_reservation_intent_def
      split: list.split)

lemma tx_inv_Clear:
  assumes "tx_inv reports wf s" and "fo_clear F = clear"
  shows "tx_inv reports wf (tx_step F (Clear t) s)"
proof -
  obtain r f' where c: "clear (tx_filter s) = (r, f')" by fastforce
  have w: "wf (tx_filter s)" using assms(1) by (simp add: tx_inv_def)
  show ?thesis
  proof (cases r)
    case (Inl e)
    then show ?thesis using assms c clear_failed [OF w, of e f']
      by (auto simp: tx_inv_def tx_idle_def dupe_clear_def clear_begin_def clear_end_def wait_refused_def quiescent_def)
  next
    case (Inr u)
    then show ?thesis using assms c clear_ok [OF w, of u f']
      by (auto simp: tx_inv_def tx_idle_def dupe_clear_def clear_begin_def clear_end_def wait_refused_def quiescent_def
          retire_epoch_def)
  qed
qed

lemma tx_inv_run:
  assumes "tx_inv reports wf s" and "fo_add F = add" and "fo_contains F = contains" and "fo_clear F = clear"
  shows "tx_inv reports wf (tx_run F evs s)"
  using assms(1) unfolding tx_run_def
proof (induction evs arbitrary: s)
  case (Cons ev evs)
  have "tx_inv reports wf (tx_step F ev s)"
    using Cons.prems assms(2-4)
    by (cases ev) (simp_all only: tx_inv_Check tx_inv_Commit tx_inv_CommitVolatile tx_inv_Rollback tx_inv_Clear)
  then show ?case using Cons.IH by simp
qed simp

lemma tx_decision:
  assumes "tx_inv reports wf s" and "fo_contains F = contains" and "owner \<notin> rv_owner ` set (df_reservations (tx_dupe s))"
    and "request_seen_with_reservation F t request (Inr x) owner (tx_dupe s, tx_filter s) = (r, d, f)"
  shows "(r = Inr Seen \<longrightarrow> x \<in> tx_tried s) \<and> (x \<in> tx_marked s \<longrightarrow> r = Inr Seen)
    \<and> (fst (contains x (tx_filter s)) = Inr False \<and> r \<noteq> Inr Seen
       \<longrightarrow> (\<exists>rv. r = Inr (Reserved rv) \<and> reservation_current rv d \<and> rv_fingerprint rv = x))"
proof -
  obtain q f' where c: "contains x (tx_filter s) = (q, f')" by fastforce
  have w: "wf (tx_filter s)" using assms(1) by (simp add: tx_inv_def)
  have rep: "reports x (tx_filter s) \<longleftrightarrow> q = Inr True" using reports_contains [OF w, of x] c by simp
  show ?thesis using assms c rep
    by (auto simp: request_seen_with_reservation_def dupe_frame tx_inv_def tx_idle_def seen_for_scheduler_def Let_def
        reservation_current_def split: if_splits sum.splits bool.splits)
qed

end

text \<open>
  C13. Deduplication by commit: over an exact filter, after any sequence of checks, commits, volatile commits,
  rollbacks (with any reservations, stale and repeated ones included) and clears, a request is declared a duplicate
  only if the push of its fingerprint was committed since the last clear or it was in the filter from the
  start. Whatever the filter recorded is declared a duplicate. Otherwise the caller gets a reservation of its own.
  So a push that fails or is rolled back leaves no marker, and a recorded request is never let through again.
\<close>

theorem dedup_decides_committed:
  assumes "exact_filter (fo_add F) (fo_contains F) reports sound (fo_clear F)"
    and "sound f" and "tx_idle d" and "df_volatile d = []" and "\<And>y. reports y f \<longleftrightarrow> y \<in> S"
    and "tx_run F evs \<lparr>tx_dupe = d, tx_filter = f, tx_tried = S, tx_marked = S\<rparr> = s"
    and "owner \<notin> rv_owner ` set (df_reservations (tx_dupe s))"
    and "request_seen_with_reservation F t request (Inr x) owner (tx_dupe s, tx_filter s) = (r, d', f')"
  shows "(r = Inr Seen \<longrightarrow> x \<in> tx_tried s) \<and> (x \<in> tx_marked s \<longrightarrow> r = Inr Seen)
    \<and> (fst (fo_contains F x (tx_filter s)) = Inr False \<and> r \<noteq> Inr Seen
       \<longrightarrow> (\<exists>rv. r = Inr (Reserved rv) \<and> reservation_current rv d' \<and> rv_fingerprint rv = x))"
proof -
  let ?s = "\<lparr>tx_dupe = d, tx_filter = f, tx_tried = S, tx_marked = S\<rparr>"
  have "tx_inv reports sound ?s" using assms(2-5) by (simp add: tx_inv_def)
  then have "tx_inv reports sound s"
    using exact_filter.tx_inv_run [OF assms(1), of ?s F evs] assms(6) by simp
  then show ?thesis using exact_filter.tx_decision [OF assms(1)] assms(7,8) by blast
qed

definition demo_reservation :: "nat \<Rightarrow> bytes \<Rightarrow> reservation" where
  "demo_reservation i x = \<lparr>rv_id = i, rv_fingerprint = x, rv_epoch = 0, rv_owner = i, rv_request = i\<rparr>"

definition demo_run :: "memory_filter tx" where
  "demo_run = tx_run memory_ops
     [Check 1 0 [1] 0, Check 1 1 [2] 1, Commit 1 (demo_reservation 0 [1]), Rollback 1 (demo_reservation 1 [2]),
      Commit 1 (demo_reservation 1 [2])]
     \<lparr>tx_dupe = dupe_init False, tx_filter = \<lparr>mf_maxsize = None, mf_data = []\<rparr>, tx_tried = {}, tx_marked = {}\<rparr>"

lemmas demo_simps = demo_reservation_def request_seen_with_reservation_def dupe_frame seen_for_scheduler_def memory_ops_def
  memory_contains_def memory_add_def at_capacity_def commit_reservation_def rollback_reservation_def carried_out_def
  reservation_current_def Let_def

lemma demo_run_eq:
  "demo_run = \<lparr>tx_dupe = (dupe_init False)\<lparr>df_next := 2\<rparr>, tx_filter = \<lparr>mf_maxsize = None, mf_data = [[1]]\<rparr>,
     tx_tried = {[1]}, tx_marked = {[1]}\<rparr>"
  by (simp add: demo_run_def tx_run_def demo_simps dupe_init_def)

theorem dedup_decides_committed_witness:
  "fst (request_seen_with_reservation memory_ops 1 7 (Inr [1]) 9 (tx_dupe demo_run, tx_filter demo_run)) = Inr Seen
    \<and> fst (request_seen_with_reservation memory_ops 1 7 (Inr [2]) 9 (tx_dupe demo_run, tx_filter demo_run)) \<noteq> Inr Seen"
proof -
  let ?c = "\<lambda>x. request_seen_with_reservation memory_ops 1 7 (Inr x) 9 (tx_dupe demo_run, tx_filter demo_run)"
  have "(fst (?c x) = Inr Seen \<longrightarrow> x \<in> tx_tried demo_run) \<and> (x \<in> tx_marked demo_run \<longrightarrow> fst (?c x) = Inr Seen)" for x
    using dedup_decides_committed [OF memory_exact.exact_filter_axioms _ _ _ _ demo_run_def [symmetric], of 9 1 7 x "fst (?c x)"
        "fst (snd (?c x))" "snd (snd (?c x))"]
    by (simp add: demo_run_eq dupe_init_def tx_idle_def memory_wf_def)
  from this [of "[1]"] this [of "[2]"] show ?thesis by (simp add: demo_run_eq)
qed

end
