(* ===== verification/Dupe_Ledger.thy ===== *)
theory Dupe_Ledger
  imports Dupe_Filter Memory_Filter "HOL-Library.Multiset"
begin

text \<open>
  The recovery ledger of the boolean protocol of \<open>Dupe_Filter\<close>, under every interleaving of threads. A marker is written
  only after a recovery slot was reserved; the slot is carried by the invocation, then by its receipt, and a failed
  push turns it into a retry allowance.
\<close>

section \<open>Interleavings\<close>

text \<open>
  What an admitted operation is doing between two locked sections: calling \<open>contains\<close>, calling \<open>add\<close> with a reserved
  slot, about to publish its receipt, or calling \<open>remove\<close> for a receipt.
\<close>

datatype phase = Probing | Marking nat bytes | Publishing nat bytes | Forgetting receipt

record flight =
  fl_thread :: nat
  fl_epoch :: nat
  fl_phase :: phase

type_synonym ledger = "dupe \<times> flight list"

definition launch :: "nat \<Rightarrow> nat \<Rightarrow> phase \<Rightarrow> flight list \<Rightarrow> flight list" where
  "launch t epoch p fs = \<lparr>fl_thread = t, fl_epoch = epoch, fl_phase = p\<rparr> # fs"

text \<open>
  The locked sections of \<open>request_seen\<close> (the plan, the outcome of \<open>add\<close>, the publication), of \<open>forget\<close> (selection, settlement)
  and of the scheduler's handoff, the death of a request, and the transitions: the state may change at
  any time, the epoch ends only when no operation is admitted.
\<close>

inductive ledger_step :: "ledger \<Rightarrow> ledger \<Rightarrow> bool" where
  answer: "admit t d = Inr d1 \<Longrightarrow> legacy_plan x d1 = (Answer Duplicate, d2)
    \<Longrightarrow> ledger_step (d, fs) (leave t (df_epoch d) d2, fs)"
| retry: "admit t d = Inr d1 \<Longrightarrow> legacy_plan x d1 = (Answer Owned, d2)
    \<Longrightarrow> ledger_step (d, fs) (d2, launch t (df_epoch d) (Publishing q x) fs)"
| probe: "admit t d = Inr d1 \<Longrightarrow> legacy_plan x d1 = (Probe, d2)
    \<Longrightarrow> ledger_step (d, fs) (d2, launch t (df_epoch d) Probing fs)"
| mark: "admit t d = Inr d1 \<Longrightarrow> legacy_plan x d1 = (Marker, d2)
    \<Longrightarrow> ledger_step (d, fs) (d2, launch t (df_epoch d) (Marking q x) fs)"
| probed: "\<lparr>fl_thread = t, fl_epoch = ep, fl_phase = Probing\<rparr> \<in> set fs
    \<Longrightarrow> ledger_step (d, fs) (leave t ep d, remove1 \<lparr>fl_thread = t, fl_epoch = ep, fl_phase = Probing\<rparr> fs)"
| marked: "\<lparr>fl_thread = t, fl_epoch = ep, fl_phase = Marking q x\<rparr> \<in> set fs \<Longrightarrow> legacy_marked q x r d = (Inr Owned, d1)
    \<Longrightarrow> ledger_step (d, fs)
          (d1, launch t ep (Publishing q x) (remove1 \<lparr>fl_thread = t, fl_epoch = ep, fl_phase = Marking q x\<rparr> fs))"
| unmarked: "\<lparr>fl_thread = t, fl_epoch = ep, fl_phase = Marking q x\<rparr> \<in> set fs \<Longrightarrow> legacy_marked q x r d = (a, d1) \<Longrightarrow> a \<noteq> Inr Owned
    \<Longrightarrow> ledger_step (d, fs) (leave t ep d1, remove1 \<lparr>fl_thread = t, fl_epoch = ep, fl_phase = Marking q x\<rparr> fs)"
| publish: "\<lparr>fl_thread = t, fl_epoch = ep, fl_phase = Publishing q x\<rparr> \<in> set fs
    \<Longrightarrow> ledger_step (d, fs)
          (leave t ep (publish_receipt q x d), remove1 \<lparr>fl_thread = t, fl_epoch = ep, fl_phase = Publishing q x\<rparr> fs)"
| handoff: "ledger_step (d, fs) (snd (consume_reservation t q d), fs)"
| settled: "ledger_step (d, fs) (snd (settle_reservation t q d), fs)"
| forget_late: "df_state d \<noteq> LClosed \<Longrightarrow> forget_select t q d = Some c \<Longrightarrow> df_state d \<notin> {LNew, LOpen}
    \<Longrightarrow> ledger_step (d, fs) (remove_receipt c d, fs)"
| forget_begin: "forget_select t q d = Some c \<Longrightarrow> df_state d \<in> {LNew, LOpen}
    \<Longrightarrow> ledger_step (d, fs)
          ((mark_settling (rc_id c) d)\<lparr>df_active := (t, rc_epoch c) # df_active d\<rparr>, launch t (rc_epoch c) (Forgetting c) fs)"
| forget_end: "\<lparr>fl_thread = t, fl_epoch = ep, fl_phase = Forgetting c\<rparr> \<in> set fs
    \<Longrightarrow> ledger_step (d, fs)
          (leave t ep (snd (forget_settle c r d)), remove1 \<lparr>fl_thread = t, fl_epoch = ep, fl_phase = Forgetting c\<rparr> fs)"
| collected: "\<forall>fl \<in> set fs. \<forall>c. fl_phase fl = Forgetting c \<longrightarrow> rc_request c \<noteq> q
    \<Longrightarrow> ledger_step (d, fs) (request_collected q d, fs)"
| transition: "ledger_step (d, fs) (d\<lparr>df_state := st\<rparr>, fs)"
| boundary: "quiescent d \<Longrightarrow> ledger_step (d, fs) (retire_epoch d, fs)"

inductive_cases ledger_stepE: "ledger_step s s'"

section \<open>The invariant\<close>

definition receipts :: "dupe \<Rightarrow> receipt list" where
  "receipts d = df_pending d @ df_handoffs d"

fun holds_slot :: "phase \<Rightarrow> bool" where
  "holds_slot (Marking _ _) = True"
| "holds_slot (Publishing _ _) = True"
| "holds_slot _ = False"

definition owned :: "ledger \<Rightarrow> nat" where
  "owned s = length (receipts (fst s)) + length (filter (\<lambda>fl. holds_slot (fl_phase fl)) (snd s))"

fun forgets :: "phase \<Rightarrow> nat list" where
  "forgets (Forgetting c) = [rc_id c]"
| "forgets _ = []"

text \<open>Slots cover their owners and the ledger is within its limit.\<close>

definition slots_inv :: "ledger \<Rightarrow> bool" where
  "slots_inv s \<longleftrightarrow>
     owned s \<le> df_slots (fst s) \<and> length (df_allowances (fst s)) + df_slots (fst s) \<le> df_allowance_limit (fst s)
     \<and> distinct (df_allowances (fst s))"

text \<open>Receipts are distinct objects, each with its slot.\<close>

definition receipts_inv :: "dupe \<Rightarrow> bool" where
  "receipts_inv d \<longleftrightarrow>
     distinct (map rc_id (receipts d)) \<and> (\<forall>c \<in> set (receipts d). rc_id c < df_next d \<and> rc_slot c)"

text \<open>Every admitted operation is counted, and a receipt is being settled by one \<open>forget\<close> at most.\<close>

definition flights_inv :: "ledger \<Rightarrow> bool" where
  "flights_inv s \<longleftrightarrow>
     mset (df_active (fst s)) = mset (map (\<lambda>fl. (fl_thread fl, fl_epoch fl)) (snd s))
     \<and> distinct (concat (map (forgets \<circ> fl_phase) (snd s)))
     \<and> (\<forall>fl \<in> set (snd s). \<forall>c. fl_phase fl = Forgetting c \<longrightarrow> c\<lparr>rc_settling := True\<rparr> \<in> set (receipts (fst s)))"

definition ledger_inv :: "ledger \<Rightarrow> bool" where
  "ledger_inv s \<longleftrightarrow> slots_inv s \<and> receipts_inv (fst s) \<and> flights_inv s"

subsection \<open>Lists of receipts and of flights\<close>

lemma length_drop_receipt:
  "distinct (map rc_id cs) \<Longrightarrow> c \<in> set cs \<Longrightarrow> Suc (length (drop_receipt (rc_id c) cs)) = length cs"
proof (induction cs)
  case (Cons a cs)
  show ?case
  proof (cases "rc_id a = rc_id c")
    case True
    then have "rc_id c \<notin> rc_id ` set cs" using Cons.prems(1) by simp
    then have "filter (\<lambda>c'. rc_id c' \<noteq> rc_id c) cs = cs" by (intro filter_True) (metis imageI)
    with True show ?thesis by (simp add: drop_receipt_def)
  next
    case False
    then have "c \<in> set cs" using Cons.prems(2) by auto
    with False Cons have "Suc (length (drop_receipt (rc_id c) cs)) = length cs" by auto
    with False show ?thesis by (simp add: drop_receipt_def)
  qed
qed simp

lemma same_receipt: "distinct (map rc_id cs) \<Longrightarrow> c \<in> set cs \<Longrightarrow> c' \<in> set cs \<Longrightarrow> rc_id c = rc_id c' \<Longrightarrow> c = c'"
  by (simp add: distinct_map inj_on_def)

lemma distinct_drop_receipt: "distinct (map rc_id cs) \<Longrightarrow> distinct (map rc_id (drop_receipt i cs))"
  by (simp add: drop_receipt_def distinct_map_filter)

lemma set_drop_receipt: "set (drop_receipt i cs) = {c \<in> set cs. rc_id c \<noteq> i}"
  by (auto simp: drop_receipt_def)

lemma mset_map_remove1: "x \<in> set xs \<Longrightarrow> mset (map g xs) = add_mset (g x) (mset (map g (remove1 x xs)))"
  by (induction xs) auto

lemma distinct_concat_remove1:
  "distinct (concat (map g xs)) \<Longrightarrow> distinct (concat (map g (remove1 x xs)))
    \<and> (x \<in> set xs \<longrightarrow> set (g x) \<inter> set (concat (map g (remove1 x xs))) = {})"
proof (induction xs)
  case (Cons a xs)
  have "set (concat (map g (remove1 x xs))) \<subseteq> set (concat (map g xs))" using set_remove1_subset [of x xs] by auto
  with Cons show ?case by (auto 0 3)
qed simp

lemma length_filter_remove1:
  "x \<in> set xs \<Longrightarrow> length (filter P xs) = length (filter P (remove1 x xs)) + (if P x then 1 else 0)"
  by (induction xs) auto

subsection \<open>Preservation\<close>

lemmas ledger_defs = ledger_inv_def slots_inv_def receipts_inv_def flights_inv_def owned_def receipts_def

lemma receipts_remove_receipt: "receipts (remove_receipt c d) = drop_receipt (rc_id c) (receipts d)"
  by (simp add: receipts_def remove_receipt_def Let_def release_slot_def drop_receipt_def)

lemma remove_receipt_frame:
  "df_allowances (remove_receipt c d) = df_allowances d" "df_allowance_limit (remove_receipt c d) = df_allowance_limit d"
  "df_active (remove_receipt c d) = df_active d" "df_next (remove_receipt c d) = df_next d"
  "df_slots (remove_receipt c d) = (if rc_slot c then df_slots d - 1 else df_slots d)"
  by (simp_all add: remove_receipt_def Let_def release_slot_def)

lemma inv_remove_receipt:
  assumes inv: "ledger_inv (d, fs)" and c: "c \<in> set (receipts d)" and s: "\<not> rc_settling c"
  shows "ledger_inv (remove_receipt c d, fs)"
proof -
  have r: "receipts_inv d" and sl: "slots_inv (d, fs)" and fl: "flights_inv (d, fs)"
    using inv by (simp_all add: ledger_inv_def)
  have d: "distinct (map rc_id (receipts d))" and slot: "rc_slot c" using r c by (simp_all add: receipts_inv_def)
  have "rc_id c' \<noteq> rc_id c" if "c'\<lparr>rc_settling := True\<rparr> \<in> set (receipts d)" for c'
    using same_receipt [OF d that c] s by auto
  then show ?thesis
    using r sl fl length_drop_receipt [OF d c] distinct_drop_receipt [OF d] slot
    by (auto simp: ledger_inv_def slots_inv_def receipts_inv_def flights_inv_def owned_def receipts_remove_receipt
        remove_receipt_frame set_drop_receipt)
qed

lemma select_pendingD:
  "select_pending q d = Some c \<Longrightarrow> c \<in> set (df_pending d) \<and> \<not> rc_settling c \<and> rc_request c = q"
  by (auto simp: select_pending_def find_Some_iff)

lemma select_handoffD:
  "select_handoff t q d = Some c \<Longrightarrow> c \<in> set (df_handoffs d) \<and> \<not> rc_settling c \<and> rc_request c = q"
  by (auto simp: select_handoff_def find_Some_iff)

lemma forget_selectD:
  "forget_select t q d = Some c \<Longrightarrow> c \<in> set (receipts d) \<and> \<not> rc_settling c"
  by (auto simp: forget_select_def receipts_def split: option.splits if_splits dest: select_pendingD select_handoffD)

lemma inv_settle: "ledger_inv (d, fs) \<Longrightarrow> ledger_inv (snd (settle_reservation t q d), fs)"
  by (auto simp: settle_reservation_def receipts_def split: option.split dest!: select_handoffD intro: inv_remove_receipt)

lemma inv_handoff:
  assumes "ledger_inv (d, fs)"
  shows "ledger_inv (snd (consume_reservation t q d), fs)"
proof (cases "select_pending q d")
  case None
  then show ?thesis using assms by (simp add: consume_reservation_def)
next
  case (Some c)
  show ?thesis
  proof (cases "rc_epoch c = df_epoch d")
    case False
    then show ?thesis using assms Some by (simp add: consume_reservation_def)
  next
    case True
    let ?d = "d\<lparr>df_pending := drop_receipt (rc_id c) (df_pending d), df_retired := df_retired d - {q},
      df_handoffs := df_handoffs d @ [c\<lparr>rc_consumer := Some t\<rparr>]\<rparr>"
    have c: "c \<in> set (df_pending d)" "\<not> rc_settling c" using select_pendingD [OF Some] by auto
    have inv: "slots_inv (d, fs)" "receipts_inv d" "flights_inv (d, fs)" using assms by (simp_all add: ledger_inv_def)
    then have d: "distinct (map rc_id (receipts d))" by (simp add: receipts_inv_def)
    then have dp: "distinct (map rc_id (df_pending d))" by (simp add: receipts_def)
    have "slots_inv (?d, fs)" using inv length_drop_receipt [OF dp c(1)] by (auto simp: slots_inv_def owned_def receipts_def)
    moreover have "receipts_inv ?d"
      using inv(2) d c distinct_drop_receipt [OF dp]
      by (auto simp: receipts_inv_def receipts_def set_drop_receipt)
    moreover have "flights_inv (?d, fs)"
    proof -
      have "rc_id c' \<noteq> rc_id c" if "c'\<lparr>rc_settling := True\<rparr> \<in> set (receipts d)" for c'
        using same_receipt [OF d that, of c] c by (auto simp: receipts_def)
      then show ?thesis using inv(3) by (auto simp: flights_inv_def receipts_def set_drop_receipt)
    qed
    ultimately show ?thesis using Some True by (simp add: consume_reservation_def ledger_inv_def)
  qed
qed

lemma inv_collected:
  assumes inv: "ledger_inv (d, fs)" and free: "\<forall>fl \<in> set fs. \<forall>c. fl_phase fl = Forgetting c \<longrightarrow> rc_request c \<noteq> q"
  shows "ledger_inv (request_collected q d, fs)"
proof -
  have s: "receipts_inv d" "slots_inv (d, fs)" "flights_inv (d, fs)" using inv by (simp_all add: ledger_inv_def)
  let ?d = "request_collected q d" and ?g = "filter (\<lambda>c. rc_request c = q \<and> rc_slot c) (receipts d)"
  have r: "receipts ?d = filter (\<lambda>c. rc_request c \<noteq> q) (receipts d)"
    by (simp add: receipts_def request_collected_def Let_def)
  have "?g = filter (\<lambda>c. rc_request c = q) (receipts d)"
    using s(1) by (intro filter_cong) (auto simp: receipts_inv_def)
  then have len: "length (receipts d) = length (receipts ?d) + length ?g"
    unfolding r using sum_length_filter_compl [of "\<lambda>c. rc_request c = q" "receipts d"] by simp
  have sl: "df_slots ?d = df_slots d - length ?g" by (simp add: receipts_def request_collected_def Let_def)
  have fr: "df_allowances ?d = df_allowances d" "df_allowance_limit ?d = df_allowance_limit d" "df_active ?d = df_active d"
    "df_next ?d = df_next d" by (simp_all add: request_collected_def Let_def)
  have "slots_inv (?d, fs)" using s(2) len by (auto simp: slots_inv_def owned_def sl fr)
  moreover have "receipts_inv ?d" using s(1) by (auto simp: receipts_inv_def r fr distinct_map_filter)
  moreover have "flights_inv (?d, fs)" using s(3) free by (auto simp: flights_inv_def r fr)
  ultimately show ?thesis by (simp add: ledger_inv_def)
qed

lemma inv_boundary:
  assumes "ledger_inv (d, fs)" and "quiescent d"
  shows "ledger_inv (retire_epoch d, fs)"
proof -
  have "fs = []" using assms by (simp add: ledger_inv_def flights_inv_def quiescent_def)
  then show ?thesis using assms by (simp add: ledger_defs retire_epoch_def quiescent_def)
qed

text \<open>Leaving and launching: the number of admitted operations follows the flights.\<close>

lemma flights_leave:
  assumes "flights_inv (d, fs)" and "fl \<in> set fs" and "set (receipts d) \<subseteq> set (receipts d')" and "df_active d' = df_active d"
  shows "flights_inv (leave (fl_thread fl) (fl_epoch fl) d', remove1 fl fs)"
proof -
  have "mset (remove1 (fl_thread fl, fl_epoch fl) (df_active d)) = mset (map (\<lambda>fl. (fl_thread fl, fl_epoch fl)) (remove1 fl fs))"
    using assms(1,2) mset_map_remove1 [OF assms(2), of "\<lambda>fl. (fl_thread fl, fl_epoch fl)"] by (simp add: flights_inv_def)
  moreover have "distinct (concat (map (forgets \<circ> fl_phase) (remove1 fl fs)))"
    using assms(1) distinct_concat_remove1 [of "forgets \<circ> fl_phase" fs fl] by (simp add: flights_inv_def)
  moreover have "\<forall>fl' \<in> set (remove1 fl fs). \<forall>c. fl_phase fl' = Forgetting c \<longrightarrow> c\<lparr>rc_settling := True\<rparr> \<in> set (receipts d')"
    using assms(1,3) set_remove1_subset [of fl fs] unfolding flights_inv_def fst_conv snd_conv by blast
  ultimately show ?thesis using assms(4) by (simp add: flights_inv_def leave_def receipts_def)
qed

lemma flights_launch:
  assumes "flights_inv (d, fs)" and "\<And>c. p \<noteq> Forgetting c" and "receipts d' = receipts d"
    and "df_active d' = (t, ep) # df_active d"
  shows "flights_inv (d', launch t ep p fs)"
  using assms by (cases p) (auto simp: flights_inv_def launch_def)

lemma flights_relaunch:
  assumes "flights_inv (d, fs)" and "\<lparr>fl_thread = t, fl_epoch = ep, fl_phase = p\<rparr> \<in> set fs"
    and "\<And>c. p' \<noteq> Forgetting c"
  shows "flights_inv (d, launch t ep p' (remove1 \<lparr>fl_thread = t, fl_epoch = ep, fl_phase = p\<rparr> fs))"
proof -
  let ?fl = "\<lparr>fl_thread = t, fl_epoch = ep, fl_phase = p\<rparr>"
  have "mset (map (\<lambda>fl. (fl_thread fl, fl_epoch fl)) fs)
      = add_mset (t, ep) (mset (map (\<lambda>fl. (fl_thread fl, fl_epoch fl)) (remove1 ?fl fs)))"
    using mset_map_remove1 [OF assms(2), of "\<lambda>fl. (fl_thread fl, fl_epoch fl)"] by simp
  then show ?thesis
    using assms distinct_concat_remove1 [of "forgets \<circ> fl_phase" fs ?fl] set_remove1_subset [of ?fl fs]
    by (cases p') (auto simp: flights_inv_def launch_def)
qed

lemma leave_frame:
  "receipts (leave t ep d) = receipts d" "df_slots (leave t ep d) = df_slots d" "df_next (leave t ep d) = df_next d"
  "df_allowances (leave t ep d) = df_allowances d" "df_allowance_limit (leave t ep d) = df_allowance_limit d"
  by (simp_all add: leave_def receipts_def)

lemma slots_leave: "slots_inv (leave t ep d, fs) = slots_inv (d, fs)" "receipts_inv (leave t ep d) = receipts_inv d"
  by (simp_all add: slots_inv_def receipts_inv_def owned_def leave_frame)

lemma admit_eq: "admit t d = Inr d1 \<longleftrightarrow> df_state d \<in> {LNew, LOpen} \<and> d1 = d\<lparr>df_active := (t, df_epoch d) # df_active d\<rparr>"
  by (auto simp: admit_def)

lemma inv_plan:
  assumes inv: "ledger_inv (d, fs)" and a: "admit t d = Inr d1" and pl: "legacy_plan x d1 = (p, d2)"
  shows "p = Answer Duplicate \<Longrightarrow> ledger_inv (leave t (df_epoch d) d2, fs)"
    and "p = Answer Owned \<Longrightarrow> ledger_inv (d2, launch t (df_epoch d) (Publishing q x) fs)"
    and "p = Probe \<Longrightarrow> ledger_inv (d2, launch t (df_epoch d) Probing fs)"
    and "p = Marker \<Longrightarrow> ledger_inv (d2, launch t (df_epoch d) (Marking q x) fs)"
proof -
  have d1: "d1 = d\<lparr>df_active := (t, df_epoch d) # df_active d\<rparr>" using a by (simp add: admit_eq)
  have s: "receipts_inv d" "slots_inv (d, fs)" "flights_inv (d, fs)" using inv by (simp_all add: ledger_inv_def)
  note plan = pl [unfolded legacy_plan_def consume_allowance_def reserve_slot_def d1]
  show "ledger_inv (leave t (df_epoch d) d2, fs)" if "p = Answer Duplicate"
    using plan that inv by (auto simp: leave_def split: if_splits)
  show "ledger_inv (d2, launch t (df_epoch d) Probing fs)" if p: "p = Probe"
  proof -
    have "d2 = d1" using plan p by (auto simp: d1 split: if_splits)
    then show ?thesis using s flights_launch [OF s(3), of Probing d1 t "df_epoch d"]
      by (simp add: d1 ledger_inv_def slots_inv_def receipts_inv_def owned_def receipts_def launch_def)
  qed
  show "ledger_inv (d2, launch t (df_epoch d) (Publishing q x) fs)" if p: "p = Answer Owned"
  proof -
    have x: "x \<in> set (df_allowances d)" and d2: "d2 = d1\<lparr>df_allowances := remove1 x (df_allowances d), df_slots := Suc (df_slots d)\<rparr>"
      using plan p by (auto simp: d1 split: if_splits)
    have "Suc (length (remove1 x (df_allowances d))) = length (df_allowances d)"
      using x by (simp add: length_remove1) (metis One_nat_def Suc_pred length_pos_if_in_set)
    then show ?thesis using s flights_launch [OF s(3), of "Publishing q x" d2 t "df_epoch d"]
      by (simp add: d1 d2 ledger_inv_def slots_inv_def receipts_inv_def owned_def receipts_def launch_def)
  qed
  show "ledger_inv (d2, launch t (df_epoch d) (Marking q x) fs)" if p: "p = Marker"
  proof -
    have "length (df_allowances d) + df_slots d < df_allowance_limit d" and d2: "d2 = d1\<lparr>df_slots := Suc (df_slots d)\<rparr>"
      using plan p by (auto simp: d1 split: if_splits)
    then show ?thesis using s flights_launch [OF s(3), of "Marking q x" d2 t "df_epoch d"]
      by (simp add: d1 ledger_inv_def slots_inv_def receipts_inv_def owned_def receipts_def launch_def)
  qed
qed

text \<open>Turning a slot into an allowance stays within the limit.\<close>

lemma grant_slot:
  assumes "0 < df_slots d"
  shows "df_slots (grant_allowance x True d) = df_slots d - 1"
    and "length (df_allowances (grant_allowance x True d)) + df_slots (grant_allowance x True d)
      \<le> length (df_allowances d) + df_slots d"
    and "distinct (df_allowances d) \<Longrightarrow> distinct (df_allowances (grant_allowance x True d))"
    and "x \<in> set (df_allowances (grant_allowance x True d))"
    and "set (df_allowances d) \<subseteq> set (df_allowances (grant_allowance x True d))"
  using assms
  by (auto simp: grant_allowance_def release_slot_def length_remove1 dest: length_pos_if_in_set)
     (metis in_set_remove1)

lemma grant_frame:
  "receipts (grant_allowance x b d) = receipts d" "df_active (grant_allowance x b d) = df_active d"
  "df_next (grant_allowance x b d) = df_next d" "df_allowance_limit (grant_allowance x b d) = df_allowance_limit d"
  "df_pending (grant_allowance x b d) = df_pending d" "df_handoffs (grant_allowance x b d) = df_handoffs d"
  by (simp_all add: grant_allowance_def release_slot_def receipts_def Let_def)

lemma legacy_marked_cases:
  assumes "legacy_marked q x r d = (a, d1)"
  shows "a = Inr Owned \<and> d1 = d \<or> a \<noteq> Inr Owned \<and> (d1 = release_slot d \<or> d1 = grant_allowance x True d \<or> d1 = d)"
  using assms
  by (auto simp: legacy_marked_def compensate_interrupted_legacy_add_def split: sum.splits if_splits option.splits)

lemma inv_unmarked:
  assumes inv: "ledger_inv (d, fs)" and fl: "fl \<in> set fs" "holds_slot (fl_phase fl)"
    and d1: "d1 = release_slot d \<or> d1 = grant_allowance x True d \<or> d1 = d"
  shows "ledger_inv (leave (fl_thread fl) (fl_epoch fl) d1, remove1 fl fs)"
proof -
  have s: "receipts_inv d" "slots_inv (d, fs)" "flights_inv (d, fs)" using inv by (simp_all add: ledger_inv_def)
  have len: "length (filter (\<lambda>fl. holds_slot (fl_phase fl)) fs)
      = Suc (length (filter (\<lambda>fl. holds_slot (fl_phase fl)) (remove1 fl fs)))"
    using length_filter_remove1 [OF fl(1), of "\<lambda>fl. holds_slot (fl_phase fl)"] fl(2) by simp
  then have pos: "0 < df_slots d" using s(2) by (simp add: slots_inv_def owned_def)
  have frame: "receipts d1 = receipts d" "df_active d1 = df_active d" "df_next d1 = df_next d"
    "df_allowance_limit d1 = df_allowance_limit d"
    using d1 by (auto simp: release_slot_def receipts_def grant_frame)
  have "df_slots d - 1 \<le> df_slots d1" "length (df_allowances d1) + df_slots d1 \<le> length (df_allowances d) + df_slots d"
    "distinct (df_allowances d1)"
    using d1 grant_slot [OF pos, of x] s(2) by (auto simp: release_slot_def slots_inv_def)
  then have "slots_inv (d1, remove1 fl fs)" using s(2) len by (auto simp: slots_inv_def owned_def frame)
  moreover have "receipts_inv d1" using s(1) by (simp add: receipts_inv_def frame)
  moreover have "flights_inv (leave (fl_thread fl) (fl_epoch fl) d1, remove1 fl fs)"
    using flights_leave [OF s(3) fl(1), of d1] frame by simp
  ultimately show ?thesis by (simp add: ledger_inv_def slots_leave)
qed

lemma inv_probed:
  assumes inv: "ledger_inv (d, fs)" and fl: "fl \<in> set fs" "\<not> holds_slot (fl_phase fl)"
  shows "ledger_inv (leave (fl_thread fl) (fl_epoch fl) d, remove1 fl fs)"
proof -
  have s: "receipts_inv d" "slots_inv (d, fs)" "flights_inv (d, fs)" using inv by (simp_all add: ledger_inv_def)
  then show ?thesis
    using length_filter_remove1 [OF fl(1), of "\<lambda>fl. holds_slot (fl_phase fl)"] fl(2) flights_leave [OF s(3) fl(1), of d]
    by (simp add: ledger_inv_def slots_leave) (simp add: slots_inv_def owned_def)
qed

lemma inv_publish:
  assumes inv: "ledger_inv (d, fs)" and fl: "fl \<in> set fs" "fl_phase fl = Publishing q x"
  shows "ledger_inv (leave (fl_thread fl) (fl_epoch fl) (publish_receipt q x d), remove1 fl fs)"
proof -
  have s: "receipts_inv d" "slots_inv (d, fs)" "flights_inv (d, fs)" using inv by (simp_all add: ledger_inv_def)
  let ?d = "publish_receipt q x d"
  have "slots_inv (?d, remove1 fl fs)"
    using s(2) length_filter_remove1 [OF fl(1), of "\<lambda>fl. holds_slot (fl_phase fl)"] fl(2)
    by (simp add: slots_inv_def owned_def publish_receipt_def receipts_def)
  moreover have "receipts_inv ?d"
    using s(1) by (auto simp: receipts_inv_def publish_receipt_def receipts_def less_Suc_eq)
  moreover have "flights_inv (leave (fl_thread fl) (fl_epoch fl) ?d, remove1 fl fs)"
    by (rule flights_leave [OF s(3) fl(1)]) (auto simp: publish_receipt_def receipts_def)
  ultimately show ?thesis by (simp add: ledger_inv_def slots_leave)
qed

lemma inv_marked:
  assumes inv: "ledger_inv (d, fs)" and fl: "\<lparr>fl_thread = t, fl_epoch = ep, fl_phase = Marking q x\<rparr> \<in> set fs"
  shows "ledger_inv (d, launch t ep (Publishing q x) (remove1 \<lparr>fl_thread = t, fl_epoch = ep, fl_phase = Marking q x\<rparr> fs))"
proof -
  have s: "receipts_inv d" "slots_inv (d, fs)" "flights_inv (d, fs)" using inv by (simp_all add: ledger_inv_def)
  then show ?thesis
    using length_filter_remove1 [OF fl, of "\<lambda>fl. holds_slot (fl_phase fl)"] flights_relaunch [OF s(3) fl, of "Publishing q x"]
    by (simp add: ledger_inv_def) (simp add: slots_inv_def owned_def launch_def)
qed

lemma receipts_mark_settling:
  "receipts (mark_settling i d) = map (\<lambda>c. if rc_id c = i then c\<lparr>rc_settling := True\<rparr> else c) (receipts d)"
  by (simp add: mark_settling_def Let_def receipts_def)

lemma inv_forget_begin:
  assumes inv: "ledger_inv (d, fs)" and c: "c \<in> set (receipts d)" "\<not> rc_settling c"
  shows "ledger_inv ((mark_settling (rc_id c) d)\<lparr>df_active := (t, rc_epoch c) # df_active d\<rparr>, launch t (rc_epoch c) (Forgetting c) fs)"
proof -
  have s: "receipts_inv d" "slots_inv (d, fs)" "flights_inv (d, fs)" using inv by (simp_all add: ledger_inv_def)
  let ?d = "(mark_settling (rc_id c) d)\<lparr>df_active := (t, rc_epoch c) # df_active d\<rparr>"
  let ?m = "\<lambda>c'. if rc_id c' = rc_id c then c'\<lparr>rc_settling := True\<rparr> else c'"
  have r: "receipts ?d = map ?m (receipts d)" using receipts_mark_settling [of "rc_id c" d] by (simp add: receipts_def)
  have ids: "map rc_id (receipts ?d) = map rc_id (receipts d)" by (simp add: r)
  have fr: "df_slots ?d = df_slots d" "df_allowances ?d = df_allowances d" "df_allowance_limit ?d = df_allowance_limit d"
    "df_next ?d = df_next d" by (simp_all add: mark_settling_def Let_def)
  have d: "distinct (map rc_id (receipts d))" using s(1) by (simp add: receipts_inv_def)
  have other: "rc_id c' \<noteq> rc_id c" if "c'\<lparr>rc_settling := True\<rparr> \<in> set (receipts d)" for c'
    using same_receipt [OF d that c(1)] c(2) by auto
  have "slots_inv (?d, launch t (rc_epoch c) (Forgetting c) fs)"
    using s(2) ids [THEN arg_cong [where f = length]] by (simp add: slots_inv_def owned_def launch_def fr)
  moreover have "receipts_inv ?d" using s(1) unfolding receipts_inv_def ids by (auto simp: r fr)
  moreover have "flights_inv (?d, launch t (rc_epoch c) (Forgetting c) fs)"
  proof -
    have kept: "c'\<lparr>rc_settling := True\<rparr> \<in> set (receipts ?d)" if "c'\<lparr>rc_settling := True\<rparr> \<in> set (receipts d)" for c'
      unfolding r using that other [OF that] by (auto simp: image_iff intro!: bexI [of _ "c'\<lparr>rc_settling := True\<rparr>"])
    have "c\<lparr>rc_settling := True\<rparr> \<in> set (receipts ?d)" unfolding r using c by (auto simp: image_iff)
    moreover have "rc_id c \<notin> set (forgets (fl_phase fl))" if "fl \<in> set fs" for fl
    proof (cases "fl_phase fl")
      case (Forgetting c')
      with s(3) that have "c'\<lparr>rc_settling := True\<rparr> \<in> set (receipts d)" by (simp add: flights_inv_def)
      from other [OF this] Forgetting show ?thesis by simp
    qed simp_all
    ultimately show ?thesis using s(3) kept by (auto simp: flights_inv_def launch_def)
  qed
  ultimately show ?thesis by (simp add: ledger_inv_def)
qed

lemma inv_forget_end:
  assumes inv: "ledger_inv (d, fs)" and fl: "fl \<in> set fs" "fl_phase fl = Forgetting c"
  shows "ledger_inv (leave (fl_thread fl) (fl_epoch fl) (snd (forget_settle c r d)), remove1 fl fs)"
proof -
  have s: "receipts_inv d" "slots_inv (d, fs)" "flights_inv (d, fs)" using inv by (simp_all add: ledger_inv_def)
  let ?c = "c\<lparr>rc_settling := True\<rparr>" and ?d = "snd (forget_settle c r d)"
  have c: "?c \<in> set (receipts d)" using s(3) fl by (auto simp: flights_inv_def)
  have d: "distinct (map rc_id (receipts d))" and slot: "rc_slot c" using s(1) c by (auto simp: receipts_inv_def)
  have len: "Suc (length (drop_receipt (rc_id c) (receipts d))) = length (receipts d)"
    using length_drop_receipt [OF d c] by simp
  then have pos: "0 < df_slots d" using s(2) by (simp add: slots_inv_def owned_def)
  have frame: "receipts ?d = drop_receipt (rc_id c) (receipts d)" "df_active ?d = df_active d" "df_next ?d = df_next d"
    "df_allowance_limit ?d = df_allowance_limit d"
    by (auto simp: forget_settle_def receipts_remove_receipt remove_receipt_frame grant_frame split: sum.split)
  have "df_slots ?d = df_slots d - 1" "length (df_allowances ?d) + df_slots ?d \<le> length (df_allowances d) + df_slots d"
    "distinct (df_allowances ?d)"
    using s(2) slot grant_slot [OF pos, of "rc_fingerprint c"]
    by (auto simp: forget_settle_def remove_receipt_frame slots_inv_def split: sum.split)
  moreover have "length (filter (\<lambda>fl. holds_slot (fl_phase fl)) (remove1 fl fs)) = length (filter (\<lambda>fl. holds_slot (fl_phase fl)) fs)"
    using length_filter_remove1 [OF fl(1), of "\<lambda>fl. holds_slot (fl_phase fl)"] fl(2) by simp
  ultimately have "slots_inv (?d, remove1 fl fs)" using s(2) len by (auto simp: slots_inv_def owned_def frame)
  moreover have "receipts_inv ?d"
    using s(1) distinct_drop_receipt [OF d] by (auto simp: receipts_inv_def frame set_drop_receipt)
  moreover have "flights_inv (leave (fl_thread fl) (fl_epoch fl) ?d, remove1 fl fs)"
  proof -
    have l: "flights_inv (leave (fl_thread fl) (fl_epoch fl) d, remove1 fl fs)" using flights_leave [OF s(3) fl(1), of d] by simp
    have "rc_id c \<notin> set (forgets (fl_phase fl'))" if "fl' \<in> set (remove1 fl fs)" for fl'
      using distinct_concat_remove1 [of "forgets \<circ> fl_phase" fs fl] s(3) fl that by (auto simp: flights_inv_def)
    then have "\<forall>fl' \<in> set (remove1 fl fs). \<forall>c'. fl_phase fl' = Forgetting c' \<longrightarrow> rc_id c' \<noteq> rc_id c"
      by fastforce
    then show ?thesis using l by (auto simp: flights_inv_def leave_frame frame set_drop_receipt) (auto simp: leave_def frame)
  qed
  ultimately show ?thesis by (simp add: ledger_inv_def slots_leave)
qed

lemma forgetting_slot:
  assumes "ledger_inv (d, fs)" and "fl \<in> set fs" and "fl_phase fl = Forgetting c"
  shows "0 < df_slots d \<and> rc_slot c"
proof -
  have "c\<lparr>rc_settling := True\<rparr> \<in> set (receipts d)" using assms by (simp add: ledger_inv_def flights_inv_def)
  then have "0 < length (receipts d)" and "rc_slot (c\<lparr>rc_settling := True\<rparr>)"
    using assms(1) length_pos_if_in_set by (auto simp: ledger_inv_def receipts_inv_def simp del: length_greater_0_conv)
  moreover have "length (receipts d) \<le> df_slots d" using assms(1) by (simp add: ledger_inv_def slots_inv_def owned_def)
  ultimately show ?thesis by (simp del: length_greater_0_conv)
qed

lemma ledger_step_inv:
  assumes "ledger_step s s'" and "ledger_inv s"
  shows "ledger_inv s'"
  using assms
proof (induction rule: ledger_step.induct)
  case (unmarked t ep q x fs r d a d1)
  have "d1 = release_slot d \<or> d1 = grant_allowance x True d \<or> d1 = d"
    using legacy_marked_cases [OF unmarked(2)] unmarked(3) by auto
  from inv_unmarked [OF unmarked(4,1) _ this] show ?case by simp
next
  case (marked t ep q x fs r d d1)
  then show ?case using inv_marked [of d fs t ep q x] legacy_marked_cases [OF marked(2)] by auto
next
  case (probed t ep fs d)
  from inv_probed [OF probed(2,1)] show ?case by simp
next
  case (publish t ep q x fs d)
  from inv_publish [OF publish(2,1)] show ?case by simp
next
  case (forget_late d t q c fs)
  then show ?case using inv_remove_receipt forget_selectD by blast
next
  case (forget_begin t q d c fs)
  then show ?case using inv_forget_begin forget_selectD by blast
next
  case (forget_end t ep c fs d r)
  from inv_forget_end [OF forget_end(2,1)] show ?case by simp
next
  case (transition d fs st)
  then show ?case by (simp add: ledger_defs)
qed (simp_all only: inv_plan inv_handoff inv_settle inv_collected inv_boundary)

lemma ledger_reachable_inv: "ledger_step\<^sup>*\<^sup>* s s' \<Longrightarrow> ledger_inv s \<Longrightarrow> ledger_inv s'"
  by (induction rule: rtranclp_induct) (auto intro: ledger_step_inv)

text \<open>An allowance goes only to the check that consumes it, or with its generation.\<close>

lemma allowance_kept:
  assumes "ledger_step s s'" and "ledger_inv s" and "x \<in> set (df_allowances (fst s))" and "x \<notin> set (df_allowances (fst s'))"
  shows "df_epoch (fst s') = Suc (df_epoch (fst s)) \<or> (\<exists>t q. snd s' = launch t (df_epoch (fst s)) (Publishing q x) (snd s))"
  using assms
proof (induction rule: ledger_step.induct)
  case (retry t d d1 y d2 fs q)
  then have "d2 = d1\<lparr>df_allowances := remove1 y (df_allowances d), df_slots := Suc (df_slots d)\<rparr>"
    by (auto simp: legacy_plan_def consume_allowance_def reserve_slot_def admit_eq split: if_splits)
  with retry(4,5) have "x \<in> set (df_allowances d)" "x \<notin> set (remove1 y (df_allowances d))" by simp_all
  then have "x = y" by (metis in_set_remove1)
  then show ?case by auto
next
  case (unmarked t ep q y fs r d a d1)
  have "0 < df_slots d"
    using unmarked(1,4) length_filter_remove1 [OF unmarked(1), of "\<lambda>fl. holds_slot (fl_phase fl)"]
    by (simp add: ledger_inv_def slots_inv_def owned_def)
  then show ?case using legacy_marked_cases [OF unmarked(2)] unmarked(3,5,6) grant_slot(5) [of d y]
    by (auto simp: leave_frame release_slot_def)
next
  case (forget_end t ep c fs d r)
  have "0 < df_slots d" "rc_slot c" using forgetting_slot [OF forget_end(2,1)] by simp_all
  then show ?case using forget_end(3,4) grant_slot(5) [of d "rc_fingerprint c"]
    by (auto simp: leave_frame remove_receipt_frame forget_settle_def split: sum.splits)
qed (auto simp: leave_frame remove_receipt_frame legacy_plan_def consume_allowance_def reserve_slot_def admit_eq publish_receipt_def
    consume_reservation_def settle_reservation_def mark_settling_def request_collected_def retire_epoch_def Let_def
    dest!: legacy_marked_cases split: if_splits option.splits)

text \<open>
  C17. The recovery ledger: in every state that threads can reach, allowances and reserved slots together respect
  the limit; every receipt and every invocation that may still publish one is covered by a slot of its own, so
  giving a slot back never takes the one of another; an allowance disappears only when a check consumes it
  or its generation ends; and a \<open>forget\<close> whose removal raises always leaves the allowance of its request.
\<close>

theorem retry_ledger_sound:
  assumes "ledger_step\<^sup>*\<^sup>* (dupe_init owns, []) (d, fs)"
  shows "length (df_allowances d) + df_slots d \<le> df_allowance_limit d
    \<and> length (receipts d) + length (filter (\<lambda>fl. holds_slot (fl_phase fl)) fs) \<le> df_slots d
    \<and> (\<forall>x d' fs'. ledger_step (d, fs) (d', fs') \<and> x \<in> set (df_allowances d) \<and> x \<notin> set (df_allowances d')
         \<longrightarrow> df_epoch d' = Suc (df_epoch d) \<or> (\<exists>t q. fs' = launch t (df_epoch d) (Publishing q x) fs))
    \<and> (\<forall>fl c e. fl \<in> set fs \<and> fl_phase fl = Forgetting c
         \<longrightarrow> rc_fingerprint c \<in> set (df_allowances (snd (forget_settle c (Inl e) d))))"
proof -
  have "ledger_inv (dupe_init owns, [])" by (simp add: ledger_defs dupe_init_def)
  then have inv: "ledger_inv (d, fs)" using ledger_reachable_inv [OF assms] by simp
  have "rc_fingerprint c \<in> set (df_allowances (snd (forget_settle c (Inl e) d)))"
    if "fl \<in> set fs" "fl_phase fl = Forgetting c" for fl c e
    using forgetting_slot [OF inv that] grant_slot(4) [of d "rc_fingerprint c"]
    by (simp add: forget_settle_def remove_receipt_frame)
  then show ?thesis using inv allowance_kept [OF _ inv] by (fastforce simp: ledger_inv_def slots_inv_def owned_def)
qed

definition demo_receipt :: receipt where
  "demo_receipt = \<lparr>rc_id = 0, rc_fingerprint = [1], rc_epoch = 0, rc_request = 5, rc_consumer = None, rc_settling = False, rc_slot = True\<rparr>"

definition demo_flight :: "phase \<Rightarrow> flight" where
  "demo_flight p = \<lparr>fl_thread = 1, fl_epoch = 0, fl_phase = p\<rparr>"

definition demo_dupe :: "receipt list \<Rightarrow> dupe" where
  "demo_dupe cs = (dupe_init False)\<lparr>df_next := length cs, df_slots := 1, df_pending := cs\<rparr>"

lemma demo_ledger:
  "ledger_step\<^sup>*\<^sup>* (dupe_init False, [])
     ((demo_dupe [demo_receipt\<lparr>rc_settling := True\<rparr>])\<lparr>df_active := [(1, 0)]\<rparr>, [demo_flight (Forgetting demo_receipt)])"
proof -
  let ?a = "\<lambda>d. d\<lparr>df_active := [(1, 0)]\<rparr>"
  have "ledger_step (dupe_init False, []) (?a (demo_dupe []), [demo_flight (Marking 5 [1])])"
    using mark [of 1 "dupe_init False" "?a (dupe_init False)" "[1]" "?a (demo_dupe [])" "[]" 5]
    by (simp add: admit_def dupe_init_def demo_dupe_def legacy_plan_def consume_allowance_def reserve_slot_def launch_def
        demo_flight_def)
  moreover have "ledger_step (?a (demo_dupe []), [demo_flight (Marking 5 [1])]) (?a (demo_dupe []), [demo_flight (Publishing 5 [1])])"
    using marked [of 1 0 5 "[1]" "[demo_flight (Marking 5 [1])]" "Inr True" "?a (demo_dupe [])" "?a (demo_dupe [])"]
    by (simp add: demo_flight_def legacy_marked_def launch_def)
  moreover have "ledger_step (?a (demo_dupe []), [demo_flight (Publishing 5 [1])]) (demo_dupe [demo_receipt], [])"
    using publish [of 1 0 5 "[1]" "[demo_flight (Publishing 5 [1])]" "?a (demo_dupe [])"]
    by (simp add: demo_flight_def publish_receipt_def leave_def demo_dupe_def dupe_init_def demo_receipt_def)
  moreover have "ledger_step (demo_dupe [demo_receipt], [])
      (?a (demo_dupe [demo_receipt\<lparr>rc_settling := True\<rparr>]), [demo_flight (Forgetting demo_receipt)])"
    using forget_begin [of 1 5 "demo_dupe [demo_receipt]" demo_receipt "[]"]
    by (simp add: demo_flight_def demo_dupe_def dupe_init_def demo_receipt_def forget_select_def select_handoff_def
        select_pending_def mark_settling_def launch_def)
  ultimately show ?thesis by (meson converse_rtranclp_into_rtranclp rtranclp.rtrancl_refl)
qed

theorem retry_ledger_sound_witness:
  "[1] \<in> set (df_allowances (snd (forget_settle demo_receipt (Inl NotImplementedError)
     ((demo_dupe [demo_receipt\<lparr>rc_settling := True\<rparr>])\<lparr>df_active := [(1, 0)]\<rparr>))))"
proof -
  have "fl_phase (demo_flight p) = p" for p by (simp add: demo_flight_def)
  then show ?thesis using retry_ledger_sound [OF demo_ledger] by (simp add: demo_receipt_def)
qed

section \<open>One retry\<close>

text \<open>A marked miss: the slot is taken and the receipt published.\<close>

lemma request_seen_marks:
  assumes "df_state d \<in> {LNew, LOpen}" and "df_filter_requests d = []" and "x \<notin> set (df_volatile d)" and "x \<notin> set (df_allowances d)"
    and "length (df_allowances d) + df_slots d < df_allowance_limit d" and "fo_add F x f = (Inr True, f')"
  shows "request_seen F t q (Inr x) (d, f) = (Inr False, publish_receipt q x (d\<lparr>df_slots := Suc (df_slots d)\<rparr>), f')"
  using assms
  by (simp add: request_seen_def admit_def legacy_plan_def consume_allowance_def reserve_slot_def legacy_marked_def
      legacy_finish_def publish_receipt_def leave_def)

text \<open>An allowance is consumed without a membership call.\<close>

lemma request_seen_retries:
  assumes "df_state d \<in> {LNew, LOpen}" and "df_filter_requests d = []" and "x \<notin> set (df_volatile d)" and "x \<in> set (df_allowances d)"
  shows "request_seen F t q (Inr x) (d, f) =
    (Inr False, publish_receipt q x (d\<lparr>df_allowances := remove1 x (df_allowances d), df_slots := Suc (df_slots d)\<rparr>), f)"
  using assms
  by (simp add: request_seen_def admit_def legacy_plan_def consume_allowance_def legacy_finish_def publish_receipt_def leave_def)

text \<open>Without an allowance a recorded item is a duplicate, with or without a free slot.\<close>

lemma request_seen_duplicate:
  assumes "df_state d \<in> {LNew, LOpen}" and "df_filter_requests d = []" and "x \<notin> set (df_volatile d)" and "x \<notin> set (df_allowances d)"
    and "fst (fo_add F x f) = Inr False" and "fst (fo_contains F x f) = Inr True"
  shows "fst (request_seen F t q (Inr x) (d, f)) = Inr True"
  using assms
  by (auto simp: request_seen_def admit_def legacy_plan_def consume_allowance_def reserve_slot_def legacy_marked_def
      legacy_probe_def legacy_finish_def split: prod.splits)

lemma find_snoc: "\<forall>x \<in> set xs. \<not> P x \<Longrightarrow> P y \<Longrightarrow> List.find P (xs @ [y]) = Some y"
  by (induction xs) auto

lemma drop_receipt_fresh: "\<forall>c \<in> set cs. rc_id c < n \<Longrightarrow> drop_receipt n cs = cs"
  by (auto simp: drop_receipt_def filter_id_conv)

text \<open>Forgetting that marker where the filter cannot remove it: the receipt goes, its slot becomes the allowance.\<close>

lemma forget_unremovable:
  assumes "df_state d \<in> {LNew, LOpen}" and "receipts_inv d" and "\<forall>c \<in> set (receipts d). rc_request c \<noteq> q"
    and "q \<notin> df_retired d" and "x \<notin> set (df_allowances d)" and "fo_remove F x f = (Inl NotImplementedError, f')"
  shows "forget F t q (publish_receipt q x (d\<lparr>df_slots := Suc (df_slots d)\<rparr>), f) =
    (Inr (), d\<lparr>df_next := Suc (df_next d), df_allowances := df_allowances d @ [x]\<rparr>, f')"
proof -
  define c where "c = \<lparr>rc_id = df_next d, rc_fingerprint = x, rc_epoch = df_epoch d, rc_request = q, rc_consumer = None,
    rc_settling = False, rc_slot = True\<rparr>"
  let ?d = "publish_receipt q x (d\<lparr>df_slots := Suc (df_slots d)\<rparr>)"
  have p: "df_pending ?d = df_pending d @ [c]" "df_handoffs ?d = df_handoffs d" "df_state ?d = df_state d"
    "df_retired ?d = df_retired d" "df_epoch ?d = df_epoch d"
    by (simp_all add: publish_receipt_def c_def)
  have "select_handoff t q ?d = None"
    using assms(3) by (auto simp: select_handoff_def p find_None_iff receipts_def)
  moreover have "select_pending q ?d = Some c"
    unfolding select_pending_def p using assms(3) by (intro find_snoc) (auto simp: receipts_def c_def)
  ultimately have sel: "forget_select t q ?d = Some c" using assms(4) by (simp add: forget_select_def p c_def)
  have lt: "\<forall>c' \<in> set (df_pending d). rc_id c' < df_next d" "\<forall>c' \<in> set (df_handoffs d). rc_id c' < df_next d"
    using assms(2) by (auto simp: receipts_inv_def receipts_def)
  have m: "map (\<lambda>c'. if rc_id c' = df_next d then c'\<lparr>rc_settling := True\<rparr> else c') cs = cs"
    if "\<forall>c' \<in> set cs. rc_id c' < df_next d" for cs
    using that by (intro map_idI) auto
  have "drop_receipt (df_next d) (df_pending d @ [c\<lparr>rc_settling := True\<rparr>]) = df_pending d"
    "drop_receipt (df_next d) (df_handoffs d) = df_handoffs d"
    using drop_receipt_fresh [OF lt(1)] drop_receipt_fresh [OF lt(2)] by (simp_all add: drop_receipt_def c_def)
  then show ?thesis
    using assms(1,5,6) sel m [OF lt(1)] m [OF lt(2)]
    by (auto simp: forget_def p mark_settling_def Let_def forget_settle_def grant_allowance_def release_slot_def
        remove_receipt_def leave_def publish_receipt_def c_def)
qed

text \<open>
  A failed push is retried once: over a filter that cannot remove, a request that was declared new and then
  forgotten (its push failed) is declared new again to the next caller, although the filter still has its
  marker, and to that caller only: the one after it is told that it is a duplicate.
\<close>

lemma forget_grants_one_retry:
  assumes "membership_filter (fo_add F) (fo_contains F) reports sound" and "sound f"
    and "\<And>g e. sound g \<Longrightarrow> reports x g \<Longrightarrow> fst (fo_add F x g) \<noteq> Inl e"
    and "\<And>g. fo_remove F x g = (Inl NotImplementedError, g)" and "fst (fo_add F x f) = Inr True"
    and "df_state d \<in> {LNew, LOpen}" and "df_filter_requests d = []" and "x \<notin> set (df_volatile d)" and "x \<notin> set (df_allowances d)"
    and "length (df_allowances d) + df_slots d < df_allowance_limit d"
    and "receipts_inv d" and "\<forall>c \<in> set (receipts d). rc_request c \<noteq> q" and "q \<notin> df_retired d"
    and "request_seen F t q (Inr x) (d, f) = (r1, s1)" and "forget F t q s1 = (r2, s2)"
    and "request_seen F t' q' (Inr x) s2 = (r3, s3)" and "request_seen F t'' q'' (Inr x) s3 = (r4, s4)"
  shows "r1 = Inr False \<and> r2 = Inr () \<and> r3 = Inr False \<and> r4 = Inr True"
proof -
  obtain f1 where a: "fo_add F x f = (Inr True, f1)" using assms(5) by (metis prod.collapse)
  have w: "sound f1" "reports x f1"
    using membership_filter.add_keeps [OF assms(1,2) a] membership_filter.add_ok [OF assms(1,2) a] by auto
  have c: "fst (fo_contains F x f1) = Inr True" using membership_filter.reports_contains [OF assms(1) w(1)] w(2) by blast
  obtain b f2 where "fo_add F x f1 = (Inr b, f2)"
    using assms(3) [OF w] by (cases "fo_add F x f1", cases "fst (fo_add F x f1)") auto
  then have again: "fst (fo_add F x f1) = Inr False"
    using membership_filter.add_ok [OF assms(1) w(1)] w(2) by (metis (full_types) fst_conv)
  let ?d2 = "d\<lparr>df_next := Suc (df_next d), df_allowances := df_allowances d @ [x]\<rparr>"
  let ?d3 = "publish_receipt q' x (?d2\<lparr>df_allowances := remove1 x (df_allowances ?d2), df_slots := Suc (df_slots d)\<rparr>)"
  have 1: "r1 = Inr False" "s1 = (publish_receipt q x (d\<lparr>df_slots := Suc (df_slots d)\<rparr>), f1)"
    using request_seen_marks [OF assms(6-10) a, of t q] assms(14) by auto
  have 2: "r2 = Inr ()" "s2 = (?d2, f1)"
    using forget_unremovable [OF assms(6,11,12,13,9) assms(4) [of f1], of t] assms(15) 1(2) by auto
  have 3: "r3 = Inr False" "s3 = (?d3, f1)"
    using request_seen_retries [of ?d2 x F t' q' f1] assms(6-8,16) 2(2) by auto
  have "x \<notin> set (df_allowances ?d3)" using assms(9) by (simp add: publish_receipt_def remove1_append)
  then have "r4 = Inr True"
    using request_seen_duplicate [of ?d3 x F f1 t'' q''] assms(6-8,17) 3(2) again c by (simp add: publish_receipt_def)
  with 1 2 3 show ?thesis by simp
qed

definition unremovable_ops :: "memory_filter filter_ops" where
  "unremovable_ops =
     \<lparr>fo_add = memory_add, fo_contains = memory_contains, fo_remove = (\<lambda>x f. (Inl NotImplementedError, f)),
      fo_clear = (\<lambda>f. (Inr (), memory_clear f))\<rparr>"

text \<open>
  The exception path of \<open>add\<close> takes any pending receipt of the request for its own: when a request that is still
  pending is checked again and that \<open>add\<close> is interrupted, the slot of the second check is neither given
  back nor turned into an allowance. After the handoff is settled nothing owns it.
\<close>

definition interrupted_ops :: "nat filter_ops" where
  "interrupted_ops =
     \<lparr>fo_add = (\<lambda>x n. (if n = 0 then Inr True else Inl ProcessSignal, Suc n)), fo_contains = (\<lambda>x n. (Inr (0 < n), n)),
      fo_remove = (\<lambda>x n. (Inr (), n)), fo_clear = (\<lambda>n. (Inr (), 0))\<rparr>"

lemma interrupted_add_leaks_slot:
  "\<exists>d1 d2 n. request_seen interrupted_ops 1 5 (Inr [1]) (dupe_init False, 0) = (Inr False, d1, 1)
    \<and> request_seen interrupted_ops 1 5 (Inr [1]) (d1, 1) = (Inl ProcessSignal, d2, n)
    \<and> (let d3 = snd (settle_reservation 1 5 (snd (consume_reservation 1 5 d2))) in
       receipts d3 = [] \<and> df_allowances d3 = [] \<and> df_active d3 = [] \<and> df_slots d3 = 1)"
  by (simp add: interrupted_ops_def request_seen_def admit_def legacy_plan_def consume_allowance_def reserve_slot_def
      legacy_marked_def compensate_interrupted_legacy_add_def legacy_finish_def publish_receipt_def leave_def dupe_init_def
      select_pending_def consume_reservation_def settle_reservation_def select_handoff_def drop_receipt_def remove_receipt_def
      release_slot_def receipts_def transient_def)

end
