(* ===== verification/Dupe_Lifecycle.thy ===== *)
theory Dupe_Lifecycle
  imports Dupe_Filter
begin

text \<open>
  The lifecycle of \<open>Dupe_Filter\<close> under every interleaving of operations, \<open>open\<close>, \<open>clear\<close> and \<open>close\<close>. The three transitions release the
  lock while they wait for admitted operations and while they call the filter, so that others run in between.
\<close>

section \<open>Interleavings\<close>

text \<open>
  \<open>lf_clear\<close> is the prior state of a running \<open>clear\<close>, with whether its wait is over; \<open>lf_closing\<close> says that the close attempt in
  progress has passed its waits and is making its callbacks; the two numbers count the calls of \<open>filter.close\<close> and
  of the manager's release that returned.
\<close>

record life =
  lf_dupe :: dupe
  lf_clear :: "(lifecycle \<times> bool) option"
  lf_closing :: bool
  lf_closed :: nat
  lf_released :: nat

definition life_init :: "bool \<Rightarrow> life" where
  "life_init owns = \<lparr>lf_dupe = dupe_init owns, lf_clear = None, lf_closing = False, lf_closed = 0, lf_released = 0\<rparr>"

definition count :: "bool \<Rightarrow> bool \<Rightarrow> nat" where
  "count before after = of_bool (\<not> before \<and> after)"

text \<open>
  With \<open>orderly\<close>, two races are left out: that the wait of a \<open>clear\<close> runs into its deadline after a close was requested, and
  that a close is requested again while the \<open>clear\<close> is still running that made the first request time out.
\<close>

inductive life_step :: "bool \<Rightarrow> life \<Rightarrow> life \<Rightarrow> bool" for orderly where
  enter: "admit t (lf_dupe s) = Inr d \<Longrightarrow> life_step orderly s (s\<lparr>lf_dupe := d\<rparr>)"
| exit: "life_step orderly s (s\<lparr>lf_dupe := leave t ep (lf_dupe s)\<rparr>)"
| open_begins: "open_begin t owner spider (lf_dupe s) = (r, d) \<Longrightarrow> life_step orderly s (s\<lparr>lf_dupe := d\<rparr>)"
| open_times_out: "df_state (lf_dupe s) = LOpening \<Longrightarrow> df_open_owner (lf_dupe s) = Some owner
    \<Longrightarrow> life_step orderly s (s\<lparr>lf_dupe := open_timeout (lf_dupe s)\<rparr>)"
| open_drained: "df_open_owner (lf_dupe s) = Some owner \<Longrightarrow> quiescent (lf_dupe s)
    \<Longrightarrow> life_step orderly s (s\<lparr>lf_dupe := retire_epoch (lf_dupe s)\<rparr>)"
| open_ends: "open_end owner spider clear_on_open (lf_dupe s) = (r, d) \<Longrightarrow> life_step orderly s (s\<lparr>lf_dupe := d\<rparr>)"
| clear_begins: "clear_begin t (lf_dupe s) = (Inr prior, d)
    \<Longrightarrow> life_step orderly s (s\<lparr>lf_dupe := d, lf_clear := Some (prior, False)\<rparr>)"
| clear_times_out: "lf_clear s = Some (prior, False) \<Longrightarrow> (orderly \<longrightarrow> \<not> df_close_requested (lf_dupe s))
    \<Longrightarrow> life_step orderly s (s\<lparr>lf_dupe := clear_timeout prior (lf_dupe s), lf_clear := None\<rparr>)"
| clear_drained: "lf_clear s = Some (prior, False) \<Longrightarrow> quiescent (lf_dupe s)
    \<Longrightarrow> life_step orderly s (s\<lparr>lf_clear := Some (prior, True)\<rparr>)"
| clear_ends: "lf_clear s = Some (prior, True)
    \<Longrightarrow> life_step orderly s (s\<lparr>lf_dupe := clear_end prior succeeded (lf_dupe s), lf_clear := None\<rparr>)"
| aliased: "life_step orderly s (s\<lparr>lf_dupe := authorize_release_owner_alias owner (lf_dupe s)\<rparr>)"
| close_begins: "reserve_release owner t opening alive (lf_dupe s) = (r, d)
    \<Longrightarrow> (orderly \<longrightarrow> lf_clear s = None \<or> df_state (lf_dupe s) \<noteq> LClosing) \<Longrightarrow> life_step orderly s (s\<lparr>lf_dupe := d\<rparr>)"
| close_times_out: "df_release_thread (lf_dupe s) = Some t \<Longrightarrow> \<not> lf_closing s
    \<Longrightarrow> life_step orderly s (s\<lparr>lf_dupe := release_end (lf_dupe s)\<rparr>)"
| close_drained: "df_release_thread (lf_dupe s) = Some t \<Longrightarrow> df_clear_thread (lf_dupe s) = None \<Longrightarrow> quiescent (lf_dupe s)
    \<Longrightarrow> life_step orderly s (s\<lparr>lf_dupe := retire_epoch (lf_dupe s), lf_closing := True\<rparr>)"
| close_ends: "lf_closing s \<Longrightarrow> close_callbacks filter_close manager_release (lf_dupe s) = (r, d)
    \<Longrightarrow> life_step orderly s
          (s\<lparr>lf_dupe := release_end d, lf_closing := False,
             lf_closed := lf_closed s + count (df_filter_released (lf_dupe s)) (df_filter_released d),
             lf_released := lf_released s + count (df_manager_released (lf_dupe s)) (df_manager_released d)\<rparr>)"

inductive_cases life_stepE: "life_step orderly s s'"

section \<open>The invariant\<close>

definition shut :: "lifecycle \<Rightarrow> bool" where
  "shut st \<longleftrightarrow> st = LClosing \<or> st = LClosed"

text \<open>A running \<open>clear\<close> is the state, or a close was requested meanwhile.\<close>

definition clear_inv :: "life \<Rightarrow> bool" where
  "clear_inv s \<longleftrightarrow>
     (lf_clear s \<noteq> None \<longleftrightarrow> df_clear_thread (lf_dupe s) \<noteq> None)
     \<and> (lf_clear s \<noteq> None \<longrightarrow> df_state (lf_dupe s) = LClearing \<or> df_state (lf_dupe s) = LClosing \<and> df_close_requested (lf_dupe s))
     \<and> (df_state (lf_dupe s) = LClearing \<longrightarrow> lf_clear s \<noteq> None)
     \<and> (df_close_requested (lf_dupe s) \<longrightarrow> df_state (lf_dupe s) = LClosing)
     \<and> (\<forall>prior b. lf_clear s = Some (prior, b) \<longrightarrow> prior \<in> {LNew, LOpen})"

definition close_inv :: "life \<Rightarrow> bool" where
  "close_inv s \<longleftrightarrow>
     (df_open_owner (lf_dupe s) \<noteq> None \<longrightarrow> df_state (lf_dupe s) = LOpening)
     \<and> (df_release_thread (lf_dupe s) \<noteq> None \<longrightarrow> df_state (lf_dupe s) = LClosing)
     \<and> (lf_closing s \<longrightarrow> df_release_thread (lf_dupe s) \<noteq> None \<and> lf_clear s = None \<and> df_active (lf_dupe s) = [])
     \<and> (df_filter_released (lf_dupe s) \<longrightarrow> shut (df_state (lf_dupe s)) \<and> lf_clear s = None \<and> df_active (lf_dupe s) = [])
     \<and> (df_manager_released (lf_dupe s) \<longrightarrow> df_filter_released (lf_dupe s))
     \<and> (df_state (lf_dupe s) = LClosed \<longrightarrow>
          df_filter_released (lf_dupe s) \<and> (df_owns_manager (lf_dupe s) \<longrightarrow> df_manager_released (lf_dupe s)))
     \<and> lf_closed s = of_bool (df_filter_released (lf_dupe s))
     \<and> lf_released s = of_bool (df_manager_released (lf_dupe s))"

definition life_inv :: "life \<Rightarrow> bool" where
  "life_inv s \<longleftrightarrow> clear_inv s \<and> close_inv s"

lemmas life_defs = life_inv_def clear_inv_def close_inv_def count_def shut_def

text \<open>A close attempt is refused, with at most the opener and the owner changed, or reserved.\<close>

lemma reserve_release_cases:
  assumes "reserve_release owner t opening alive d = (r, d')"
  obtains (refused) oo ro where "d' = d\<lparr>df_open_owner := oo, df_release_owner := ro\<rparr>" "oo = df_open_owner d \<or> oo = None"
  | (reserved) oo ro where "df_state d \<noteq> LClosed" "df_release_thread d = None"
      "oo = (if df_state d = LOpening then None else df_open_owner d)"
      "d' = d\<lparr>df_open_owner := oo, df_release_owner := ro, df_release_thread := Some t,
              df_close_requested := (df_state d = LClearing), df_spider := None, df_state := LClosing\<rparr>"
proof -
  define d1 where "d1 = (if df_state d = LOpening then d\<lparr>df_open_owner := None\<rparr> else d)"
  define d2 where "d2 = (if df_release_owner d1 = None then d1\<lparr>df_release_owner := Some owner\<rparr> else d1)"
  have d2: "d2 = d\<lparr>df_open_owner := df_open_owner d1, df_release_owner := df_release_owner d2\<rparr>"
    "d1 = d\<lparr>df_open_owner := df_open_owner d1, df_release_owner := df_release_owner d\<rparr>"
    "d = d\<lparr>df_open_owner := df_open_owner d, df_release_owner := df_release_owner d\<rparr>"
    by (simp_all add: d1_def d2_def)
  have oo: "df_open_owner d1 = (if df_state d = LOpening then None else df_open_owner d)" by (simp add: d1_def)
  have same: "df_state d2 = df_state d" "df_release_thread d2 = df_release_thread d" by (simp_all add: d1_def d2_def)
  consider "d' = d" | "d' = d1" | "d' = d2"
    | "df_state d \<noteq> LClosed" "df_release_thread d2 = None" "d' = d2\<lparr>df_release_thread := Some t,
        df_close_requested := (df_state d2 = LClearing), df_spider := None, df_state := LClosing\<rparr>"
    using assms unfolding reserve_release_def Let_def d1_def [symmetric] d2_def [symmetric]
    by (simp only: prod.inject split: if_split_asm) blast+
  then show thesis
  proof cases
    case 1
    then show thesis using refused d2(3) by blast
  next
    case 2
    then show thesis using refused d2(2) oo by (metis (full_types))
  next
    case 3
    then show thesis using refused d2(1) oo by (metis (full_types))
  next
    case 4
    have "d' = d\<lparr>df_open_owner := df_open_owner d1, df_release_owner := df_release_owner d2, df_release_thread := Some t,
              df_close_requested := (df_state d = LClearing), df_spider := None, df_state := LClosing\<rparr>"
      unfolding 4(3) same(1) by (subst d2(1)) simp
    then show thesis using reserved 4(1,2) oo same by metis
  qed
qed

lemma inv_close_begins:
  assumes inv: "life_inv s" and r: "reserve_release owner t opening alive (lf_dupe s) = (r, d)"
    and "lf_clear s = None \<or> df_state (lf_dupe s) \<noteq> LClosing"
  shows "life_inv (s\<lparr>lf_dupe := d\<rparr>)"
  using r
proof (cases rule: reserve_release_cases)
  case (refused oo ro)
  then show ?thesis using inv by (cases "df_state (lf_dupe s)") (auto simp: life_defs)
next
  case (reserved oo ro)
  then show ?thesis using inv assms(3) by (cases "df_state (lf_dupe s)") (auto simp: life_defs)
qed

lemma inv_close_ends:
  assumes "life_inv s" and "lf_closing s" and "close_callbacks fc mr (lf_dupe s) = (r, d)"
  shows "life_inv (s\<lparr>lf_dupe := release_end d, lf_closing := False,
             lf_closed := lf_closed s + count (df_filter_released (lf_dupe s)) (df_filter_released d),
             lf_released := lf_released s + count (df_manager_released (lf_dupe s)) (df_manager_released d)\<rparr>)"
  using assms
  by (auto simp: close_callbacks_def life_defs release_end_def Let_def split: if_splits sum.splits option.splits)

lemma life_step_inv:
  assumes "life_step orderly s s'" and orderly and "life_inv s"
  shows "life_inv s'"
  using assms
proof (induction rule: life_step.induct)
  case close_begins
  then show ?case using inv_close_begins by blast
next
  case close_ends
  then show ?case using inv_close_ends by blast
next
  case (enter t s d)
  then have st: "df_state (lf_dupe s) = LNew \<or> df_state (lf_dupe s) = LOpen"
    and d: "d = (lf_dupe s)\<lparr>df_active := (t, df_epoch (lf_dupe s)) # df_active (lf_dupe s)\<rparr>"
    by (simp_all add: admit_def split: if_splits)
  from st show ?case
    by (elim disjE; use enter(3) in \<open>simp add: d life_defs, auto?\<close>)
next
  case (exit s t ep)
  then show ?case by (cases "df_state (lf_dupe s)") (auto simp: life_defs leave_def)
next
  case (open_begins t owner spider s r d)
  then show ?case by (cases "df_state (lf_dupe s)") (auto simp: life_defs open_begin_def split: if_splits)
next
  case (open_times_out s owner)
  then show ?case by (cases "df_state (lf_dupe s)") (auto simp: life_defs open_timeout_def)
next
  case (open_drained s owner)
  then show ?case by (cases "df_state (lf_dupe s)") (auto simp: life_defs retire_epoch_def)
next
  case (open_ends owner spider clear_on_open s r d)
  let ?e = "if clear_on_open then (retire_epoch (lf_dupe s))\<lparr>df_epoch := df_epoch (lf_dupe s)\<rparr> else lf_dupe s"
  have "life_inv (s\<lparr>lf_dupe := ?e\<rparr>)"
    using open_ends(3) by (cases clear_on_open) (simp_all add: life_inv_def clear_inv_def close_inv_def retire_epoch_def, blast+)
  then have e: "life_inv (s\<lparr>lf_dupe := e\<rparr>)" if "e = ?e" for e using that by simp
  have d: "d = (if df_open_owner e \<noteq> Some owner then e else e\<lparr>df_spider := spider, df_open_owner := None, df_state := LOpen\<rparr>)"
    if "e = ?e" for e
    using open_ends(1) unfolding open_end_def Let_def that [symmetric] by (simp split: if_splits)
  obtain e where "e = ?e" by blast
  note e = e [OF this] and d = d [OF this]
  show ?case
  proof (cases "df_open_owner e = Some owner")
    case False
    then show ?thesis using e d by simp
  next
    case True
    then have "df_state e = LOpening" using e by (simp add: life_inv_def close_inv_def)
    with True show ?thesis using e unfolding d by (simp add: life_defs) auto
  qed
next
  case (clear_begins t s prior d)
  then show ?case by (cases "df_state (lf_dupe s)") (auto simp: life_defs clear_begin_def split: if_splits)
next
  case (clear_times_out s prior)
  then show ?case by (cases "df_state (lf_dupe s)") (auto simp: life_defs clear_timeout_def)
next
  case (clear_drained s prior)
  then show ?case by (cases "df_state (lf_dupe s)") (auto simp: life_defs)
next
  case (clear_ends s prior succeeded)
  then show ?case by (cases succeeded; cases "df_state (lf_dupe s)") (auto simp: life_defs clear_end_def retire_epoch_def)
next
  case (aliased s owner)
  then show ?case by (cases "df_state (lf_dupe s)") (auto simp: life_defs authorize_release_owner_alias_def)
next
  case (close_times_out s t)
  then show ?case by (cases "df_state (lf_dupe s)") (auto simp: life_defs release_end_def)
next
  case (close_drained s t)
  then have "lf_clear s = None" by (cases "lf_clear s") (auto simp: life_inv_def clear_inv_def)
  with close_drained show ?case
    by (cases "df_state (lf_dupe s)") (auto simp: life_defs retire_epoch_def quiescent_def)
qed

lemma life_reachable_inv: "(life_step True)\<^sup>*\<^sup>* s s' \<Longrightarrow> life_inv s \<Longrightarrow> life_inv s'"
  by (induction rule: rtranclp_induct) (auto intro: life_step_inv)

text \<open>Nothing reopens a filter that is closing.\<close>

lemma life_step_shut:
  assumes "life_step orderly s s'" and orderly and "life_inv s" and "shut (df_state (lf_dupe s))"
  shows "shut (df_state (lf_dupe s')) \<and> (df_state (lf_dupe s) = LClosed \<longrightarrow> df_state (lf_dupe s') = LClosed)"
  using assms
proof (induction rule: life_step.induct)
  case (close_begins owner t op alive s r d)
  from close_begins(1) show ?case
    by (cases rule: reserve_release_cases) (use close_begins(5) in \<open>auto simp: shut_def\<close>)
next
  case (close_ends s fc mr r d)
  then show ?case
    by (auto simp: close_callbacks_def release_end_def Let_def shut_def life_inv_def close_inv_def
        split: if_splits sum.splits option.splits)
next
  case (open_ends owner spider clear_on_open s r d)
  then have "df_open_owner (lf_dupe s) = None" by (auto simp: life_inv_def close_inv_def shut_def)
  then show ?case using open_ends(1,4) by (auto simp: open_end_def retire_epoch_def shut_def Let_def split: if_splits)
next
  case (clear_ends s prior succeeded)
  then show ?case by (auto simp: clear_end_def retire_epoch_def shut_def life_inv_def clear_inv_def Let_def)
next
  case (enter t s d)
  then show ?case by (auto simp: admit_def shut_def split: if_splits)
next
  case (open_begins t owner spider s r d)
  then show ?case by (auto simp: open_begin_def shut_def split: if_splits)
next
  case (clear_begins t s prior d)
  then show ?case by (auto simp: clear_begin_def shut_def split: if_splits)
next
  case (clear_times_out s prior)
  then have "df_state (lf_dupe s) = LClearing \<or> df_close_requested (lf_dupe s)" by (auto simp: life_inv_def clear_inv_def)
  then show ?case using clear_times_out(2,3,5) by (auto simp: shut_def)
next
  case (aliased s owner)
  then show ?case by (auto simp: shut_def authorize_release_owner_alias_def)
qed (simp_all add: shut_def leave_def retire_epoch_def authorize_release_owner_alias_def release_end_def)

lemma life_shut_stays:
  assumes "(life_step True)\<^sup>*\<^sup>* s s'" and "life_inv s" and "shut (df_state (lf_dupe s))"
  shows "shut (df_state (lf_dupe s')) \<and> (df_state (lf_dupe s) = LClosed \<longrightarrow> df_state (lf_dupe s') = LClosed)"
  using assms
proof (induction rule: rtranclp_induct)
  case (step y z)
  then show ?case using life_step_shut [OF step(2)] life_reachable_inv [OF step(1)] by blast
qed simp


definition demo_life :: "dupe \<Rightarrow> (lifecycle \<times> bool) option \<Rightarrow> bool \<Rightarrow> nat \<Rightarrow> life" where
  "demo_life d c b n = \<lparr>lf_dupe = d, lf_clear = c, lf_closing = b, lf_closed = n, lf_released = 0\<rparr>"

lemmas demo_life_simps = demo_life_def life_init_def dupe_init_def reserve_release_def wait_refused_def quiescent_def retire_epoch_def
  close_callbacks_def release_end_def count_def admit_def open_begin_def open_end_def clear_begin_def clear_timeout_def leave_def Let_def

definition demo_closing :: dupe where
  "demo_closing = (dupe_init False)\<lparr>df_state := LClosing, df_release_owner := Some 0, df_release_thread := Some 3\<rparr>"



end
