(* ===== verification/Queue_Checkpoint.thy ===== *)
theory Queue_Checkpoint
  imports Snapshot_Safety
begin

text \<open>
  The checkpoint of a backend queue, \<open>queue/queue.py\<close>: the keys under which the state of an in-process strategy
  is kept, its restoration at startup, and its commit when the queue closes, over the snapshot repository
  of \<open>Snapshot_Store\<close>. The strategy is its \<open>snapshot\<close> and \<open>restore\<close> over a state type; the storage is what the connection
  manager resolves. Log records are left out.
\<close>

section \<open>Keys\<close>

text \<open>
  The parts of a \<open>BackendQueue\<close> its checkpoint depends on: the spider's name, the configured snapshot owner, the queue's
  name, and the three flags of the migration from unversioned checkpoints.
\<close>

record ckpt =
  qc_spider :: "string option"
  qc_owner :: "string option"
  qc_queue :: string
  qc_defer :: bool
  qc_pending :: bool
  qc_fenced :: bool

definition snapshot_key_prefix :: string where
  "snapshot_key_prefix = ''queue:snapshot:''"

definition snapshot_tombstone_prefix :: string where
  "snapshot_tombstone_prefix = ''queue:snapshot-tombstone:''"

definition spider_component :: "ckpt \<Rightarrow> string" where
  "spider_component q = (case qc_spider q of None \<Rightarrow> [] | Some s \<Rightarrow> s)"

text \<open>A component with its length in front.\<close>

definition sized :: "string \<Rightarrow> string" where
  "sized s = str_of_nat (length s) @ CHR '':'' # s"

definition snapshot_identity :: "ckpt \<Rightarrow> string" where
  "snapshot_identity q =
     (case qc_owner q of
        Some owner \<Rightarrow> ''v2:'' @ sized owner @ '':'' @ sized (spider_component q) @ '':'' @ qc_queue q
      | None \<Rightarrow> ''v3:'' @ sized (spider_component q) @ '':'' @ sized (qc_queue q))"

definition snapshot_key :: "ckpt \<Rightarrow> string" where
  "snapshot_key q = snapshot_key_prefix @ snapshot_identity q"

definition empty_snapshot_tombstone_key :: "ckpt \<Rightarrow> string" where
  "empty_snapshot_tombstone_key q = snapshot_tombstone_prefix @ snapshot_identity q"

definition legacy_snapshot_key :: "ckpt \<Rightarrow> string option" where
  "legacy_snapshot_key q =
     (if qc_owner q \<noteq> None \<or> spider_component q \<noteq> [] \<or> CHR '':'' \<in> set (qc_queue q) then None
      else Some (snapshot_key_prefix @ qc_queue q))"

section \<open>Storage\<close>

text \<open>
  What \<open>get_storage_backend\<close> gives: \<open>None\<close> when the manager has no such method. \<open>snapshot_storage\<close> is \<open>None\<close> when checkpoints are
  unavailable by design; a failed resolution is an error.
\<close>

definition snapshot_storage :: "'s snap_storage result option \<Rightarrow> 's snap_storage option result" where
  "snapshot_storage get =
     (case get of
        None \<Rightarrow> Inr None
      | Some (Inr S) \<Rightarrow> Inr (Some S)
      | Some (Inl e) \<Rightarrow> if e = NotImplementedError then Inr None else if ordinary e then Inl QueueError else Inl e)"

text \<open>The resolution of the size limits in \<open>__init__\<close>; the default maximum is 128 MiB.\<close>

definition resolve_snapshot_limits :: "int option \<Rightarrow> int \<Rightarrow> repo result" where
  "resolve_snapshot_limits max_bytes chunk_bytes =
     (case max_bytes of
        None \<Rightarrow> repo_init (PyInt 134217728) (PyInt (min chunk_bytes 134217728))
      | Some m \<Rightarrow> repo_init (PyInt m) (PyInt chunk_bytes))"

section \<open>Persisting\<close>

text \<open>\<open>except Exception\<close> with a redacted error, and \<open>except SnapshotRepositoryError\<close>.\<close>

definition as_queue_error :: "exn \<Rightarrow> exn" where
  "as_queue_error e = (if ordinary e then QueueError else e)"

definition tombstone_marker :: bytes where
  "tombstone_marker = [49]"

text \<open>The cleanup after a commit: the legacy key, then the tombstone; an ordinary failure is only logged.\<close>

definition retire_legacy :: "'s snap_storage \<Rightarrow> ckpt \<Rightarrow> 's \<Rightarrow> (unit, 's) outcome" where
  "retire_legacy S q s =
     (case legacy_snapshot_key q of
        None \<Rightarrow> (Inr (), s)
      | Some key \<Rightarrow>
          (case ss_delete S key s of
             (Inl e, s1) \<Rightarrow> (if ordinary e then Inr () else Inl e, s1)
           | (Inr _, s1) \<Rightarrow>
               (case ss_delete S (empty_snapshot_tombstone_key q) s1 of
                  (Inl e, s2) \<Rightarrow> (if ordinary e then Inr () else Inl e, s2)
                | (Inr _, s2) \<Rightarrow> (Inr (), s2))))"

definition persist_state ::
  "'s snap_storage \<Rightarrow> repo \<Rightarrow> (bytes \<Rightarrow> string) \<Rightarrow> string \<Rightarrow> snap_state \<Rightarrow> ckpt \<Rightarrow> 's \<Rightarrow> (unit, ckpt \<times> 's) outcome" where
  "persist_state S R sha generation state q s =
     (if qc_defer q \<and> state = NoState then
        (case ss_delete S (empty_snapshot_tombstone_key q) s of
           (Inl e, s1) \<Rightarrow> (Inl (as_queue_error e), q, s1)
         | (Inr _, s1) \<Rightarrow> (Inr (), q\<lparr>qc_defer := False\<rparr>, s1))
      else
        (case (if state = NoState \<and> qc_pending q then store_verified S (empty_snapshot_tombstone_key q) tombstone_marker s
               else (Inr (), s)) of
           (Inl e, s1) \<Rightarrow> (Inl (as_queue_error e), q, s1)
         | (Inr _, s1) \<Rightarrow>
             (case repo_commit S R sha generation (snapshot_key q) state s1 of
                (Inl e, s2) \<Rightarrow> (Inl (as_queue_error e), q, s2)
              | (Inr _, s2) \<Rightarrow>
                  (case retire_legacy S q s2 of (r, s3) \<Rightarrow> (r, q\<lparr>qc_defer := False\<rparr>, s3)))))"

definition persist_snapshot ::
  "'s snap_storage result option \<Rightarrow> repo \<Rightarrow> (bytes \<Rightarrow> string) \<Rightarrow> string \<Rightarrow> ('x \<Rightarrow> (snap_state, 'x) outcome)
    \<Rightarrow> ckpt \<times> 'x \<times> 's \<Rightarrow> (unit, ckpt \<times> 'x \<times> 's) outcome" where
  "persist_snapshot get R sha generation snapshot w =
     (case w of (q, x, s) \<Rightarrow>
        if qc_fenced q then (Inl QueueError, q, x, s)
        else
          (case snapshot x of
             (Inl e, x1) \<Rightarrow> (Inl (as_queue_error e), q, x1, s)
           | (Inr state, x1) \<Rightarrow>
               (case snapshot_storage get of
                  Inl e \<Rightarrow> (Inl e, q, x1, s)
                | Inr None \<Rightarrow> (if state = NoState \<and> \<not> qc_defer q then Inr () else Inl QueueError, q, x1, s)
                | Inr (Some S) \<Rightarrow>
                    (case persist_state S R sha generation state q s of (r, q1, s1) \<Rightarrow> (r, q1, x1, s1)))))"

definition reset_snapshot :: "bool \<Rightarrow> bool \<Rightarrow> ckpt \<Rightarrow> (unit, ckpt) outcome" where
  "reset_snapshot close_complete close_in_progress q =
     (if close_complete \<or> close_in_progress then (Inl QueueError, q) else (Inr (), q\<lparr>qc_fenced := False\<rparr>))"

section \<open>Restoring\<close>

text \<open>The one failure of a read that protects nothing: the stored value has no bytes at all.\<close>

definition manifest_foreign :: "'s snap_storage \<Rightarrow> repo \<Rightarrow> string \<Rightarrow> 's \<Rightarrow> bool" where
  "manifest_foreign S R key s \<longleftrightarrow>
     validate_logical_key S key = Inr () \<and>
     (case retrieve S key s of
        (Inr (Some v), _) \<Rightarrow> copy_buffer (Some v) (max (rp_max_bytes R) max_manifest_bytes) = Inl BufInvalid
      | _ \<Rightarrow> False)"

text \<open>
  The fallback to an unversioned checkpoint: \<open>None\<close> when startup ends here. A tombstone says that the old value
  was given up; a failed read is remembered, so that the old value is not retired.
\<close>

definition read_legacy ::
  "'s snap_storage \<Rightarrow> repo \<Rightarrow> (bytes \<Rightarrow> string) \<Rightarrow> nat \<Rightarrow> ckpt \<Rightarrow> 's \<Rightarrow> (snapshot_read option, ckpt \<times> 's) outcome" where
  "read_legacy S R sha depth q s =
     (case legacy_snapshot_key q of
        None \<Rightarrow> (Inr None, q, s)
      | Some key \<Rightarrow>
          (case ss_retrieve S (empty_snapshot_tombstone_key q) s of
             (Inr (Some _), s1) \<Rightarrow> (Inr None, q, s1)
           | (r, s1) \<Rightarrow>
               if (\<exists>e. r = Inl e \<and> \<not> ordinary e) then (Inl ProcessSignal, q, s1)
               else
                 (case repo_read S R sha depth key s1 of
                    (Inl e, s2) \<Rightarrow>
                      if e = SnapshotRepositoryError then (Inr None, q\<lparr>qc_defer := True\<rparr>, s2) else (Inl e, q, s2)
                  | (Inr res, s2) \<Rightarrow> (Inr (Some res), if sr_found res then q\<lparr>qc_pending := True\<rparr> else q, s2))))"

text \<open>Applying what was read: an empty raw value is the old form of no state.\<close>

definition apply_read :: "(bytes \<Rightarrow> 'x \<Rightarrow> (unit, 'x) outcome) \<Rightarrow> snapshot_read \<Rightarrow> ckpt \<times> 'x \<Rightarrow> (unit, ckpt \<times> 'x) outcome" where
  "apply_read restore res w =
     (case w of (q, x) \<Rightarrow>
        (case sr_state res of
           None \<Rightarrow> (Inr (), q, x)
         | Some bs \<Rightarrow>
             if \<not> sr_found res \<or> \<not> sr_manifest res \<and> bs = [] then (Inr (), q, x)
             else
               (case restore bs x of
                  (Inr _, x1) \<Rightarrow> (Inr (), q, x1)
                | (Inl e, x1) \<Rightarrow> if ordinary e then (Inr (), q\<lparr>qc_fenced := True\<rparr>, x1) else (Inl e, q, x1))))"

definition restore_snapshot ::
  "'s snap_storage result option \<Rightarrow> repo \<Rightarrow> (bytes \<Rightarrow> string) \<Rightarrow> nat \<Rightarrow> (bytes \<Rightarrow> 'x \<Rightarrow> (unit, 'x) outcome)
    \<Rightarrow> ckpt \<times> 'x \<times> 's \<Rightarrow> (unit, ckpt \<times> 'x \<times> 's) outcome" where
  "restore_snapshot get R sha depth restore w =
     (case w of (q, x, s) \<Rightarrow>
        (case snapshot_storage get of
           Inl e \<Rightarrow> if e = QueueError then (Inr (), q\<lparr>qc_fenced := True\<rparr>, x, s) else (Inl e, q, x, s)
         | Inr None \<Rightarrow> (Inr (), q, x, s)
         | Inr (Some S) \<Rightarrow>
             (case repo_read S R sha depth (snapshot_key q) s of
                (Inl e, s1) \<Rightarrow>
                  if e \<noteq> SnapshotRepositoryError then (Inl e, q, x, s1)
                  else (Inr (), if manifest_foreign S R (snapshot_key q) s then q else q\<lparr>qc_fenced := True\<rparr>, x, s1)
              | (Inr res, s1) \<Rightarrow>
                  (case (if sr_found res then (Inr (Some res), q, s1) else read_legacy S R sha depth q s1) of
                     (Inl e, q2, s2) \<Rightarrow> (Inl e, q2, x, s2)
                   | (Inr None, q2, s2) \<Rightarrow> (Inr (), q2, x, s2)
                   | (Inr (Some res'), q2, s2) \<Rightarrow>
                       (case apply_read restore res' (q2, x) of (r, q3, x1) \<Rightarrow> (r, q3, x1, s2))))))"

section \<open>Distinct keys\<close>

lemma sized_inj: "sized a @ x = sized b @ y \<Longrightarrow> a = b \<and> x = y"
proof -
  assume "sized a @ x = sized b @ y"
  then have "str_of_nat (length a) @ CHR '':'' # (a @ x) = str_of_nat (length b) @ CHR '':'' # (b @ y)" by (simp add: sized_def)
  from append_colon_inj [OF str_of_nat_no_colon str_of_nat_no_colon this] have "length a = length b" "a @ x = b @ y"
    using str_of_nat_inj by blast+
  then show ?thesis by simp
qed

text \<open>What identifies a checkpoint; no spider and a spider without a name are the same.\<close>

definition qc_identity :: "ckpt \<Rightarrow> string option \<times> string \<times> string" where
  "qc_identity q = (qc_owner q, spider_component q, qc_queue q)"

lemma snapshot_identity_inj: "snapshot_identity q = snapshot_identity q' \<longleftrightarrow> qc_identity q = qc_identity q'"
proof
  assume e: "snapshot_identity q = snapshot_identity q'"
  show "qc_identity q = qc_identity q'"
  proof (cases "qc_owner q"; cases "qc_owner q'")
    fix a b
    assume o: "qc_owner q = Some a" "qc_owner q' = Some b"
    with e have "sized a @ '':'' @ sized (spider_component q) @ '':'' @ qc_queue q
        = sized b @ '':'' @ sized (spider_component q') @ '':'' @ qc_queue q'"
      by (simp add: snapshot_identity_def)
    from sized_inj [OF this] have "a = b" "sized (spider_component q) @ '':'' @ qc_queue q = sized (spider_component q') @ '':'' @ qc_queue q'"
      by simp_all
    with sized_inj [OF this(2)] o show ?thesis by (simp add: qc_identity_def)
  next
    assume o: "qc_owner q = None" "qc_owner q' = None"
    with e have "sized (spider_component q) @ '':'' @ sized (qc_queue q) = sized (spider_component q') @ '':'' @ sized (qc_queue q')"
      by (simp add: snapshot_identity_def)
    from sized_inj [OF this] sized_inj [of "qc_queue q" "[]" "qc_queue q'" "[]"] o show ?thesis by (simp add: qc_identity_def)
  qed (use e in \<open>simp_all add: snapshot_identity_def\<close>)
next
  assume "qc_identity q = qc_identity q'"
  then show "snapshot_identity q = snapshot_identity q'" by (simp add: qc_identity_def snapshot_identity_def split: option.split)
qed

lemma snapshot_identity_colon: "CHR '':'' \<in> set (snapshot_identity q)"
  by (simp add: snapshot_identity_def split: option.split)

lemma legacy_no_colon: "legacy_snapshot_key q = Some k \<Longrightarrow> \<exists>t. k = snapshot_key_prefix @ t \<and> CHR '':'' \<notin> set t"
  by (auto simp: legacy_snapshot_key_def split: if_splits)

lemma tombstone_not_snapshot: "empty_snapshot_tombstone_key q \<noteq> snapshot_key q'"
  by (simp add: empty_snapshot_tombstone_key_def snapshot_key_def snapshot_key_prefix_def snapshot_tombstone_prefix_def)

lemma legacy_not_snapshot: "legacy_snapshot_key q \<noteq> Some (snapshot_key q')"
  using legacy_no_colon [of q "snapshot_key q'"] snapshot_identity_colon [of q'] by (auto simp: snapshot_key_def)

lemma legacy_not_tombstone: "legacy_snapshot_key q \<noteq> Some (empty_snapshot_tombstone_key q')"
  using legacy_no_colon [of q "empty_snapshot_tombstone_key q'"]
  by (auto simp: empty_snapshot_tombstone_key_def snapshot_key_prefix_def snapshot_tombstone_prefix_def)

text \<open>
  C37. Checkpoints do not collide: two queues use the same checkpoint key, or the same tombstone key, exactly when they
  agree on owner, spider and queue name, whatever colons the names contain; and a tombstone or an
  unversioned checkpoint is never taken for a checkpoint of any queue.
\<close>

theorem snapshot_keys_distinct:
  "(snapshot_key q = snapshot_key q' \<longleftrightarrow> qc_identity q = qc_identity q')
    \<and> (empty_snapshot_tombstone_key q = empty_snapshot_tombstone_key q' \<longleftrightarrow> qc_identity q = qc_identity q')
    \<and> empty_snapshot_tombstone_key q \<noteq> snapshot_key q'
    \<and> legacy_snapshot_key q \<noteq> Some (snapshot_key q') \<and> legacy_snapshot_key q \<noteq> Some (empty_snapshot_tombstone_key q')"
  using snapshot_identity_inj tombstone_not_snapshot legacy_not_snapshot legacy_not_tombstone
  by (simp add: snapshot_key_def empty_snapshot_tombstone_key_def)

section \<open>Checkpoints are kept\<close>

text \<open>The keys beside the checkpoint: no chunk of any manifest under the checkpoint key is one of them.\<close>

definition side_key :: "ckpt \<Rightarrow> string \<Rightarrow> bool" where
  "side_key q k \<longleftrightarrow> k = empty_snapshot_tombstone_key q \<or> legacy_snapshot_key q = Some k"

lemma side_key_apart:
  assumes "side_key q k"
  shows "k \<noteq> snapshot_key q" "manifest_chunk_key sha (snapshot_key q) m i \<noteq> k"
proof -
  show "k \<noteq> snapshot_key q" using assms tombstone_not_snapshot legacy_not_snapshot by (metis side_key_def)
  have v4: "v4_chunk_key (snapshot_key q) g i \<noteq> k" for g
    using assms legacy_no_colon [of q k] snapshot_identity_colon [of q]
    by (auto simp: side_key_def v4_chunk_key_def snapshot_key_def empty_snapshot_tombstone_key_def snapshot_key_prefix_def
        snapshot_tombstone_prefix_def)
  show "manifest_chunk_key sha (snapshot_key q) m i \<noteq> k"
    using assms v4 legacy_no_colon [of q k]
    by (auto simp: side_key_def manifest_chunk_key_def legacy_chunk_key_def chunk_key_def legacy_chunk_prefix_def
        current_chunk_prefix_def empty_snapshot_tombstone_key_def snapshot_key_prefix_def snapshot_tombstone_prefix_def)
qed

lemma view_side:
  assumes "\<forall>k. \<not> side_key q k \<longrightarrow> c k = c' k"
  shows "snap_view R sha depth (snapshot_key q) c = snap_view R sha depth (snapshot_key q) c'"
proof (rule snap_view_cong)
  show "c (snapshot_key q) = c' (snapshot_key q)" using assms side_key_apart(1) by blast
  show "c (manifest_chunk_key sha (snapshot_key q) m i) = c' (manifest_chunk_key sha (snapshot_key q) m i)" for m i
    using assms side_key_apart(2) by blast
qed

lemma delete_side:
  assumes "lawful_storage S content" and "ss_delete S k s = (r, s')" and "side_key q k"
  shows "\<forall>k. \<not> side_key q k \<longrightarrow> content s' k = content s k"
proof -
  have "content s' = (content s)(k := None) \<or> content s' = content s" using assms(1,2) by (simp add: lawful_storage_def)
  then show ?thesis using assms(3) by auto
qed

lemma retire_legacy_side:
  assumes "lawful_storage S content" and "retire_legacy S q s = (r, s')"
  shows "\<forall>k. \<not> side_key q k \<longrightarrow> content s' k = content s k"
proof (cases "legacy_snapshot_key q")
  case None
  then show ?thesis using assms(2) by (simp add: retire_legacy_def)
next
  case (Some key)
  obtain r1 s1 where d1: "ss_delete S key s = (r1, s1)" by fastforce
  obtain r2 s2 where d2: "ss_delete S (empty_snapshot_tombstone_key q) s1 = (r2, s2)" by fastforce
  have "side_key q key" "side_key q (empty_snapshot_tombstone_key q)" using Some by (simp_all add: side_key_def)
  with delete_side [OF assms(1) d1, of q] delete_side [OF assms(1) d2, of q] Some d1 d2 assms(2)
  show ?thesis by (auto simp: retire_legacy_def split: sum.splits if_splits)
qed

lemma marker_no_manifest: "0 < depth \<Longrightarrow> decode_manifest depth tombstone_marker = Inr None"
proof -
  assume "0 < depth"
  then have ok: "json_ok (\<lambda>_. []) depth (JInt 1)" by (simp add: int_text_def str_of_nat.simps)
  have "tombstone_marker = ascii_bytes (json_text (compact_style True) (\<lambda>_. []) (JInt 1))"
    by (simp add: tombstone_marker_def ascii_bytes_def int_text_def str_of_nat.simps codes_def)
  moreover have "build plain_hooks (\<lambda>_. []) (JInt 1) = Inr (VInt 1)" by (simp add: plain_hooks_def)
  ultimately have "loads_bytes plain_hooks depth tombstone_marker = Inr (VInt 1)"
    using loads_dumps(2) [OF styles_ascii(2) ok] by metis
  then show ?thesis by (simp add: decode_manifest_def max_manifest_bytes_def tombstone_marker_def)
qed

lemma fresh_generation_marker:
  assumes "0 < depth" and "fresh_generation depth g c"
  shows "fresh_generation depth g (c(k \<mapsto> tombstone_marker))"
  unfolding fresh_generation_def
proof (intro allI impI)
  fix k' raw m
  assume "(c(k \<mapsto> tombstone_marker)) k' = Some raw" and dec: "decode_manifest depth raw = Inr (Some m)"
  then have "c k' = Some raw" using marker_no_manifest [OF assms(1)] by (auto split: if_splits)
  with assms(2) dec show "mf_generation m \<noteq> g" unfolding fresh_generation_def by blast
qed

text \<open>
  Persisting a state: the checkpoint is the new one, or what it was, and then the call raised, or nothing had to be
  written because an unread old checkpoint is to be kept.
\<close>

lemma persist_state_view:
  assumes S: "lawful_storage S content" and sha: "sha_ok sha" and R: "repo_ok R" and g: "hex_text 32 (codes g)" and d: "0 < depth"
    and fresh: "fresh_generation depth g (content s)"
    and run: "persist_state S R sha g state q s = (r, q', s')"
  shows "snap_view R sha depth (snapshot_key q) (content s') = Inr (committed_read g (state_of state)) \<and> state \<noteq> StateForeign
    \<or> (r \<noteq> Inr () \<or> qc_defer q \<and> state = NoState)
      \<and> snap_view R sha depth (snapshot_key q) (content s') = snap_view R sha depth (snapshot_key q) (content s)"
proof (cases "qc_defer q \<and> state = NoState")
  case True
  obtain r1 s1 where del: "ss_delete S (empty_snapshot_tombstone_key q) s = (r1, s1)" by fastforce
  have "s' = s1" using run True del by (auto simp: persist_state_def split: sum.splits)
  moreover have "side_key q (empty_snapshot_tombstone_key q)" by (simp add: side_key_def)
  ultimately show ?thesis using True view_side delete_side [OF S del] by metis
next
  case False
  define st where "st = (if state = NoState \<and> qc_pending q then store_verified S (empty_snapshot_tombstone_key q) tombstone_marker s
    else (Inr (), s))"
  obtain r1 s1 where st1: "st = (r1, s1)" by fastforce
  have c1: "content s1 = content s \<or> content s1 = (content s)(empty_snapshot_tombstone_key q \<mapsto> tombstone_marker)"
    using st1 lawful_store [OF S, of "empty_snapshot_tombstone_key q" tombstone_marker s r1 s1]
    by (auto simp: st_def split: if_splits)
  then have "\<forall>k. \<not> side_key q k \<longrightarrow> content s1 k = content s k" by (auto simp: side_key_def)
  then have v1: "snap_view R sha depth (snapshot_key q) (content s1) = snap_view R sha depth (snapshot_key q) (content s)"
    by (rule view_side)
  have f1: "fresh_generation depth g (content s1)"
    using c1 fresh fresh_generation_marker [OF d fresh] by metis
  obtain r2 s2 where cm: "repo_commit S R sha g (snapshot_key q) state s1 = (r2, s2)" by fastforce
  obtain r3 s3 where rl: "retire_legacy S q s2 = (r3, s3)" by fastforce
  note atomic = repo_commit_atomic [OF S sha R g d f1 cm]
  have foreign: "r2 \<noteq> Inr ()" if "state = StateForeign"
    using that cm by (auto simp: repo_commit_def commit_terminal_def split: sum.splits)
  have unforeign: "state \<noteq> StateForeign
      \<or> snap_view R sha depth (snapshot_key q) (content s2) = snap_view R sha depth (snapshot_key q) (content s1)"
    using cm by (cases state) (auto simp: repo_commit_def commit_terminal_def split: sum.splits)
  have v3: "snap_view R sha depth (snapshot_key q) (content s3) = snap_view R sha depth (snapshot_key q) (content s2)"
    by (rule view_side) (rule retire_legacy_side [OF S rl])
  have run': "(case st of (Inl e, s1) \<Rightarrow> (Inl (as_queue_error e), q, s1)
      | (Inr _, s1) \<Rightarrow> (case repo_commit S R sha g (snapshot_key q) state s1 of
          (Inl e, s2) \<Rightarrow> (Inl (as_queue_error e), q, s2)
        | (Inr _, s2) \<Rightarrow> (case retire_legacy S q s2 of (r, s3) \<Rightarrow> (r, q\<lparr>qc_defer := False\<rparr>, s3)))) = (r, q', s')"
    using run False unfolding persist_state_def st_def by (simp only: if_False)
  show ?thesis
  proof (cases r1)
    case (Inl e)
    then show ?thesis using run' st1 v1 by auto
  next
    case r1: (Inr u)
    show ?thesis
    proof (cases r2)
      case (Inl e)
      then show ?thesis using run' st1 r1 cm v1 atomic unforeign by auto
    next
      case (Inr u')
      then show ?thesis using run' st1 r1 cm rl v3 atomic foreign by auto
    qed
  qed
qed

text \<open>
  Restoring: nothing is written; and when the strategy does not get the checkpoint, because it could not be read or
  because the strategy raised, the queue is fenced or the call raised.
\<close>

lemma repo_read_lawful:
  assumes "lawful_storage S content" and "repo_read S R sha depth key s = (r, s')"
  shows "content s' = content s \<and> (\<forall>x. r = Inr x \<longrightarrow> snap_view R sha depth key (content s) = Inr x)"
  using assms read_terminal_lawful [OF assms(1), of R sha depth key s r s'] by (auto simp: repo_read_def split: sum.splits)

lemma read_legacy_lawful:
  assumes S: "lawful_storage S content" and run: "read_legacy S R sha depth q s = (r, q', s')"
  shows "content s' = content s \<and> qc_fenced q' = qc_fenced q"
proof (cases "legacy_snapshot_key q")
  case None
  then show ?thesis using run by (simp add: read_legacy_def)
next
  case (Some key)
  obtain r1 s1 where rt: "ss_retrieve S (empty_snapshot_tombstone_key q) s = (r1, s1)" by fastforce
  obtain r2 s2 where rr: "repo_read S R sha depth key s1 = (r2, s2)" by fastforce
  have "content s1 = content s" using S rt by (simp add: lawful_storage_def)
  with repo_read_lawful [OF S rr] Some rt rr run show ?thesis
    by (auto simp: read_legacy_def split: sum.splits option.splits if_splits)
qed

lemma lawful_not_foreign:
  assumes "lawful_storage S content"
  shows "\<not> manifest_foreign S R key s"
proof -
  obtain r1 s1 where rt: "retrieve S key s = (r1, s1)" by fastforce
  note lr = lawful_retrieve [OF assms rt]
  show ?thesis using lr rt
    by (cases "content s key") (auto simp: manifest_foreign_def copy_buffer_def split: sum.splits option.splits if_splits)
qed

lemma apply_read_cases:
  assumes "apply_read restore res (q, x) = (r, q', x')" and "sr_found res" and "sr_state res = Some bs" and "sr_manifest res \<or> bs \<noteq> []"
  shows "restore bs x = (Inr (), x') \<and> r = Inr () \<and> q' = q \<or> qc_fenced q' \<or> r \<noteq> Inr ()"
  using assms by (auto simp: apply_read_def split: sum.splits if_splits prod.splits)

lemma restore_snapshot_cases:
  assumes S: "lawful_storage S content"
    and view: "snap_view R sha depth (snapshot_key q) (content s) = Inr res" and res: "sr_found res" "sr_state res = Some bs"
      "sr_manifest res \<or> bs \<noteq> []"
    and run: "restore_snapshot (Some (Inr S)) R sha depth restore (q, x, s) = (r, q', x', s')"
  shows "content s' = content s \<and> (restore bs x = (Inr (), x') \<and> r = Inr () \<and> q' = q \<or> qc_fenced q' \<or> r \<noteq> Inr ())"
proof -
  obtain r1 s1 where rr: "repo_read S R sha depth (snapshot_key q) s = (r1, s1)" by fastforce
  note l = repo_read_lawful [OF S rr]
  show ?thesis
  proof (cases r1)
    case (Inl e)
    then show ?thesis using run rr l lawful_not_foreign [OF S]
      by (auto simp: restore_snapshot_def snapshot_storage_def split: if_splits)
  next
    case (Inr res')
    then have "res' = res" using l view by simp
    moreover obtain r2 q2 x2 where ap: "apply_read restore res (q, x) = (r2, q2, x2)" by (metis prod_cases3)
    ultimately show ?thesis using run rr l Inr res apply_read_cases [OF ap res]
      by (auto simp: restore_snapshot_def snapshot_storage_def)
  qed
qed


text \<open>
  C16. No checkpoint is lost unread: suppose the storage has a readable checkpoint when a queue starts, whether or not
  storage and strategy work at that moment. However the queue is used, when it is closed the checkpoint is
  still there, unless the strategy had taken it over at startup and its own new state has replaced it.
\<close>

theorem checkpoint_never_lost:
  assumes "lawful_storage S content" and "sha_ok sha" and "repo_ok R" and "hex_text 32 (codes g)" and "0 < depth"
    and "fresh_generation depth g (content s1)"
    and "snap_view R sha depth (snapshot_key q) (content s) = Inr res" and "sr_found res" and "sr_state res = Some bs"
    and "sr_manifest res \<or> bs \<noteq> []" and "\<not> qc_defer q"
    and "get = Some (Inr S) \<or> (\<exists>e. get = Some (Inl e) \<and> e \<noteq> NotImplementedError)"
    and "get' = Some (Inr S) \<or> (\<exists>e. get' = Some (Inl e))"
    and "restore_snapshot get R sha depth restore (q, x, s) = (Inr (), q1, x1, s1)"
    and "persist_snapshot get' R sha g snapshot (q1, x2, s1) = (r, q2, x3, s2)"
  shows "snap_view R sha depth (snapshot_key q) (content s2) = Inr res
    \<or> restore bs x = (Inr (), x1)
      \<and> (\<exists>state. snapshot x2 = (Inr state, x3) \<and> snap_view R sha depth (snapshot_key q) (content s2) = Inr (committed_read g (state_of state)))"
proof (cases "qc_fenced q1")
  case True
  then have "s2 = s1" using assms(15) by (simp add: persist_snapshot_def)
  moreover have "content s1 = content s"
  proof (cases "get = Some (Inr S)")
    case True
    from restore_snapshot_cases [OF assms(1,7-10) assms(14) [unfolded True]] show ?thesis ..
  next
    case False
    then show ?thesis using assms(12,14) by (auto simp: restore_snapshot_def snapshot_storage_def split: if_splits)
  qed
  ultimately show ?thesis using assms(7) by simp
next
  case False
  have "get = Some (Inr S)" using assms(12,14) False by (auto simp: restore_snapshot_def snapshot_storage_def split: if_splits)
  then have took: "content s1 = content s" "restore bs x = (Inr (), x1)" "q1 = q"
    using restore_snapshot_cases [OF assms(1,7-10), of restore x "Inr ()" q1 x1 s1] assms(14) False by simp_all
  obtain r1 x' where sn: "snapshot x2 = (r1, x')" by fastforce
  show ?thesis
  proof (cases "get' = Some (Inr S) \<and> (\<exists>state. r1 = Inr state)")
    case True
    then obtain state where st: "r1 = Inr state" by blast
    obtain r3 q3 s3 where ps: "persist_state S R sha g state q s1 = (r3, q3, s3)" by (metis prod_cases3)
    then have "s2 = s3" "x3 = x'" using assms(15) sn st True False took(3) by (simp_all add: persist_snapshot_def snapshot_storage_def)
    with persist_state_view [OF assms(1-6) ps] assms(7,11) took sn st show ?thesis by auto
  next
    case no: False
    then have "s2 = s1" using assms(13,15) sn False
      by (auto simp: persist_snapshot_def snapshot_storage_def split: sum.splits if_splits)
    with took(1) assms(7) show ?thesis by simp
  qed
qed

text \<open>A commit writes the checkpoint key and chunks of its generation, nothing else.\<close>

lemma repo_commit_frame:
  assumes S: "lawful_storage S content" and sha: "sha_ok sha" and g: "hex_text 32 (codes g)"
    and run: "repo_commit S R sha g key state s = (r, s')" and k: "k \<noteq> key" "\<And>i. k \<noteq> chunk_key sha key g i"
  shows "content s' k = content s k"
proof -
  have g32: "length g = 32" using g by (simp add: hex_text_def)
  have payload: "content s2 k = content s k" if "commit_payload S R sha g key bs b s = (r2, s2)" for bs b r2 s2
  proof -
    let ?m = "new_manifest R sha g bs b"
    obtain r1 s1 where wc: "write_chunks S sha key g (rp_chunk_bytes R) bs [0..<mf_chunks ?m] s = (r1, s1)" by fastforce
    have "k \<notin> chunk_key sha key g ` set [0..<mf_chunks ?m]" using k(2) by blast
    then have 1: "content s1 k = content s k" using write_chunks_lawful [OF S sha g32 distinct_upt wc] by blast
    show ?thesis
    proof (cases r1)
      case (Inl e)
      with that wc 1 show ?thesis by (simp add: commit_payload_def Let_def)
    next
      case (Inr u)
      with that wc have "store_verified S key (encode_manifest ?m) s1 = (r2, s2)" by (simp add: commit_payload_def Let_def)
      from lawful_store [OF S this] k(1) 1 show ?thesis by auto
    qed
  qed
  obtain r1 s1 where "commit_payload S R sha g key [] False s = (r1, s1)" by fastforce
  moreover obtain r2 s2 where "commit_payload S R sha g key (case state of StateBytes bs \<Rightarrow> bs | _ \<Rightarrow> []) True s = (r2, s2)" by fastforce
  ultimately show ?thesis using run payload
    by (cases state) (auto simp: repo_commit_def commit_terminal_def split: sum.splits if_splits)
qed

text \<open>Startup over an empty checkpoint, or over a tombstone, leaves the strategy alone.\<close>

lemma restore_empty:
  assumes S: "lawful_storage S content" and up: "\<And>k s. \<exists>v s'. ss_retrieve S k s = (Inr v, s')"
    and c: "content s (empty_snapshot_tombstone_key q) \<noteq> None \<and> snap_view R sha depth (snapshot_key q) (content s) = Inr res0 \<and> \<not> sr_found res0
      \<or> snap_view R sha depth (snapshot_key q) (content s) = Inr (committed_read g None)"
    and run: "restore_snapshot (Some (Inr S)) R sha depth restore (q, y, s) = (r, q', y', s')"
  shows "y' = y"
proof -
  obtain r1 s1 where rr: "repo_read S R sha depth (snapshot_key q) s = (r1, s1)" by fastforce
  note l = repo_read_lawful [OF S rr]
  obtain v s2 where rt: "ss_retrieve S (empty_snapshot_tombstone_key q) s1 = (Inr v, s2)" using up by blast
  then have v: "v = map_option PBytes (content s (empty_snapshot_tombstone_key q))" using lawful_retrieve [OF S, of _ s1 "Inr v" s2] l
    by (simp add: retrieve_def)
  show ?thesis
  proof (cases r1)
    case (Inl e)
    then show ?thesis using run rr by (auto simp: restore_snapshot_def snapshot_storage_def split: if_splits)
  next
    case (Inr res)
    then have view: "snap_view R sha depth (snapshot_key q) (content s) = Inr res" using l by simp
    show ?thesis
    proof (cases "sr_found res")
      case True
      then have "sr_state res = None" using c view by (auto simp: committed_read_def)
      then show ?thesis using run rr Inr True
        by (simp add: restore_snapshot_def snapshot_storage_def apply_read_def)
    next
      case False
      then have "content s (empty_snapshot_tombstone_key q) \<noteq> None" using c view by (auto simp: committed_read_def)
      then have "\<exists>q2 s3. read_legacy S R sha depth q s1 = (Inr None, q2, s3)"
        using rt v by (auto simp: read_legacy_def split: option.split)
      then show ?thesis using run rr Inr False by (auto simp: restore_snapshot_def snapshot_storage_def)
    qed
  qed
qed


section \<open>Examples\<close>

definition demo_ckpt :: "string option \<Rightarrow> ckpt" where
  "demo_ckpt spider = \<lparr>qc_spider = spider, qc_owner = None, qc_queue = ''q'', qc_defer = False, qc_pending = False, qc_fenced = False\<rparr>"

lemma demo_digits: "(char_of (48 :: nat) :: char) = CHR ''0''" "(char_of (49 :: nat) :: char) = CHR ''1''"
  by code_simp+

lemma demo_keys:
  "snapshot_key (demo_ckpt (Some ''s'')) = ''queue:snapshot:v3:1:s:1:q''"
  "snapshot_key (demo_ckpt None) = ''queue:snapshot:v3:0::1:q''"
  by (simp_all add: snapshot_key_def snapshot_identity_def demo_ckpt_def spider_component_def sized_def snapshot_key_prefix_def
      str_of_nat.simps demo_digits)

lemma demo_valid_key: "validate_logical_key mem_storage (snapshot_key (demo_ckpt (Some ''s''))) = Inr ()"
  unfolding demo_keys
  by (simp add: validate_logical_key_def validate_key_name_def key_name_char_def has_prefix_def
      legacy_chunk_prefix_def current_chunk_prefix_def logical_key_limit_def mem_storage_def)

definition demo_snapshot :: "bytes \<Rightarrow> (snap_state, bytes) outcome" where
  "demo_snapshot x = (Inr (StateBytes x), x)"

lemma demo_persist:
  "\<exists>q1 c. persist_snapshot (Some (Inr mem_storage)) demo_repo demo_sha demo_generation demo_snapshot
     (demo_ckpt (Some ''s''), [1, 2, 3, 4, 5], \<lambda>k. None) = (Inr (), q1, [1, 2, 3, 4, 5], c)"
  using mem_write_chunks [of demo_sha "snapshot_key (demo_ckpt (Some ''s''))" demo_generation 4 "[1, 2, 3, 4, 5]"
      "[0..<mf_chunks (new_manifest demo_repo demo_sha demo_generation [1, 2, 3, 4, 5] True)]" "\<lambda>k. None"]
  by (auto simp: persist_snapshot_def demo_snapshot_def snapshot_storage_def persist_state_def repo_commit_def commit_terminal_def
      commit_payload_def demo_valid_key Let_def demo_repo_def retire_legacy_def legacy_snapshot_key_def spider_component_def
      simp del: demo_keys) (simp_all add: demo_ckpt_def)


definition demo_failing :: "bytes \<Rightarrow> bytes \<Rightarrow> (unit, bytes) outcome" where
  "demo_failing bs x = (Inl ValueError, x)"

theorem checkpoint_never_lost_witness:
  "\<exists>q1 q2 r c. restore_snapshot (Some (Inr mem_storage)) demo_repo demo_sha 1 demo_failing
       (demo_ckpt (Some ''s''), [], [snapshot_key (demo_ckpt (Some ''s'')) \<mapsto> tombstone_marker]) =
       (Inr (), q1, [], [snapshot_key (demo_ckpt (Some ''s'')) \<mapsto> tombstone_marker])
    \<and> persist_snapshot (Some (Inr mem_storage)) demo_repo demo_sha demo_generation demo_snapshot
       (q1, [8], [snapshot_key (demo_ckpt (Some ''s'')) \<mapsto> tombstone_marker]) = (r, q2, [8], c)
    \<and> snap_view demo_repo demo_sha 1 (snapshot_key (demo_ckpt (Some ''s''))) c =
       Inr \<lparr>sr_found = True, sr_state = Some tombstone_marker, sr_manifest = False, sr_generation = None\<rparr>"
proof -
  let ?q = "demo_ckpt (Some ''s'')" and ?c = "[snapshot_key (demo_ckpt (Some ''s'')) \<mapsto> tombstone_marker]"
  let ?res = "\<lparr>sr_found = True, sr_state = Some tombstone_marker, sr_manifest = False, sr_generation = None\<rparr>"
  have read: "read_terminal mem_storage demo_repo demo_sha 1 (snapshot_key ?q) ?c = (Inr ?res, ?c)"
    using marker_no_manifest [of 1]
    by (simp add: read_terminal_def demo_repo_def tombstone_marker_def max_manifest_bytes_def)
  then have v: "snap_view demo_repo demo_sha 1 (snapshot_key ?q) ?c = Inr ?res" by (simp add: snap_view_def)
  have r: "restore_snapshot (Some (Inr mem_storage)) demo_repo demo_sha 1 demo_failing (?q, [], ?c) = (Inr (), ?q\<lparr>qc_fenced := True\<rparr>, [], ?c)"
    using read by (simp add: restore_snapshot_def snapshot_storage_def repo_read_def demo_valid_key apply_read_def demo_failing_def
        tombstone_marker_def ordinary_def)
  have p: "persist_snapshot (Some (Inr mem_storage)) demo_repo demo_sha demo_generation demo_snapshot
      (?q\<lparr>qc_fenced := True\<rparr>, [8], ?c) = (Inl QueueError, ?q\<lparr>qc_fenced := True\<rparr>, [8], ?c)"
    by (simp add: persist_snapshot_def)
  have f: "fresh_generation 1 demo_generation ?c"
    using fresh_generation_marker [OF _ demo_repository_ok(4), of 1] by simp
  have "snap_view demo_repo demo_sha 1 (snapshot_key ?q) ?c = Inr ?res \<or> demo_failing tombstone_marker [] = (Inr (), []) \<and>
      (\<exists>state. demo_snapshot [8] = (Inr state, [8]) \<and> snap_view demo_repo demo_sha 1 (snapshot_key ?q) ?c = Inr (committed_read demo_generation (state_of state)))"
    by (rule checkpoint_never_lost [OF lawful_mem demo_repository_ok(1-3) _ f v _ _ _ _ _ _ r p])
       (simp_all add: tombstone_marker_def demo_ckpt_def)
  with r p show ?thesis by (auto simp: demo_failing_def)
qed


end
