(* ===== verification/Request_Envelope.thy ===== *)
theory Request_Envelope
  imports Json_Codec "HOL-Library.AList"
begin

text \<open>
  The wire form of a queued request, \<open>queue/queue.py\<close>: \<open>_request_to_dict\<close> turns a Scrapy request into a
  dictionary stamped with the identity of its spider, \<open>_validate_*\<close>, \<open>_decode_body\<close> and \<open>_request_from_dict\<close> turn what
  was read from a queue back into a request.

  Scrapy's classes are parameters: what \<open>to_dict\<close> returns, the qualified names and \<open>attributes\<close> of the
  four request classes, their constructor, and whether an attribute of the spider is one of its instance
  methods.

  Shown: the constructor is called with exactly the fields of the pushed request; a stamped request
  is never built for another spider; whatever the bytes in the queue are, only the four classes are
  built, and only with callbacks that are instance methods of the spider and not dunder methods.
\<close>

section \<open>Requests\<close>

type_synonym ('t, 'd) pydict = "(pykey \<times> ('t, 'd) pyobj) list"

text \<open>
  Of a live request the queue reads and writes \<open>meta\<close>, whose acknowledgement token is kept apart
  because it is no serializable value, and it reads body and headers. The rest is Scrapy's.
\<close>

record ('o, 'tok, 't, 'd) request =
  rq_obj :: 'o
  rq_meta :: "('t, 'd) pydict"
  rq_token :: "'tok option"
  rq_headers :: "(bytes \<times> bytes list) list"
  rq_body :: bytes

datatype request_class = PlainRequest | FormRequest | JsonRequest | XmlRpcRequest

text \<open>An argument of the constructor: a decoded value, or the spider's method of that name.\<close>

datatype ('t, 'd) arg = Plain "('t, 'd) pyobj" | Method codes

record ('o, 'tok, 't, 'd) scrapy =
  sc_to_dict :: "('o, 'tok, 't, 'd) request \<Rightarrow> ('t, 'd) pydict result"
  sc_class_name :: "request_class \<Rightarrow> codes"
  sc_attributes :: "request_class \<Rightarrow> codes list"
  sc_method :: "(codes \<Rightarrow> bool result) option"
  sc_new :: "request_class \<Rightarrow> (codes \<times> ('t, 'd) arg) list \<Rightarrow> ('o, 'tok, 't, 'd) request result"

text \<open>The identity of the queue: the name of the spider when it is a string, the project, and the opt-out.\<close>

record envelope =
  en_spider :: "codes option"
  en_project :: codes
  en_cross :: bool

definition project_field :: codes where "project_field = codes ''_scrapy_extension_project''"
definition spider_field :: codes where "spider_field = codes ''_scrapy_extension_spider''"
definition body_codec_field :: codes where "body_codec_field = codes ''_scrapy_extension_body_codec''"
definition body_codec_base64 :: codes where "body_codec_base64 = codes ''base64-v1''"
definition ack_token_key :: codes where "ack_token_key = codes ''_backend_ack_token''"

definition dset :: "('t, 'd) pydict \<Rightarrow> codes \<Rightarrow> ('t, 'd) pyobj \<Rightarrow> ('t, 'd) pydict" where
  "dset obj k v = AList.update (KStr k) v obj"

definition ddel :: "('t, 'd) pydict \<Rightarrow> codes \<Rightarrow> ('t, 'd) pydict" where
  "ddel obj k = AList.delete (KStr k) obj"

definition dict_get :: "('t, 'd) pydict \<Rightarrow> codes \<Rightarrow> ('t, 'd) pyobj" where
  "dict_get obj k = (case dget obj k of None \<Rightarrow> ONone | Some v \<Rightarrow> v)"

text \<open>Membership of a list or a dictionary in a set or a dictionary raises \<open>TypeError\<close>.\<close>

fun unhashable :: "('t, 'd) pyobj \<Rightarrow> bool" where
  "unhashable (ODict _) = True"
| "unhashable (OList _) = True"
| "unhashable (OSet _) = True"
| "unhashable _ = False"

definition request_classes :: "('o, 'tok, 't, 'd) scrapy \<Rightarrow> (codes \<times> request_class) list" where
  "request_classes S = map (\<lambda>c. (sc_class_name S c, c)) [PlainRequest, FormRequest, JsonRequest, XmlRpcRequest]"

section \<open>Writing\<close>

definition ascii_name :: "bytes \<Rightarrow> codes result" where
  "ascii_name bs = (if \<forall>b \<in> set bs. unat b < 128 then Inr (map unat bs) else Inl UnicodeDecodeError)"

definition header_dict :: "(bytes \<times> bytes list) list \<Rightarrow> ('t, 'd) pydict result" where
  "header_dict hs = rmap (\<lambda>(name, vals). rbind (ascii_name name) (\<lambda>n. Inr (KStr n, OList (map OBytes vals)))) hs"

definition serialized_meta :: "('t, 'd) pydict \<Rightarrow> ('t, 'd) pydict" where
  "serialized_meta meta = filter (\<lambda>(k, v). k \<notin> {KStr ack_token_key, KStr (codes ''delay''), KStr (codes ''source'')}) meta"

definition unsupported_class :: "('o, 'tok, 't, 'd) scrapy \<Rightarrow> ('t, 'd) pydict \<Rightarrow> bool" where
  "unsupported_class S d \<longleftrightarrow>
     (case dget d (codes ''_class'') of
        None \<Rightarrow> False
      | Some ONone \<Rightarrow> False
      | Some (OStr c) \<Rightarrow> map_of (request_classes S) c = None
      | Some _ \<Rightarrow> True)"

definition stamp :: "envelope \<Rightarrow> ('t, 'd) pydict \<Rightarrow> ('t, 'd) pydict" where
  "stamp E d =
     (case en_spider E of
        None \<Rightarrow> d
      | Some name \<Rightarrow> if name = [] then d else dset (dset d project_field (OStr (en_project E))) spider_field (OStr name))"

definition body_text :: "bytes \<Rightarrow> ('t, 'd) pyobj" where
  "body_text bs = (if bs = [] then ONone else OStr (codes (b64encode bs)))"

definition request_to_dict ::
  "envelope \<Rightarrow> ('o, 'tok, 't, 'd) scrapy \<Rightarrow> ('o, 'tok, 't, 'd) request \<Rightarrow> ('t, 'd) pydict result" where
  "request_to_dict E S r =
     rbind (sc_to_dict S r) (\<lambda>d.
       if unsupported_class S d then Inl ValueError
       else rbind (header_dict (rq_headers r)) (\<lambda>h.
         let d1 = dset (dset (dset d (codes ''headers'') (ODict h)) (codes ''body'') (body_text (rq_body r)))
                    (codes ''meta'') (ODict (serialized_meta (rq_meta r)));
             d2 = stamp E d1
         in Inr (if rq_body r = [] then d2 else dset d2 body_codec_field (OStr body_codec_base64))))"

section \<open>Reading\<close>

text \<open>A priority is normalized to an integer before any decision depends on the envelope.\<close>

definition validate_serialized_priority :: "('t, 'd) pydict \<Rightarrow> ('t, 'd) pydict result" where
  "validate_serialized_priority d =
     (case dget d (codes ''priority'') of
        None \<Rightarrow> Inr d
      | Some ONone \<Rightarrow> Inr d
      | Some (OInt n) \<Rightarrow> rbind (case float_of_int n of Inl _ \<Rightarrow> Inl TypeError | Inr x \<Rightarrow> Inr x) (\<lambda>_. Inr (dset d (codes ''priority'') (OInt n)))
      | Some (OFloat (Fin x)) \<Rightarrow> if of_int \<lfloor>x\<rfloor> = x then Inr (dset d (codes ''priority'') (OInt \<lfloor>x\<rfloor>)) else Inl TypeError
      | Some _ \<Rightarrow> Inl TypeError)"

definition validate_envelope_identity :: "envelope \<Rightarrow> ('t, 'd) pydict \<Rightarrow> unit result" where
  "validate_envelope_identity E d =
     (case en_spider E of
        None \<Rightarrow> Inr ()
      | Some expected \<Rightarrow>
          if en_cross E then Inr ()
          else
            (case (dict_get d spider_field, dict_get d project_field) of
               (ONone, ONone) \<Rightarrow> Inr ()
             | (OStr s, OStr p) \<Rightarrow> if s \<noteq> expected \<or> p \<noteq> en_project E then Inl EnvelopeIdentityMismatch else Inr ()
             | _ \<Rightarrow> Inl EnvelopeIdentityMismatch))"

text \<open>\<open>str.encode('utf-8')\<close>; a surrogate cannot be encoded.\<close>

definition utf8_code :: "nat \<Rightarrow> nat list option" where
  "utf8_code c =
     (if c < 0x80 then Some [c]
      else if c < 0x800 then Some [0xC0 + c div 64, 0x80 + c mod 64]
      else if high_surrogate c \<or> low_surrogate c then None
      else if c < 0x10000 then Some [0xE0 + c div 4096, 0x80 + c div 64 mod 64, 0x80 + c mod 64]
      else Some [0xF0 + c div 262144, 0x80 + c div 4096 mod 64, 0x80 + c div 64 mod 64, 0x80 + c mod 64])"

fun utf8_bytes :: "codes \<Rightarrow> bytes option" where
  "utf8_bytes [] = Some []"
| "utf8_bytes (c # cs) =
     (case (utf8_code c, utf8_bytes cs) of (Some bs, Some r) \<Rightarrow> Some (map word_of_nat bs @ r) | _ \<Rightarrow> None)"

text \<open>
  Bodies are base64; a body without the codec mark that is no base64 is one an older version wrote as text.
\<close>

definition decode_body :: "('t, 'd) pydict \<Rightarrow> ('t, 'd) pydict result" where
  "decode_body d =
     (let codec = dict_get d body_codec_field;
          d1 = ddel d body_codec_field
      in
      if unhashable codec then Inl TypeError
      else if codec \<noteq> ONone \<and> codec \<noteq> OStr body_codec_base64 then Inl SerializationError
      else
        (case dict_get d1 (codes ''body'') of
           ONone \<Rightarrow> Inr d1
         | OStr s \<Rightarrow>
             (case b64decode_codes s of
                Some bs \<Rightarrow> Inr (dset d1 (codes ''body'') (OBytes bs))
              | None \<Rightarrow>
                  if codec = OStr body_codec_base64 then Inl SerializationError
                  else (case utf8_bytes s of
                          Some bs \<Rightarrow> Inr (dset d1 (codes ''body'') (OBytes bs))
                        | None \<Rightarrow> Inl SerializationError))
         | OBytes bs \<Rightarrow>
             (case b64decode (map (char_of \<circ> unat) bs) of
                Some out \<Rightarrow> Inr (dset d1 (codes ''body'') (OBytes out))
              | None \<Rightarrow> Inl SerializationError)
         | _ \<Rightarrow> Inl TypeError))"

fun is_str :: "('t, 'd) pyobj \<Rightarrow> bool" where
  "is_str (OStr _) = True" | "is_str _ = False"

fun is_dict :: "('t, 'd) pyobj \<Rightarrow> bool" where
  "is_dict (ODict _) = True" | "is_dict _ = False"

fun is_list :: "('t, 'd) pyobj \<Rightarrow> bool" where
  "is_list (OList _) = True" | "is_list _ = False"

fun is_bytes :: "('t, 'd) pyobj \<Rightarrow> bool" where
  "is_bytes (OBytes _) = True" | "is_bytes _ = False"

fun is_bool :: "('t, 'd) pyobj \<Rightarrow> bool" where
  "is_bool (OBool _) = True" | "is_bool _ = False"

definition request_field_types :: "(string \<times> (('t, 'd) pyobj \<Rightarrow> bool)) list" where
  "request_field_types =
     [(''url'', is_str), (''method'', is_str), (''encoding'', is_str), (''headers'', is_dict), (''meta'', is_dict),
      (''cb_kwargs'', is_dict), (''cookies'', \<lambda>v. is_dict v \<or> is_list v), (''body'', \<lambda>v. is_bytes v \<or> v = ONone),
      (''callback'', \<lambda>v. is_str v \<or> v = ONone), (''errback'', \<lambda>v. is_str v \<or> v = ONone), (''dont_filter'', is_bool),
      (''flags'', is_list), (''_class'', is_str), (''dumps_kwargs'', is_dict)]"

fun flags_ok :: "('t, 'd) pyobj option \<Rightarrow> bool" where
  "flags_ok (Some (OList vs)) \<longleftrightarrow> (\<forall>v \<in> set vs. is_str v)"
| "flags_ok _ \<longleftrightarrow> True"

fun header_value_ok :: "('t, 'd) pyobj \<Rightarrow> bool" where
  "header_value_ok (OList vs) \<longleftrightarrow> (\<forall>v \<in> set vs. is_str v \<or> is_bytes v)"
| "header_value_ok v \<longleftrightarrow> is_str v \<or> is_bytes v"

fun headers_ok :: "('t, 'd) pyobj option \<Rightarrow> bool" where
  "headers_ok (Some (ODict hs)) \<longleftrightarrow> (\<forall>(k, v) \<in> set hs. (\<exists>n. k = KStr n) \<and> header_value_ok v)"
| "headers_ok _ \<longleftrightarrow> True"

definition validate_request_dict :: "('t, 'd) pydict \<Rightarrow> ('t, 'd) pydict result" where
  "validate_request_dict d =
     (if (\<forall>(f, ok) \<in> set request_field_types. case dget d (codes f) of None \<Rightarrow> True | Some v \<Rightarrow> ok v)
         \<and> flags_ok (dget d (codes ''flags'')) \<and> headers_ok (dget d (codes ''headers''))
      then validate_serialized_priority d else Inl TypeError)"

definition resolve_class :: "('o, 'tok, 't, 'd) scrapy \<Rightarrow> ('t, 'd) pydict \<Rightarrow> request_class result" where
  "resolve_class S d =
     (case dict_get d (codes ''_class'') of
        ONone \<Rightarrow> Inr PlainRequest
      | OStr c \<Rightarrow> (case map_of (request_classes S) c of Some cls \<Rightarrow> Inr cls | None \<Rightarrow> Inl ValueError)
      | v \<Rightarrow> Inl (if unhashable v then TypeError else ValueError))"

text \<open>The name of a callback becomes the spider's method; dunder names are refused before the lookup.\<close>

definition bind_method ::
  "('o, 'tok, 't, 'd) scrapy \<Rightarrow> ('t, 'd) pydict \<Rightarrow> string \<Rightarrow> (codes \<times> ('t, 'd) arg) list \<Rightarrow> (codes \<times> ('t, 'd) arg) list result" where
  "bind_method S d field kwargs =
     (case (dict_get d (codes field), sc_method S) of
        (ONone, _) \<Rightarrow> Inr kwargs
      | (_, None) \<Rightarrow> Inr kwargs
      | (OStr name, Some is_method) \<Rightarrow>
          if name = [] then Inr kwargs
          else if starts_with ''__'' name then Inl ValueError
          else rbind (is_method name) (\<lambda>ok. if ok then Inr (AList.update (codes field) (Method name) kwargs) else Inl ValueError)
      | _ \<Rightarrow> Inl TypeError)"

definition plain_kwargs :: "codes list \<Rightarrow> ('t, 'd) pydict \<Rightarrow> (codes \<times> ('t, 'd) arg) list" where
  "plain_kwargs attrs d = map (\<lambda>(k, v). (key_text k, Plain v)) (filter (\<lambda>(k, v). k \<in> KStr ` set attrs) d)"

definition request_from_dict ::
  "('o, 'tok, 't, 'd) scrapy \<Rightarrow> ('t, 'd) pydict \<Rightarrow> ('o, 'tok, 't, 'd) request result" where
  "request_from_dict S d =
     rbind (resolve_class S d) (\<lambda>cls.
       rbind (bind_method S d ''callback'' (plain_kwargs (sc_attributes S cls) d)) (\<lambda>k1.
         rbind (bind_method S d ''errback'' k1) (\<lambda>k2. sc_new S cls k2)))"

text \<open>
  The two halves of the reading in \<open>_process_pop\<close>: up to the priority, which a foreign envelope is
  returned with, and after the identity check.
\<close>

definition open_payload :: "('t, 'd) py_texts \<Rightarrow> nat \<Rightarrow> nat \<Rightarrow> bytes \<Rightarrow> ('t, 'd) pydict result" where
  "open_payload P depth max_item_bytes data =
     (if max_item_bytes < length data then Inl ValueError
      else rbind (deserialize P depth data) (\<lambda>v.
        case v of ODict d \<Rightarrow> validate_serialized_priority d | _ \<Rightarrow> Inl TypeError))"

definition build_request ::
  "('o, 'tok, 't, 'd) scrapy \<Rightarrow> ('t, 'd) pydict \<Rightarrow> ('o, 'tok, 't, 'd) request result" where
  "build_request S d = rbind (decode_body d) (\<lambda>d1. rbind (validate_request_dict d1) (request_from_dict S))"

section \<open>Dictionaries\<close>

declare codes_simps(2,3) [simp del]

lemma dget_dset [simp]: "dget (dset d k v) j = (if j = k then Some v else dget d j)"
  by (simp add: dget_def dset_def update_conv')

lemma dget_ddel [simp]: "dget (ddel d k) j = (if j = k then None else dget d j)"
  by (simp add: dget_def ddel_def delete_conv')

lemma dget_map_values: "dget (map (\<lambda>(k, v). (k, f v)) d) j = map_option f (dget d j)"
  by (induction d) (auto simp: dget_def)

lemma map_of_plain_kwargs: "map_of (plain_kwargs attrs d) f = (if f \<in> set attrs then map_option Plain (dget d f) else None)"
proof (induction d)
  case (Cons kv d)
  then show ?case by (cases "fst kv"; cases kv) (auto simp: plain_kwargs_def dget_def)
qed (simp add: plain_kwargs_def dget_def)

lemma map_of_update_kwargs [simp]: "map_of (AList.update k v kwargs) j = (if j = k then Some v else map_of kwargs j)"
  by (simp add: update_conv')

lemma fields_distinct [simp]:
  "project_field \<noteq> spider_field" "body_codec_field \<noteq> project_field" "body_codec_field \<noteq> spider_field"
  "project_field \<noteq> codes ''priority''" "spider_field \<noteq> codes ''priority''" "body_codec_field \<noteq> codes ''priority''"
  "project_field \<noteq> codes ''body''" "spider_field \<noteq> codes ''body''" "body_codec_field \<noteq> codes ''body''"
  by (simp_all add: project_field_def spider_field_def body_codec_field_def)

section \<open>Untrusted payloads\<close>

text \<open>What a callback argument may be.\<close>

definition callback_safe :: "('o, 'tok, 't, 'd) scrapy \<Rightarrow> ('t, 'd) arg option \<Rightarrow> bool" where
  "callback_safe S a \<longleftrightarrow>
     (case a of
        None \<Rightarrow> True
      | Some (Plain v) \<Rightarrow> v = ONone \<or> v = OStr [] \<or> is_str v \<and> sc_method S = None
      | Some (Method m) \<Rightarrow> \<not> starts_with ''__'' m \<and> (\<exists>is_method. sc_method S = Some is_method \<and> is_method m = Inr True))"

lemma validate_priority_dget:
  "validate_serialized_priority d = Inr d' \<Longrightarrow> f \<noteq> codes ''priority'' \<Longrightarrow> dget d' f = dget d f"
  by (auto simp: validate_serialized_priority_def rbind_eq_Inr_iff split: option.splits pyobj.splits pyfloat.splits sum.splits if_splits)

lemma validate_request_dict_types:
  assumes "validate_request_dict d = Inr d'" "(f, ok) \<in> set request_field_types" "dget d' (codes f) = Some v"
  shows "ok v"
proof -
  have "f \<noteq> ''priority''" using assms(2) by (auto simp: request_field_types_def)
  moreover have "validate_serialized_priority d = Inr d'" using assms(1) by (simp add: validate_request_dict_def split: if_splits)
  ultimately have "dget d (codes f) = Some v" using assms(3) validate_priority_dget by fastforce
  moreover have "\<forall>(f, ok) \<in> set request_field_types. case dget d (codes f) of None \<Rightarrow> True | Some v \<Rightarrow> ok v"
    using assms(1) by (simp add: validate_request_dict_def split: if_splits)
  ultimately show ?thesis using assms(2) by fastforce
qed

lemma bind_method_cases:
  assumes "bind_method S d field kwargs = Inr k"
    and "\<And>v. dget d (codes field) = Some v \<Longrightarrow> is_str v \<or> v = ONone"
    and "map_of kwargs (codes field) = None \<or> (\<exists>v. map_of kwargs (codes field) = Some (Plain v) \<and> dget d (codes field) = Some v)"
  shows "callback_safe S (map_of k (codes field)) \<and> (\<forall>f. f \<noteq> codes field \<longrightarrow> map_of k f = map_of kwargs f)"
proof (cases "dict_get d (codes field)")
  case (OStr name)
  then show ?thesis using assms
    by (auto simp: bind_method_def callback_safe_def dict_get_def rbind_eq_Inr_iff split: option.splits if_splits)
qed (use assms in \<open>auto simp: bind_method_def callback_safe_def dict_get_def split: option.splits\<close>)

text \<open>
  C40. Whatever bytes a queue holds, a request built from them is of one of the four known classes, and
  every callback it got is either empty or an instance method of the spider whose name does not
  begin with two underscores (plain text only when there is no spider to look it up in); every other argument is a
  field the class declares.
\<close>

theorem payload_callbacks_safe:
  assumes "open_payload P depth limit data = Inr d" "build_request S d = Inr r"
  shows "\<exists>cls kwargs. sc_new S cls kwargs = Inr r \<and> resolve_class S d = Inr cls
    \<and> callback_safe S (map_of kwargs (codes ''callback'')) \<and> callback_safe S (map_of kwargs (codes ''errback''))
    \<and> (\<forall>f a. map_of kwargs f = Some a \<longrightarrow> f \<in> set (sc_attributes S cls) \<or> f \<in> {codes ''callback'', codes ''errback''})"
proof -
  obtain d1 d2 cls k1 k2 where d1: "decode_body d = Inr d1" and d2: "validate_request_dict d1 = Inr d2"
    and cls: "resolve_class S d2 = Inr cls" and k1: "bind_method S d2 ''callback'' (plain_kwargs (sc_attributes S cls) d2) = Inr k1"
    and k2: "bind_method S d2 ''errback'' k1 = Inr k2" and r: "sc_new S cls k2 = Inr r"
    using assms(2) by (auto simp: build_request_def request_from_dict_def rbind_eq_Inr_iff)
  let ?k0 = "plain_kwargs (sc_attributes S cls) d2"
  have ty: "is_str v \<or> v = ONone" if "dget d2 (codes f) = Some v" "f \<in> {''callback'', ''errback''}" for f v
  proof -
    have "(f, \<lambda>v. is_str v \<or> v = ONone) \<in> set request_field_types" using that(2) unfolding request_field_types_def by (elim insertE) simp_all
    from validate_request_dict_types [OF d2 this that(1)] show ?thesis .
  qed
  have c1: "callback_safe S (map_of k1 (codes ''callback'')) \<and> (\<forall>f. f \<noteq> codes ''callback'' \<longrightarrow> map_of k1 f = map_of ?k0 f)"
    by (rule bind_method_cases [OF k1]) (use ty in \<open>auto simp: map_of_plain_kwargs\<close>)
  have c2: "callback_safe S (map_of k2 (codes ''errback'')) \<and> (\<forall>f. f \<noteq> codes ''errback'' \<longrightarrow> map_of k2 f = map_of k1 f)"
    by (rule bind_method_cases [OF k2]) (use ty c1 in \<open>auto simp: map_of_plain_kwargs\<close>)
  have "dget d2 (codes ''_class'') = dget d (codes ''_class'')"
  proof -
    have "validate_serialized_priority d1 = Inr d2" using d2 by (simp add: validate_request_dict_def split: if_splits)
    then have "dget d2 (codes ''_class'') = dget d1 (codes ''_class'')" by (rule validate_priority_dget) simp
    also have "\<dots> = dget d (codes ''_class'')" using d1
      by (auto simp: decode_body_def body_codec_field_def Let_def split: pyobj.splits option.splits if_splits)
    finally show ?thesis .
  qed
  then have "resolve_class S d = Inr cls" using cls by (simp add: resolve_class_def dict_get_def)
  moreover have "f \<in> set (sc_attributes S cls) \<or> f \<in> {codes ''callback'', codes ''errback''}"
    if "map_of k2 f = Some a" for f a
    using that c1 c2 map_of_plain_kwargs [of "sc_attributes S cls" d2 f] by (cases "f \<in> {codes ''callback'', codes ''errback''}") (auto split: if_splits)
  moreover have "callback_safe S (map_of k2 (codes ''callback''))" using c1 c2 by simp
  ultimately show ?thesis using r c2 by blast
qed

section \<open>Round trip\<close>

text \<open>The value a field has after the trip: Scrapy's own, as the codec carries it, but for the three fields the queue encodes.\<close>

definition sent_field :: "('o, 'tok, 't, 'd) request \<Rightarrow> ('t, 'd) pydict \<Rightarrow> codes \<Rightarrow> ('t, 'd) pyobj option" where
  "sent_field r d0 f =
     (if f = codes ''headers'' then Some (ODict (map (\<lambda>(name, vals). (KStr (map unat name), OList (map OBytes vals))) (rq_headers r)))
      else if f = codes ''body'' then Some (if rq_body r = [] then ONone else OBytes (rq_body r))
      else if f = codes ''meta'' then Some (wire_value (ODict (serialized_meta (rq_meta r))))
      else map_option wire_value (dget d0 f))"

definition sent_arg :: "('o, 'tok, 't, 'd) scrapy \<Rightarrow> codes \<Rightarrow> ('t, 'd) pyobj \<Rightarrow> ('t, 'd) arg" where
  "sent_arg S f v =
     (case v of
        OStr m \<Rightarrow> if f \<in> {codes ''callback'', codes ''errback''} \<and> m \<noteq> [] \<and> sc_method S \<noteq> None then Method m else Plain v
      | _ \<Rightarrow> Plain v)"

text \<open>
  What Scrapy documents of \<open>to_dict\<close>: fields of their types, an integer priority, callbacks by the names of methods of
  the spider, and none of the queue's own fields; and that every class has callback and errback among its attributes.
\<close>

definition method_ok :: "('o, 'tok, 't, 'd) scrapy \<Rightarrow> ('t, 'd) pyobj \<Rightarrow> bool" where
  "method_ok S v \<longleftrightarrow>
     v = ONone
     \<or> (\<exists>m. v = OStr m \<and> \<not> starts_with ''__'' m \<and> (case sc_method S of None \<Rightarrow> True | Some is_method \<Rightarrow> is_method m = Inr True))"

definition scrapy_dict_ok :: "('o, 'tok, 't, 'd) scrapy \<Rightarrow> ('t, 'd) pydict \<Rightarrow> bool" where
  "scrapy_dict_ok S d0 \<longleftrightarrow>
     (\<forall>(f, ok) \<in> set request_field_types. f \<notin> {''headers'', ''body'', ''meta''} \<longrightarrow>
        (case dget d0 (codes f) of None \<Rightarrow> True | Some v \<Rightarrow> ok (wire_value v)))
     \<and> flags_ok (map_option wire_value (dget d0 (codes ''flags'')))
     \<and> (case dget d0 (codes ''priority'') of None \<Rightarrow> True | Some v \<Rightarrow> \<exists>n. v = OInt n \<and> \<bar>n\<bar> \<le> 2 ^ 53)
     \<and> method_ok S (wire_value (dict_get d0 (codes ''callback''))) \<and> method_ok S (wire_value (dict_get d0 (codes ''errback'')))
     \<and> dget d0 project_field = None \<and> dget d0 spider_field = None \<and> dget d0 body_codec_field = None
     \<and> (\<forall>cls. {codes ''callback'', codes ''errback''} \<subseteq> set (sc_attributes S cls)
          \<and> {project_field, spider_field, body_codec_field} \<inter> set (sc_attributes S cls) = {})"

lemma header_dict_Inr:
  "header_dict hs = Inr h \<Longrightarrow> h = map (\<lambda>(name, vals). (KStr (map unat name), OList (map OBytes vals))) hs"
proof (induction hs arbitrary: h)
  case (Cons x hs)
  then show ?case by (cases x) (auto simp: header_dict_def ascii_name_def rbind_eq_Inr_iff split: if_splits)
qed (simp add: header_dict_def)

lemma wire_headers [simp]:
  "wire_value (ODict (map (\<lambda>(name, vals). (KStr (map unat name), OList (map OBytes vals))) hs))
   = ODict (map (\<lambda>(name, vals). (KStr (map unat name), OList (map OBytes vals))) hs)"
  by (induction hs) auto

lemma headers_ok_sent: "headers_ok (Some (ODict (map (\<lambda>(name, vals). (KStr (map unat name), OList (map OBytes vals))) hs)))"
  by (induction hs) auto

text \<open>The dictionary that is sent, by its fields.\<close>

lemma dget_stamp:
  "dget (stamp E d) f =
     (if f = project_field \<and> en_spider E \<notin> {None, Some []} then Some (OStr (en_project E))
      else if f = spider_field \<and> en_spider E \<notin> {None, Some []} then map_option OStr (en_spider E)
      else dget d f)"
  using fields_distinct(1) by (cases "en_spider E") (simp_all add: stamp_def)

lemma request_to_dict_fields:
  fixes S :: "('o, 'tok, 't, 'd) scrapy"
  assumes "request_to_dict E S r = Inr d" "sc_to_dict S r = Inr d0" "scrapy_dict_ok S d0"
  shows "map_option wire_value (dget d f) =
      (if f = codes ''body'' then Some (body_text (rq_body r))
       else if f = body_codec_field then (if rq_body r = [] then None else Some (OStr body_codec_base64))
       else if f = project_field \<and> en_spider E \<notin> {None, Some []} then Some (OStr (en_project E))
       else if f = spider_field \<and> en_spider E \<notin> {None, Some []} then map_option OStr (en_spider E)
       else sent_field r d0 f)"
proof -
  obtain h :: "('t, 'd) pydict" where h: "header_dict (rq_headers r) = Inr h" and "\<not> unsupported_class S d0"
    using assms(1,2) by (auto simp: request_to_dict_def rbind_eq_Inr_iff split: if_splits)
  then have d: "d = (let d2 = stamp E (dset (dset (dset d0 (codes ''headers'') (ODict h)) (codes ''body'') (body_text (rq_body r)))
      (codes ''meta'') (ODict (serialized_meta (rq_meta r)))) in
      if rq_body r = [] then d2 else dset d2 body_codec_field (OStr body_codec_base64))"
    using assms(1,2) by (simp add: request_to_dict_def Let_def)
  have b: "wire_value (body_text (rq_body r)) = body_text (rq_body r)" by (simp add: body_text_def)
  have n: "dget d0 body_codec_field = None" using assms(3) by (simp add: scrapy_dict_ok_def)
  have h': "wire_value (ODict h) = ODict (map (\<lambda>(name, vals). (KStr (map unat name), OList (map OBytes vals))) (rq_headers r))"
    using header_dict_Inr [OF h] by (simp only: wire_headers)
  consider "f = codes ''body''" | "f = body_codec_field" | "f = project_field" | "f = spider_field" | "f = codes ''headers''" | "f = codes ''meta''"
    | "f \<notin> {codes ''body'', body_codec_field, project_field, spider_field, codes ''headers'', codes ''meta''}"
    by blast
  then show ?thesis
    by cases
      (simp_all add: d dget_stamp Let_def sent_field_def b n h' fields_distinct [symmetric] del: wire_value.simps,
       simp_all add: project_field_def spider_field_def body_codec_field_def n [unfolded body_codec_field_def] body_text_def
         option.map_comp comp_def)
qed

lemma validate_priority_keeps:
  assumes "case dget d (codes ''priority'') of None \<Rightarrow> True | Some v \<Rightarrow> \<exists>n. v = OInt n \<and> \<bar>n\<bar> \<le> 2 ^ 53"
  shows "\<exists>d'. validate_serialized_priority d = Inr d' \<and> (\<forall>f. dget d' f = dget d f)"
  using assms by (auto simp: validate_serialized_priority_def split: option.splits)

lemma decode_body_sent:
  assumes "dget d (codes ''body'') = Some (body_text bs)"
    and "dget d body_codec_field = (if bs = [] then None else Some (OStr body_codec_base64))"
  shows "\<exists>d'. decode_body d = Inr d'
    \<and> (\<forall>f. dget d' f = (if f = body_codec_field then None
                           else if f = codes ''body'' then Some (if bs = [] then ONone else OBytes bs) else dget d f))"
  using assms fields_distinct(9) by (auto simp: decode_body_def dict_get_def body_text_def Let_def)

text \<open>What a reader finds in the payload a queue has written.\<close>

lemma open_sent_payload:
  assumes "texts_ok P" "sc_to_dict S r = Inr d0" "scrapy_dict_ok S d0" "request_to_dict E S r = Inr d"
    "serialize P (ODict d) = Inr data" "obj_ok (ODict d)" "readable P depth (ODict d)" "length data \<le> limit"
  obtains d' where "open_payload P depth limit data = Inr d'" "\<And>f. dget d' f = map_option wire_value (dget d f)"
proof -
  let ?w = "map (\<lambda>(k, v). (k, wire_value v)) d"
  have "deserialize P depth data = Inr (ODict ?w)" using deserialize_serialize [OF assms(1,6,7,5)] by simp
  moreover have w: "dget ?w f = map_option wire_value (dget d f)" for f by (rule dget_map_values)
  moreover have "case dget ?w (codes ''priority'') of None \<Rightarrow> True | Some v \<Rightarrow> \<exists>n. v = OInt n \<and> \<bar>n\<bar> \<le> 2 ^ 53"
  proof -
    have "dget ?w (codes ''priority'') = map_option wire_value (dget d0 (codes ''priority''))"
      unfolding w request_to_dict_fields [OF assms(4,2,3)]
      by (auto simp: sent_field_def project_field_def spider_field_def body_codec_field_def)
    then show ?thesis using assms(3) by (auto simp: scrapy_dict_ok_def split: option.splits)
  qed
  from validate_priority_keeps [OF this] obtain d' where "validate_serialized_priority ?w = Inr d'" "\<forall>f. dget d' f = dget ?w f"
    by blast
  ultimately show thesis using that assms(8) by (simp add: open_payload_def)
qed

lemma validate_sent:
  assumes "scrapy_dict_ok S d0" "\<And>f. f \<notin> {project_field, spider_field} \<Longrightarrow> dget d f = sent_field r d0 f"
  shows "\<exists>d'. validate_request_dict d = Inr d' \<and> (\<forall>f. dget d' f = dget d f)"
proof -
  have f: "dget d (codes f) = sent_field r d0 (codes f)" if "take 2 f \<noteq> ''_s''" for f
  proof (rule assms(2))
    show "codes f \<notin> {project_field, spider_field}" using that by (auto simp: project_field_def spider_field_def)
  qed
  have "case dget d (codes f) of None \<Rightarrow> True | Some v \<Rightarrow> ok v" if m: "(f, ok) \<in> set request_field_types" for f ok
  proof (cases "f \<in> {''headers'', ''body'', ''meta''}")
    case True
    then show ?thesis using m f [of f] by (auto simp: request_field_types_def sent_field_def)
  next
    case False
    have "take 2 f \<noteq> ''_s''" using m by (auto simp: request_field_types_def)
    then have "dget d (codes f) = map_option wire_value (dget d0 (codes f))" using f [of f] False by (simp add: sent_field_def)
    moreover have "case dget d0 (codes f) of None \<Rightarrow> True | Some v \<Rightarrow> ok (wire_value v)"
      using assms(1) m False unfolding scrapy_dict_ok_def by fast
    ultimately show ?thesis by (simp split: option.splits)
  qed
  moreover have "flags_ok (dget d (codes ''flags''))" using assms(1) f [of "''flags''"] by (simp add: sent_field_def scrapy_dict_ok_def)
  moreover have "headers_ok (dget d (codes ''headers''))" using f [of "''headers''"] headers_ok_sent by (simp add: sent_field_def)
  ultimately have "validate_request_dict d = validate_serialized_priority d" by (auto simp: validate_request_dict_def)
  moreover have "case dget d (codes ''priority'') of None \<Rightarrow> True | Some v \<Rightarrow> \<exists>n. v = OInt n \<and> \<bar>n\<bar> \<le> 2 ^ 53"
    using assms(1) f [of "''priority''"] by (auto simp: sent_field_def scrapy_dict_ok_def split: option.splits)
  ultimately show ?thesis using validate_priority_keeps [of d] by simp
qed

lemma bind_method_sent:
  assumes "method_ok S (dict_get d (codes field))" "field \<in> {''callback'', ''errback''}"
    and "map_of kwargs (codes field) = map_option Plain (dget d (codes field))"
  shows "\<exists>k. bind_method S d field kwargs = Inr k
    \<and> (\<forall>f. map_of k f = (if f = codes field then map_option (sent_arg S f) (dget d f) else map_of kwargs f))"
proof (cases "dget d (codes field)")
  case None
  then show ?thesis using assms by (auto simp: bind_method_def dict_get_def)
next
  case (Some v)
  with assms(1) consider "v = ONone" | m where "v = OStr m" "\<not> starts_with ''__'' m"
      "case sc_method S of None \<Rightarrow> True | Some is_method \<Rightarrow> is_method m = Inr True"
    by (auto simp: method_ok_def dict_get_def)
  then show ?thesis
  proof cases
    case 1
    then show ?thesis using Some assms by (auto simp: bind_method_def dict_get_def sent_arg_def)
  next
    case 2
    then show ?thesis using Some assms
      by (cases "m = []"; cases "sc_method S") (auto simp: bind_method_def dict_get_def sent_arg_def)
  qed
qed

lemma build_sent:
  assumes "scrapy_dict_ok S d0" "\<not> unsupported_class S d0"
    and d: "\<And>f. dget d f =
      (if f = codes ''body'' then Some (body_text (rq_body r))
       else if f = body_codec_field then (if rq_body r = [] then None else Some (OStr body_codec_base64))
       else if f = project_field then p else if f = spider_field then q else sent_field r d0 f)"
  shows "\<exists>cls kwargs. resolve_class S d0 = Inr cls \<and> build_request S d = sc_new S cls kwargs
    \<and> (\<forall>f. map_of kwargs f = (if f \<in> set (sc_attributes S cls) then map_option (sent_arg S f) (sent_field r d0 f) else None))"
proof -
  have "dget d (codes ''body'') = Some (body_text (rq_body r))"
    "dget d body_codec_field = (if rq_body r = [] then None else Some (OStr body_codec_base64))"
    using d fields_distinct(9) by simp_all
  from decode_body_sent [OF this] obtain d1 where d1: "decode_body d = Inr d1"
    and g1: "\<And>f. dget d1 f = (if f = body_codec_field then None
      else if f = codes ''body'' then Some (if rq_body r = [] then ONone else OBytes (rq_body r)) else dget d f)"
    by blast
  have s1: "dget d1 f = sent_field r d0 f" if "f \<notin> {project_field, spider_field}" for f
    using that g1 [of f] d [of f] assms(1) by (auto simp: sent_field_def scrapy_dict_ok_def body_codec_field_def)
  from validate_sent [OF assms(1) this] obtain d2 where d2: "validate_request_dict d1 = Inr d2" and g2: "\<And>f. dget d2 f = dget d1 f"
    by blast
  have c: "dget d2 (codes ''_class'') = map_option wire_value (dget d0 (codes ''_class''))"
    using g2 s1 [of "codes ''_class''"] by (simp add: project_field_def spider_field_def sent_field_def)
  have "\<exists>cls. resolve_class S d0 = Inr cls \<and> resolve_class S d2 = Inr cls"
    using assms(2) c by (auto simp: unsupported_class_def resolve_class_def dict_get_def split: option.splits pyobj.splits)
  then obtain cls where cls: "resolve_class S d0 = Inr cls" "resolve_class S d2 = Inr cls" by blast
  let ?k0 = "plain_kwargs (sc_attributes S cls) d2"
  have attrs: "codes ''callback'' \<in> set (sc_attributes S cls)" "codes ''errback'' \<in> set (sc_attributes S cls)"
    "{project_field, spider_field} \<inter> set (sc_attributes S cls) = {}"
    using assms(1) unfolding scrapy_dict_ok_def by (blast, blast, blast)
  have m: "method_ok S (dict_get d2 (codes ''callback''))" "method_ok S (dict_get d2 (codes ''errback''))"
    using assms(1) g2 s1 [of "codes ''callback''"] s1 [of "codes ''errback''"]
    by (auto simp: scrapy_dict_ok_def dict_get_def project_field_def spider_field_def sent_field_def split: option.splits)
  have k0: "map_of ?k0 f = (if f \<in> set (sc_attributes S cls) then map_option Plain (dget d2 f) else None)" for f
    by (rule map_of_plain_kwargs)
  from bind_method_sent [OF m(1), of ?k0] k0 attrs(1) obtain k1 where
    k1: "bind_method S d2 ''callback'' ?k0 = Inr k1"
      "\<And>f. map_of k1 f = (if f = codes ''callback'' then map_option (sent_arg S f) (dget d2 f) else map_of ?k0 f)"
    by auto
  from bind_method_sent [OF m(2), of k1] k0 attrs(2) k1(2) obtain k2 where
    k2: "bind_method S d2 ''errback'' k1 = Inr k2"
      "\<And>f. map_of k2 f = (if f = codes ''errback'' then map_option (sent_arg S f) (dget d2 f) else map_of k1 f)"
    by auto
  have "map_of k2 f = (if f \<in> set (sc_attributes S cls) then map_option (sent_arg S f) (sent_field r d0 f) else None)" for f
  proof (cases "f \<in> set (sc_attributes S cls)")
    case True
    then have "dget d2 f = sent_field r d0 f" using attrs(3) s1 [of f] g2 by auto
    moreover have "sent_arg S f = Plain" if "f \<notin> {codes ''callback'', codes ''errback''}"
      using that by (auto simp: sent_arg_def fun_eq_iff split: pyobj.splits)
    ultimately show ?thesis using True k1(2) k2(2) k0 by auto
  next
    case False
    then show ?thesis using attrs k1(2) k2(2) k0 by auto
  qed
  moreover have "build_request S d = sc_new S cls k2" using d1 d2 cls k1(1) k2(1) by (simp add: build_request_def request_from_dict_def)
  ultimately show ?thesis using cls(1) by blast
qed

lemma sent_comes_back:
  assumes "texts_ok P" "sc_to_dict S r = Inr d0" "scrapy_dict_ok S d0" "request_to_dict E S r = Inr d"
    "serialize P (ODict d) = Inr data" "obj_ok (ODict d)" "readable P depth (ODict d)" "length data \<le> limit"
  shows "\<exists>d' cls kwargs. open_payload P depth limit data = Inr d' \<and> (\<forall>f. dget d' f = map_option wire_value (dget d f))
    \<and> resolve_class S d0 = Inr cls \<and> build_request S d' = sc_new S cls kwargs
    \<and> (\<forall>f. map_of kwargs f = (if f \<in> set (sc_attributes S cls) then map_option (sent_arg S f) (sent_field r d0 f) else None))"
proof -
  obtain d' where d': "open_payload P depth limit data = Inr d'" "\<And>f. dget d' f = map_option wire_value (dget d f)"
    using open_sent_payload [OF assms] by blast
  note g = d'(2) [unfolded request_to_dict_fields [OF assms(4,2,3)]]
  have "\<not> unsupported_class S d0" using assms(2,4) by (simp add: request_to_dict_def split: if_splits)
  moreover have "dget d' f =
      (if f = codes ''body'' then Some (body_text (rq_body r))
       else if f = body_codec_field then (if rq_body r = [] then None else Some (OStr body_codec_base64))
       else if f = project_field then dget d' project_field
       else if f = spider_field then dget d' spider_field else sent_field r d0 f)" for f
  proof (cases "f \<in> {project_field, spider_field}")
    case True
    then show ?thesis by (auto simp: fields_distinct [symmetric])
  next
    case False
    then show ?thesis using g [of f] by simp
  qed
  ultimately show ?thesis using build_sent [OF assms(3)] d' by blast
qed

text \<open>Whom the stamp admits.\<close>

lemma identity_of_sent:
  assumes "sc_to_dict S r = Inr d0" "scrapy_dict_ok S d0" "request_to_dict E S r = Inr d"
    and "\<And>f. dget d' f = map_option wire_value (dget d f)"
  shows "validate_envelope_identity E' d' =
    (if en_spider E' = None \<or> en_cross E' \<or> en_spider E \<in> {None, Some []} \<or> en_spider E' = en_spider E \<and> en_project E' = en_project E
     then Inr () else Inl EnvelopeIdentityMismatch)"
proof -
  note g = assms(4) [unfolded request_to_dict_fields [OF assms(3,1,2)]]
  have n: "sent_field r d0 project_field = None" "sent_field r d0 spider_field = None"
    using assms(2) by (simp_all add: scrapy_dict_ok_def sent_field_def) (simp_all add: project_field_def spider_field_def)
  have "dict_get d' project_field = (if en_spider E \<in> {None, Some []} then ONone else OStr (en_project E))"
    "dict_get d' spider_field = (if en_spider E \<in> {None, Some []} then ONone else OStr (the (en_spider E)))"
    using g [of project_field] g [of spider_field] n by (auto simp: dict_get_def fields_distinct [symmetric])
  then show ?thesis by (cases "en_spider E"; cases "en_spider E'") (auto simp: validate_envelope_identity_def)
qed

text \<open>
  C19. A request survives the queue: from the bytes a queue writes for a request, a queue of the same
  project and spider builds a request of the same class by calling the constructor with exactly the fields Scrapy reported, with
  the body byte for byte, repeated headers apart, the callbacks as the spider's methods and the meta without the
  acknowledgement token and the routing controls; the identity stamp reaches no constructor.
\<close>

theorem request_roundtrip:
  assumes "texts_ok P" "sc_to_dict S r = Inr d0" "scrapy_dict_ok S d0" "request_to_dict E S r = Inr d"
    "serialize P (ODict d) = Inr data" "obj_ok (ODict d)" "readable P depth (ODict d)" "length data \<le> limit"
    and "en_spider E' = en_spider E" "en_project E' = en_project E"
  shows "\<exists>d' cls kwargs. open_payload P depth limit data = Inr d' \<and> validate_envelope_identity E' d' = Inr ()
    \<and> resolve_class S d0 = Inr cls \<and> build_request S d' = sc_new S cls kwargs
    \<and> (\<forall>f. map_of kwargs f = (if f \<in> set (sc_attributes S cls) then map_option (sent_arg S f) (sent_field r d0 f) else None))"
  using sent_comes_back [OF assms(1-8)] identity_of_sent [OF assms(2-4), of _ E'] assms(9,10) by fastforce

text \<open>
  A small request for the witnesses: its class keeps its arguments, its spider has the one method \<open>parse\<close>.
\<close>

type_synonym demo_object = "(codes \<times> (nat, nat) arg) list"

definition demo_scrapy :: "(demo_object, nat, nat, nat) scrapy" where
  "demo_scrapy =
     \<lparr>sc_to_dict = (\<lambda>r. Inr [(KStr (codes ''url''), OStr (codes ''u'')), (KStr (codes ''callback''), OStr (codes ''parse'')),
                           (KStr (codes ''priority''), OInt 3)]),
      sc_class_name = (\<lambda>c. codes ''Request''),
      sc_attributes = (\<lambda>c. map codes [''url'', ''callback'', ''errback'', ''headers'', ''body'', ''meta'', ''priority'']),
      sc_method = Some (\<lambda>m. Inr (m = codes ''parse'')),
      sc_new = (\<lambda>c kwargs. Inr \<lparr>rq_obj = kwargs, rq_meta = [], rq_token = None, rq_headers = [], rq_body = []\<rparr>)\<rparr>"

definition demo_request :: "(demo_object, nat, nat, nat) request" where
  "demo_request = \<lparr>rq_obj = [], rq_meta = [(KStr (codes ''depth''), OInt 1), (KStr (codes ''delay''), OInt 5)], rq_token = Some 7,
     rq_headers = [([65], [[1], [2]])], rq_body = [1, 255]\<rparr>"

definition demo_envelope :: envelope where
  "demo_envelope = \<lparr>en_spider = Some (codes ''s''), en_project = codes ''p'', en_cross = False\<rparr>"

definition demo_dict :: "(nat, nat) pydict" where
  "demo_dict = [(KStr (codes ''url''), OStr (codes ''u'')), (KStr (codes ''callback''), OStr (codes ''parse'')), (KStr (codes ''priority''), OInt 3),
     (KStr (codes ''headers''), ODict [(KStr (codes ''A''), OList [OBytes [1], OBytes [2]])]),
     (KStr (codes ''body''), OStr (codes (b64encode [1, 255]))), (KStr (codes ''meta''), ODict [(KStr (codes ''depth''), OInt 1)]),
     (KStr project_field, OStr (codes ''p'')), (KStr spider_field, OStr (codes ''s'')), (KStr body_codec_field, OStr body_codec_base64)]"

lemma demo_to_dict: "request_to_dict demo_envelope demo_scrapy demo_request = Inr demo_dict"
proof -
  have "codes ''A'' = [65]" by (simp add: codes_simps)
  then show ?thesis
    by (simp add: request_to_dict_def demo_envelope_def demo_scrapy_def demo_request_def demo_dict_def unsupported_class_def header_dict_def
        ascii_name_def serialized_meta_def stamp_def body_text_def dset_def dget_def project_field_def spider_field_def body_codec_field_def
        ack_token_key_def Let_def codes_simps(1) del: b64encode.simps) (simp add: codes_def)
qed

lemma demo_serialize:
  obtains data where "serialize demo_texts (ODict demo_dict) = Inr data" "readable demo_texts 10 (ODict demo_dict)"
proof -
  have "\<exists>t. encode_json_value demo_texts (ODict demo_dict) = Inr t \<and> ints_printable t \<and> json_ok (pt_float_repr demo_texts) 10 t"
    by (simp add: demo_dict_def project_field_def spider_field_def body_codec_field_def body_codec_base64_def escape_dict_def
        looks_like_codec_marker_def marker_def int_text_def str_of_nat.simps string_ok_codes codec_tag_def codec_data_def codec_bytes_def
        codec_dict_def codec_datetime_def codec_date_def bytes_tag_def del: b64encode.simps)
  then show thesis using that by (auto simp: serialize_def readable_def)
qed

lemma demo_dict_ok:
  "obj_ok (ODict demo_dict)"
  "sc_to_dict demo_scrapy demo_request = Inr (take 3 demo_dict)" "scrapy_dict_ok demo_scrapy (take 3 demo_dict)"
proof -
  show "obj_ok (ODict demo_dict)"
    by (simp add: demo_dict_def project_field_def spider_field_def body_codec_field_def body_codec_base64_def del: b64encode.simps)
  show "sc_to_dict demo_scrapy demo_request = Inr (take 3 demo_dict)" by (simp add: demo_scrapy_def demo_dict_def)
  have "\<not> starts_with ''__'' (codes ''parse'')" by (simp add: starts_with_def codes_simps)
  then show "scrapy_dict_ok demo_scrapy (take 3 demo_dict)"
    by (auto simp: scrapy_dict_ok_def demo_scrapy_def demo_dict_def request_field_types_def dict_get_def method_ok_def
        project_field_def spider_field_def body_codec_field_def)
qed

theorem request_roundtrip_witness:
  "\<exists>data d' r. serialize demo_texts (ODict demo_dict) = Inr data
     \<and> open_payload demo_texts 10 (length data) data = Inr d' \<and> build_request demo_scrapy d' = Inr r
     \<and> map_of (rq_obj r) (codes ''body'') = Some (Plain (OBytes [1, 255]))
     \<and> map_of (rq_obj r) (codes ''callback'') = Some (Method (codes ''parse''))
     \<and> map_of (rq_obj r) (codes ''meta'') = Some (Plain (ODict [(KStr (codes ''depth''), OInt 1)]))"
proof -
  obtain data where data: "serialize demo_texts (ODict demo_dict) = Inr data" "readable demo_texts 10 (ODict demo_dict)"
    by (rule demo_serialize)
  from request_roundtrip [OF texts_ok_demo demo_dict_ok(2,3) demo_to_dict data(1) demo_dict_ok(1) data(2) order_refl refl refl]
  obtain d' cls kwargs where d': "open_payload demo_texts 10 (length data) data = Inr d'"
    "build_request demo_scrapy d' = sc_new demo_scrapy cls kwargs"
    and k: "\<And>f. map_of kwargs f = (if f \<in> set (sc_attributes demo_scrapy cls)
      then map_option (sent_arg demo_scrapy f) (sent_field demo_request (take 3 demo_dict) f) else None)"
    by blast
  have "map_of kwargs (codes ''body'') = Some (Plain (OBytes [1, 255]))"
    unfolding k by (simp add: sent_arg_def sent_field_def demo_scrapy_def demo_request_def)
  moreover have "map_of kwargs (codes ''callback'') = Some (Method (codes ''parse''))"
    unfolding k by (simp add: sent_arg_def sent_field_def demo_scrapy_def demo_dict_def) (simp add: codes_def)
  moreover have "map_of kwargs (codes ''meta'') = Some (Plain (ODict [(KStr (codes ''depth''), OInt 1)]))"
    unfolding k by (simp add: sent_arg_def sent_field_def demo_scrapy_def demo_request_def serialized_meta_def ack_token_key_def)
  ultimately show ?thesis using data(1) d' by (fastforce simp: demo_scrapy_def)
qed

text \<open>A payload with a callback: the request that is built has the spider's method.\<close>

theorem payload_callbacks_safe_witness:
  "\<exists>data d r. open_payload demo_texts 10 (length data) data = Inr d \<and> build_request demo_scrapy d = Inr r
     \<and> (\<exists>kwargs. sc_new demo_scrapy PlainRequest kwargs = Inr r \<and> callback_safe demo_scrapy (map_of kwargs (codes ''callback'')))"
proof -
  obtain data where data: "serialize demo_texts (ODict demo_dict) = Inr data" "readable demo_texts 10 (ODict demo_dict)"
    by (rule demo_serialize)
  obtain d' cls kwargs where d': "open_payload demo_texts 10 (length data) data = Inr d'" "build_request demo_scrapy d' = sc_new demo_scrapy cls kwargs"
    using sent_comes_back [OF texts_ok_demo demo_dict_ok(2,3) demo_to_dict data(1) demo_dict_ok(1) data(2) order_refl] by blast
  then obtain r where r: "build_request demo_scrapy d' = Inr r" by (auto simp: demo_scrapy_def)
  from payload_callbacks_safe [OF d'(1) r] obtain cls kwargs where "sc_new demo_scrapy cls kwargs = Inr r"
    "callback_safe demo_scrapy (map_of kwargs (codes ''callback''))"
    by blast
  then show ?thesis using d'(1) r by (fastforce simp: demo_scrapy_def)
qed

end
