(* ===== verification/Queue_Close.thy ===== *)
theory Queue_Close
  imports Prelude
begin

text \<open>
  Admission and closing of a backend queue, \<open>queue/queue.py\<close>. Operations hold leases; a close stops admission, lets the
  strategy unblock its waiters, waits for the leases and for pending settlements, checkpoints, and then destroys the
  strategy's state. Every step may raise, and the thread that closes may be interrupted so that its frame is gone
  without having published an outcome. What \<open>begin_close\<close>, the checkpoint (\<open>Queue_Checkpoint\<close>) and \<open>strategy.close\<close>
  did is an argument. The bookkeeping of the callers that wait for a running attempt is left out: they change nothing.
\<close>

section \<open>State\<close>

datatype cleanup = NotStarted | Started | Succeeded | Failed | Indeterminate

text \<open>
  \<open>bq_active\<close> has the thread of every lease; \<open>bq_owner\<close> is the thread of the close attempt in progress
  (\<open>_close_in_progress\<close> with \<open>_close_owner_token\<close>).
\<close>

record bq =
  bq_accepting :: bool
  bq_active :: "nat list"
  bq_settlements :: nat
  bq_complete :: bool
  bq_owner :: "nat option"
  bq_attempt :: nat
  bq_begun :: bool
  bq_checkpointed :: bool
  bq_cleanup :: cleanup

definition bq_init :: bq where
  "bq_init = \<lparr>bq_accepting = True, bq_active = [], bq_settlements = 0, bq_complete = False, bq_owner = None, bq_attempt = 0,
     bq_begun = False, bq_checkpointed = False, bq_cleanup = NotStarted\<rparr>"

section \<open>Operations\<close>

definition begin_operation :: "nat \<Rightarrow> bq \<Rightarrow> (unit, bq) outcome" where
  "begin_operation t q = (if bq_accepting q then (Inr (), q\<lparr>bq_active := t # bq_active q\<rparr>) else (Inl QueueError, q))"

definition end_operation :: "nat \<Rightarrow> bq \<Rightarrow> bq" where
  "end_operation t q = q\<lparr>bq_active := remove1 t (bq_active q)\<rparr>"

definition close_called_from_active_operation :: "nat \<Rightarrow> bq \<Rightarrow> bool" where
  "close_called_from_active_operation t q \<longleftrightarrow> t \<in> set (bq_active q)"

text \<open>The settlement of a source delivery is tracked by the push that replaces it, until its worker is done.\<close>

definition track_replacement_settlement :: "bq \<Rightarrow> bq" where
  "track_replacement_settlement q = q\<lparr>bq_settlements := Suc (bq_settlements q)\<rparr>"

definition settlement_complete :: "bq \<Rightarrow> bq" where
  "settlement_complete q = q\<lparr>bq_settlements := bq_settlements q - 1\<rparr>"

section \<open>Closing\<close>

text \<open>The first locked section of \<open>close\<close>: go on, wait for the running attempt, or return. \<open>alive\<close>: the owner's frame runs.\<close>

datatype admission = Go | WaitFor nat | Closed

definition close_enter :: "nat \<Rightarrow> bool \<Rightarrow> bq \<Rightarrow> (admission, bq) outcome" where
  "close_enter t alive q =
     (if close_called_from_active_operation t q then (Inl QueueError, q)
      else if bq_complete q then (Inr Closed, q)
      else if bq_owner q \<noteq> None \<and> alive then (if bq_owner q = Some t then Inl QueueError else Inr (WaitFor (bq_attempt q)), q)
      else if bq_owner q \<noteq> None \<and> bq_cleanup q \<noteq> NotStarted then
        (if bq_cleanup q = Succeeded then Inr Closed else Inl QueueError, q\<lparr>bq_owner := None, bq_complete := True\<rparr>)
      else (Inr Go, q\<lparr>bq_attempt := Suc (bq_attempt q), bq_owner := Some t, bq_accepting := False\<rparr>))"

definition close_drained :: "bq \<Rightarrow> bool" where
  "close_drained q \<longleftrightarrow> bq_active q = [] \<and> bq_settlements q = 0"

definition cleanup_outcome :: "unit result \<Rightarrow> cleanup" where
  "cleanup_outcome r = (case r of Inr _ \<Rightarrow> Succeeded | Inl e \<Rightarrow> if e = ProcessSignal then Indeterminate else Failed)"

definition publish_strategy_cleanup_outcome :: "cleanup \<Rightarrow> bq \<Rightarrow> bq" where
  "publish_strategy_cleanup_outcome c q = (if bq_cleanup q = Started then q\<lparr>bq_cleanup := c\<rparr> else q)"

definition publish_close_attempt :: "nat \<Rightarrow> bool \<Rightarrow> bq \<Rightarrow> bq" where
  "publish_close_attempt t succeeded q =
     (if bq_owner q \<noteq> Some t then q
      else q\<lparr>bq_complete := (bq_complete q \<or> succeeded \<or> bq_cleanup q \<noteq> NotStarted), bq_owner := None\<rparr>)"

definition repair_close_finalization :: "nat \<Rightarrow> bool \<Rightarrow> bq \<Rightarrow> bq" where
  "repair_close_finalization t succeeded q = publish_close_attempt t succeeded (publish_strategy_cleanup_outcome Indeterminate q)"

section \<open>Interleavings\<close>

text \<open>Where the thread that closes is; \<open>Finishing\<close> has the result of the attempt.\<close>

datatype stage = Beginning bool | Draining bool | Checkpointing bool | Cleaning | Finishing bool

text \<open>
  \<open>cl_stage\<close> is the running attempt; it is gone when the frame is. \<open>cl_cleanups\<close> counts the calls of \<open>strategy.close\<close>, \<open>cl_saved\<close> says
  that a checkpoint returned or a lossy close was asked for.
\<close>

record closer =
  cl_queue :: bq
  cl_stage :: "(nat \<times> stage) option"
  cl_cleanups :: nat
  cl_saved :: bool

definition closer_init :: closer where
  "closer_init = \<lparr>cl_queue = bq_init, cl_stage = None, cl_cleanups = 0, cl_saved = False\<rparr>"

inductive close_step :: "closer \<Rightarrow> closer \<Rightarrow> bool" where
  admitted: "begin_operation t (cl_queue s) = (r, q) \<Longrightarrow> close_step s (s\<lparr>cl_queue := q\<rparr>)"
| left: "t \<in> set (bq_active (cl_queue s)) \<Longrightarrow> close_step s (s\<lparr>cl_queue := end_operation t (cl_queue s)\<rparr>)"
| tracked: "t \<in> set (bq_active (cl_queue s)) \<Longrightarrow> close_step s (s\<lparr>cl_queue := track_replacement_settlement (cl_queue s)\<rparr>)"
| settled: "close_step s (s\<lparr>cl_queue := settlement_complete (cl_queue s)\<rparr>)"
| entered: "close_enter t (cl_stage s \<noteq> None) (cl_queue s) = (Inr Go, q)
    \<Longrightarrow> close_step s (s\<lparr>cl_queue := q, cl_stage := Some (t, Beginning lossy)\<rparr>)"
| refused: "close_enter t (cl_stage s \<noteq> None) (cl_queue s) = (r, q) \<Longrightarrow> r \<noteq> Inr Go \<Longrightarrow> close_step s (s\<lparr>cl_queue := q\<rparr>)"
| begun: "cl_stage s = Some (t, Beginning lossy)
    \<Longrightarrow> close_step s (s\<lparr>cl_queue := (cl_queue s)\<lparr>bq_begun := True\<rparr>, cl_stage := Some (t, Draining lossy)\<rparr>)"
| begin_failed: "cl_stage s = Some (t, Beginning lossy) \<Longrightarrow> \<not> bq_begun (cl_queue s)
    \<Longrightarrow> close_step s (s\<lparr>cl_stage := Some (t, Finishing False)\<rparr>)"
| drained: "cl_stage s = Some (t, Draining lossy) \<Longrightarrow> close_drained (cl_queue s)
    \<Longrightarrow> close_step s (s\<lparr>cl_stage := Some (t, Checkpointing lossy)\<rparr>)"
| drain_failed: "cl_stage s = Some (t, Draining lossy) \<Longrightarrow> close_step s (s\<lparr>cl_stage := Some (t, Finishing False)\<rparr>)"
| checkpointed: "cl_stage s = Some (t, Checkpointing lossy) \<Longrightarrow> \<not> bq_checkpointed (cl_queue s)
    \<Longrightarrow> close_step s (s\<lparr>cl_queue := (cl_queue s)\<lparr>bq_checkpointed := True\<rparr>, cl_saved := True\<rparr>)"
| cleaning: "cl_stage s = Some (t, Checkpointing lossy) \<Longrightarrow> bq_checkpointed (cl_queue s)
    \<Longrightarrow> close_step s (s\<lparr>cl_queue := (cl_queue s)\<lparr>bq_cleanup := Started\<rparr>, cl_stage := Some (t, Cleaning),
          cl_cleanups := Suc (cl_cleanups s)\<rparr>)"
| checkpoint_failed: "cl_stage s = Some (t, Checkpointing lossy) \<Longrightarrow> \<not> bq_checkpointed (cl_queue s) \<Longrightarrow> \<not> lossy
    \<Longrightarrow> close_step s (s\<lparr>cl_stage := Some (t, Finishing False)\<rparr>)"
| cleaned: "cl_stage s = Some (t, Cleaning)
    \<Longrightarrow> close_step s (s\<lparr>cl_queue := publish_strategy_cleanup_outcome (cleanup_outcome r) (cl_queue s),
          cl_stage := Some (t, Finishing (r = Inr ()))\<rparr>)"
| finished: "cl_stage s = Some (t, Finishing ok)
    \<Longrightarrow> close_step s (s\<lparr>cl_queue := repair_close_finalization t ok (cl_queue s), cl_stage := None\<rparr>)"
| interrupted: "cl_stage s = Some (t, g) \<Longrightarrow> close_step s (s\<lparr>cl_stage := None\<rparr>)"

inductive_cases close_stepE: "close_step s s'"

section \<open>The invariant\<close>

fun past_drain :: "stage \<Rightarrow> bool" where
  "past_drain (Checkpointing _) = True"
| "past_drain Cleaning = True"
| "past_drain _ = False"

definition quiet :: "bq \<Rightarrow> bool" where
  "quiet q \<longleftrightarrow> \<not> bq_accepting q \<and> close_drained q"

definition closer_inv :: "closer \<Rightarrow> bool" where
  "closer_inv s \<longleftrightarrow>
     (bq_cleanup (cl_queue s) = NotStarted \<longrightarrow> cl_cleanups s = 0)
     \<and> (bq_cleanup (cl_queue s) \<noteq> NotStarted \<longrightarrow> cl_cleanups s = 1 \<and> quiet (cl_queue s))
     \<and> (bq_complete (cl_queue s) \<longrightarrow> bq_cleanup (cl_queue s) \<noteq> NotStarted)
     \<and> (bq_owner (cl_queue s) \<noteq> None \<or> bq_complete (cl_queue s) \<longrightarrow> \<not> bq_accepting (cl_queue s))
     \<and> (bq_cleanup (cl_queue s) \<noteq> NotStarted \<longrightarrow> bq_complete (cl_queue s) \<or> bq_owner (cl_queue s) \<noteq> None)
     \<and> (\<forall>t g. cl_stage s = Some (t, g) \<longrightarrow>
          bq_owner (cl_queue s) = Some t \<and> \<not> bq_complete (cl_queue s)
          \<and> (past_drain g \<longrightarrow> quiet (cl_queue s))
          \<and> (bq_cleanup (cl_queue s) \<noteq> NotStarted \<longrightarrow> g = Cleaning \<or> (\<exists>ok. g = Finishing ok))
          \<and> (g = Cleaning \<longrightarrow> bq_cleanup (cl_queue s) = Started)
          \<and> (g = Finishing True \<longrightarrow> bq_cleanup (cl_queue s) = Succeeded)
          \<and> (g = Finishing False \<longrightarrow> bq_cleanup (cl_queue s) \<noteq> Succeeded))"

lemmas closer_defs = closer_inv_def quiet_def close_drained_def

lemma close_step_inv:
  assumes "close_step s s'" and "closer_inv s"
  shows "closer_inv s'"
  using assms
proof (induction rule: close_step.induct)
  case (admitted t s r q)
  then show ?case by (auto simp: closer_defs begin_operation_def split: if_splits)
next
  case (left t s)
  then show ?case by (auto simp: closer_defs end_operation_def)
next
  case (tracked t s)
  then show ?case by (auto simp: closer_defs track_replacement_settlement_def)
next
  case (settled s)
  then show ?case by (auto simp: closer_defs settlement_complete_def)
next
  case (entered t s q lossy)
  then show ?case by (auto simp: closer_defs close_enter_def split: if_splits)
next
  case (refused t s r q)
  then show ?case by (auto simp: closer_defs close_enter_def split: if_splits)
next
  case (cleaned s t r)
  then show ?case
    by (cases r) (auto simp: closer_defs publish_strategy_cleanup_outcome_def cleanup_outcome_def)
next
  case (finished s t ok)
  then show ?case
    by (cases ok) (auto simp: closer_defs repair_close_finalization_def publish_close_attempt_def
      publish_strategy_cleanup_outcome_def)
qed (auto simp: closer_defs)

lemma close_reachable_inv: "close_step\<^sup>*\<^sup>* s s' \<Longrightarrow> closer_inv s \<Longrightarrow> closer_inv s'"
  by (induction rule: rtranclp_induct) (auto intro: close_step_inv)

lemma close_step_saved:
  assumes "close_step s s'" and "(bq_checkpointed (cl_queue s) \<or> cl_cleanups s \<noteq> 0) \<longrightarrow> cl_saved s"
  shows "(bq_checkpointed (cl_queue s') \<or> cl_cleanups s' \<noteq> 0) \<longrightarrow> cl_saved s'"
  using assms
  by (induction rule: close_step.induct)
     (auto simp: begin_operation_def end_operation_def track_replacement_settlement_def settlement_complete_def close_enter_def
       publish_strategy_cleanup_outcome_def repair_close_finalization_def publish_close_attempt_def split: if_splits)

lemma close_reachable_saved: "close_step\<^sup>*\<^sup>* closer_init s \<Longrightarrow> (bq_checkpointed (cl_queue s) \<or> cl_cleanups s \<noteq> 0) \<longrightarrow> cl_saved s"
proof (induction rule: rtranclp_induct)
  case base
  show ?case by (simp add: closer_init_def bq_init_def)
next
  case (step s s')
  then show ?case using close_step_saved by blast
qed

lemma close_step_shut: "close_step s s' \<Longrightarrow> \<not> bq_accepting (cl_queue s) \<Longrightarrow> \<not> bq_accepting (cl_queue s')"
  by (induction rule: close_step.induct)
     (auto simp: begin_operation_def end_operation_def track_replacement_settlement_def settlement_complete_def close_enter_def
       publish_strategy_cleanup_outcome_def repair_close_finalization_def publish_close_attempt_def split: if_splits)

lemma close_shut_stays: "close_step\<^sup>*\<^sup>* s s' \<Longrightarrow> \<not> bq_accepting (cl_queue s) \<Longrightarrow> \<not> bq_accepting (cl_queue s')"
  by (induction rule: rtranclp_induct) (auto dest: close_step_shut)

text \<open>
  C38. A queue is destroyed once, and only when nothing can be lost: under every interleaving of operations and close
  calls, failures and interruptions included, \<open>strategy.close\<close> is called at most once, after a checkpoint returned
  or a lossy close was asked for, when no operation and no settlement of a source delivery is in progress; once a
  close has begun no operation is ever admitted again; and as long as the state was not destroyed,
  a close that failed can be tried again.
\<close>

theorem queue_closes_once:
  assumes "close_step\<^sup>*\<^sup>* closer_init s"
  shows "cl_cleanups s \<le> 1
    \<and> (cl_cleanups s = 1 \<longrightarrow> cl_saved s \<and> bq_active (cl_queue s) = [] \<and> bq_settlements (cl_queue s) = 0)
    \<and> (bq_complete (cl_queue s) \<longrightarrow> cl_cleanups s = 1)
    \<and> (\<forall>s' t. close_step\<^sup>*\<^sup>* s s' \<and> (bq_owner (cl_queue s) \<noteq> None \<or> bq_complete (cl_queue s))
         \<longrightarrow> fst (begin_operation t (cl_queue s')) = Inl QueueError)
    \<and> (\<forall>t. cl_cleanups s = 0 \<and> cl_stage s = None \<and> t \<notin> set (bq_active (cl_queue s))
         \<longrightarrow> fst (close_enter t False (cl_queue s)) = Inr Go)"
proof -
  have inv: "closer_inv s"
    using close_reachable_inv [OF assms] by (simp add: closer_defs closer_init_def bq_init_def)
  have saved: "cl_cleanups s = 1 \<longrightarrow> cl_saved s" using close_reachable_saved [OF assms] by simp
  have n: "cl_cleanups s \<le> 1" "cl_cleanups s = 1 \<longrightarrow> quiet (cl_queue s)"
    "bq_complete (cl_queue s) \<longrightarrow> cl_cleanups s = 1" "cl_cleanups s = 0 \<longrightarrow> bq_cleanup (cl_queue s) = NotStarted"
    using inv by (auto simp: closer_inv_def)
  have "fst (begin_operation t (cl_queue s')) = Inl QueueError"
    if "close_step\<^sup>*\<^sup>* s s'" "bq_owner (cl_queue s) \<noteq> None \<or> bq_complete (cl_queue s)" for s' t
  proof -
    have "\<not> bq_accepting (cl_queue s)" using inv that(2) unfolding closer_inv_def by blast
    then show ?thesis using close_shut_stays [OF that(1)] by (simp add: begin_operation_def)
  qed
  moreover have "fst (close_enter t False (cl_queue s)) = Inr Go"
    if "cl_cleanups s = 0" "t \<notin> set (bq_active (cl_queue s))" for t
    using n that by (auto simp: close_enter_def close_called_from_active_operation_def)
  ultimately show ?thesis using n saved unfolding quiet_def close_drained_def by blast
qed

theorem queue_closes_once_witness:
  "\<exists>s. close_step\<^sup>*\<^sup>* closer_init s \<and> bq_complete (cl_queue s) \<and> cl_cleanups s = 1"
proof -
  let ?c = "\<lambda>q g n b. \<lparr>cl_queue = q, cl_stage = g, cl_cleanups = n, cl_saved = b\<rparr>"
  let ?q1 = "bq_init\<lparr>bq_attempt := 1, bq_owner := Some 7, bq_accepting := False\<rparr>"
  let ?q2 = "?q1\<lparr>bq_begun := True\<rparr>"
  let ?q2' = "?q2\<lparr>bq_checkpointed := True\<rparr>"
  let ?q3 = "?q2'\<lparr>bq_cleanup := Started\<rparr>"
  let ?q4 = "?q2\<lparr>bq_checkpointed := True, bq_cleanup := Succeeded\<rparr>"
  let ?q5 = "?q4\<lparr>bq_complete := True, bq_owner := None\<rparr>"
  have "close_step closer_init (?c ?q1 (Some (7, Beginning False)) 0 False)"
    using entered [of 7 closer_init ?q1 False]
    by (simp add: closer_init_def bq_init_def close_enter_def close_called_from_active_operation_def)
  moreover have "close_step (?c ?q1 (Some (7, Beginning False)) 0 False) (?c ?q2 (Some (7, Draining False)) 0 False)"
    using begun [of "?c ?q1 (Some (7, Beginning False)) 0 False" 7 False] by simp
  moreover have "close_step (?c ?q2 (Some (7, Draining False)) 0 False) (?c ?q2 (Some (7, Checkpointing False)) 0 False)"
    using drained [of "?c ?q2 (Some (7, Draining False)) 0 False" 7 False] by (simp add: close_drained_def bq_init_def)
  moreover have "close_step (?c ?q2 (Some (7, Checkpointing False)) 0 False) (?c ?q2' (Some (7, Checkpointing False)) 0 True)"
    using checkpointed [of "?c ?q2 (Some (7, Checkpointing False)) 0 False" 7 False] by (simp add: bq_init_def)
  moreover have "close_step (?c ?q2' (Some (7, Checkpointing False)) 0 True) (?c ?q3 (Some (7, Cleaning)) 1 True)"
    using cleaning [of "?c ?q2' (Some (7, Checkpointing False)) 0 True" 7 False] by simp
  moreover have "close_step (?c ?q3 (Some (7, Cleaning)) 1 True) (?c ?q4 (Some (7, Finishing True)) 1 True)"
    using cleaned [of "?c ?q3 (Some (7, Cleaning)) 1 True" 7 "Inr ()"]
    by (simp add: publish_strategy_cleanup_outcome_def cleanup_outcome_def)
  moreover have "close_step (?c ?q4 (Some (7, Finishing True)) 1 True) (?c ?q5 None 1 True)"
    using finished [of "?c ?q4 (Some (7, Finishing True)) 1 True" 7 True]
    by (simp add: repair_close_finalization_def publish_strategy_cleanup_outcome_def publish_close_attempt_def)
  ultimately have r: "close_step\<^sup>*\<^sup>* closer_init (?c ?q5 None 1 True)"
    by (meson converse_rtranclp_into_rtranclp rtranclp.rtrancl_refl)
  moreover have "cl_cleanups (?c ?q5 None 1 True) = 1" using queue_closes_once [OF r] by simp
  ultimately show ?thesis by fastforce
qed

end
