(* ===== verification/Queue_Messages.thy ===== *)
theory Queue_Messages
  imports Request_Envelope Queue_Close Queue_Base
begin

text \<open>
  Pushing and popping of a backend queue, \<open>queue/queue.py\<close>: a push validates the routing controls of a request, serializes it and
  commits it through the strategy, and then settles the broker delivery the request came from; a pop turns
  a delivery into a request, or settles it when it is empty, malformed or another spider's.

  The strategy with its backend is a record of operations over a state type, which the strategies of
  \<open>Strategy_Factory\<close> implement; the gate is that of \<open>Queue_Close\<close>. Counters of the statistics, log records and the pop-rate
  gauge are left out.
\<close>

section \<open>State\<close>

text \<open>
  \<open>qw_prepare\<close> is \<open>_prepare_push\<close> and tells whether the route crosses into the backend; \<open>qw_commit\<close> is the
  commit of the prepared push with its durability requirement and its receipt; \<open>qw_push\<close> is the plain push of
  the strategy, whose priority may be Python's \<open>None\<close>. \<open>qw_requires_ack\<close> asks the current backend.
\<close>

record ('tok, 's) qworld =
  qw_prepare :: "rat \<Rightarrow> rat \<Rightarrow> codes \<Rightarrow> 's \<Rightarrow> (bool, 's) outcome"
  qw_commit :: "rat \<Rightarrow> rat \<Rightarrow> codes \<Rightarrow> bytes \<Rightarrow> bool \<Rightarrow> 's \<Rightarrow> (bool, 's) outcome"
  qw_push :: "bytes \<Rightarrow> rat option \<Rightarrow> 's \<Rightarrow> (unit, 's) outcome"
  qw_pop_with_ack :: "rat \<Rightarrow> 's \<Rightarrow> (bytes option \<times> 'tok option, 's) outcome"
  qw_ack :: "'tok option \<Rightarrow> 's \<Rightarrow> (unit, 's) outcome"
  qw_nack :: "'tok option \<Rightarrow> 's \<Rightarrow> (unit, 's) outcome"
  qw_requires_ack :: "'s \<Rightarrow> (bool, 's) outcome"
  qw_bound :: "'tok \<Rightarrow> bool"
  qw_reactor_safe :: "'tok \<Rightarrow> bool"
  qw_queue_len :: "'s \<Rightarrow> (nat, 's) outcome"
  qw_clear :: "'s \<Rightarrow> (unit, 's) outcome"

text \<open>
  What the queue is configured with: identity, Scrapy's classes, the codec's texts, \<open>str\<close> of a source that is no string, the size
  limit, the recursion the reader has left, the depth sampling, and whether a reactor runs.
\<close>

record ('o, 'tok, 't, 'd) qconf =
  qf_envelope :: envelope
  qf_scrapy :: "('o, 'tok, 't, 'd) scrapy"
  qf_texts :: "('t, 'd) py_texts"
  qf_source :: "('t, 'd) pyobj \<Rightarrow> codes result"
  qf_max_item_bytes :: nat
  qf_depth :: nat
  qf_sample_every :: nat
  qf_reactor :: bool

text \<open>\<open>qs_workers\<close> has the tokens whose acknowledgement was handed to a worker thread and has not ended.\<close>

record ('tok, 's) qstate =
  qs_gate :: bq
  qs_world :: 's
  qs_workers :: "'tok list"
  qs_cached_depth :: "nat option"
  qs_probe_counter :: nat

definition on_world :: "('s \<Rightarrow> ('a, 's) outcome) \<Rightarrow> ('tok, 's) qstate \<Rightarrow> ('a, ('tok, 's) qstate) outcome" where
  "on_world f st = (case f (qs_world st) of (r, s) \<Rightarrow> (r, st\<lparr>qs_world := s\<rparr>))"

section \<open>Pushing\<close>

definition push_delay :: "('t, 'd) pydict \<Rightarrow> rat result" where
  "push_delay meta =
     (case dget meta (codes ''delay'') of
        None \<Rightarrow> Inr 0
      | Some (OInt n) \<Rightarrow> (case float_of_int n of Inl _ \<Rightarrow> Inl QueueError | Inr x \<Rightarrow> if x < 0 then Inl QueueError else Inr x)
      | Some (OFloat (Fin x)) \<Rightarrow> if x < 0 then Inl QueueError else Inr x
      | Some _ \<Rightarrow> Inl QueueError)"

definition push_priority :: "pyval \<Rightarrow> rat result" where
  "push_priority priority =
     (case priority of
        PyInt n \<Rightarrow> (case float_of_int n of Inl _ \<Rightarrow> Inl QueueError | Inr _ \<Rightarrow> Inr (of_int n))
      | PyFloat (Fin x) \<Rightarrow> Inr x
      | _ \<Rightarrow> Inl QueueError)"

definition push_source :: "(('t, 'd) pyobj \<Rightarrow> codes result) \<Rightarrow> ('t, 'd) pydict \<Rightarrow> codes result" where
  "push_source str meta =
     (case dget meta (codes ''source'') of
        None \<Rightarrow> Inr (codes ''default'')
      | Some (OStr s) \<Rightarrow> Inr (if s = [] then codes ''default'' else s)
      | Some v \<Rightarrow> (case str v of Inl e \<Rightarrow> Inl (if ordinary e then QueueError else e) | Inr s \<Rightarrow> Inr s))"

definition push_routing ::
  "('o, 'tok, 't, 'd) qconf \<Rightarrow> ('o, 'tok, 't, 'd) request \<Rightarrow> pyval \<Rightarrow> (rat \<times> rat \<times> codes) result" where
  "push_routing C req priority =
     rbind (push_delay (rq_meta req)) (\<lambda>delay.
       rbind (push_priority priority) (\<lambda>prio.
         rbind (push_source (qf_source C) (rq_meta req)) (\<lambda>source. Inr (prio, delay, source))))"

definition push_payload :: "('o, 'tok, 't, 'd) qconf \<Rightarrow> ('o, 'tok, 't, 'd) request \<Rightarrow> bytes result" where
  "push_payload C req =
     rbind (request_to_dict (qf_envelope C) (qf_scrapy C) req) (\<lambda>d. serialize (qf_texts C) (ODict d))"

definition terminate_invalid_replacement ::
  "('tok, 's) qworld \<Rightarrow> ('o, 'tok, 't, 'd) request \<Rightarrow> ('tok, 's) qstate
    \<Rightarrow> (unit, ('o, 'tok, 't, 'd) request \<times> ('tok, 's) qstate) outcome" where
  "terminate_invalid_replacement W req st =
     (case rq_token req of
        None \<Rightarrow> (Inr (), req, st)
      | Some t \<Rightarrow>
          (case on_world (qw_ack W (Some t)) st of
             (Inr _, st1) \<Rightarrow> (Inr (), req\<lparr>rq_token := None\<rparr>, st1)
           | (Inl e, st1) \<Rightarrow> (if ordinary e then Inr () else Inl e, req, st1)))"

text \<open>A request that can never be pushed: its source delivery is terminated and the error raised.\<close>

definition reject_push ::
  "('tok, 's) qworld \<Rightarrow> exn \<Rightarrow> ('o, 'tok, 't, 'd) request \<Rightarrow> ('tok, 's) qstate
    \<Rightarrow> (bool, ('o, 'tok, 't, 'd) request \<times> ('tok, 's) qstate) outcome" where
  "reject_push W e req st =
     (case terminate_invalid_replacement W req st of (Inr _, w) \<Rightarrow> (Inl e, w) | (Inl e', w) \<Rightarrow> (Inl e', w))"

definition schedule_replacement_ack :: "'tok \<Rightarrow> ('tok, 's) qstate \<Rightarrow> ('tok, 's) qstate" where
  "schedule_replacement_ack t st = st\<lparr>qs_gate := track_replacement_settlement (qs_gate st), qs_workers := qs_workers st @ [t]\<rparr>"

text \<open>The worker's end: the acknowledgement, then the token of the request and the fence of the close.\<close>

definition replacement_ack_done ::
  "('tok, 's) qworld \<Rightarrow> 'tok \<Rightarrow> ('o, 'tok, 't, 'd) request \<Rightarrow> ('tok, 's) qstate
    \<Rightarrow> ('o, 'tok, 't, 'd) request \<times> ('tok, 's) qstate" where
  "replacement_ack_done W t req st =
     (case on_world (qw_ack W (Some t)) st of
        (r, st1) \<Rightarrow> (if r = Inr () \<and> rq_token req = Some t then req\<lparr>rq_token := None\<rparr> else req,
          st1\<lparr>qs_gate := settlement_complete (qs_gate st1), qs_workers := remove1 t (qs_workers st1)\<rparr>))"

definition consume_routing :: "('o, 'tok, 't, 'd) request \<Rightarrow> ('o, 'tok, 't, 'd) request" where
  "consume_routing req = req\<lparr>rq_meta := ddel (ddel (rq_meta req) (codes ''delay'')) (codes ''source'')\<rparr>"

definition settle_replacement ::
  "('o, 'tok, 't, 'd) qconf \<Rightarrow> ('tok, 's) qworld \<Rightarrow> 'tok \<Rightarrow> ('o, 'tok, 't, 'd) request \<Rightarrow> ('tok, 's) qstate
    \<Rightarrow> (bool, ('o, 'tok, 't, 'd) request \<times> ('tok, 's) qstate) outcome" where
  "settle_replacement C W t req st =
     (if qf_reactor C \<and> \<not> qw_reactor_safe W t then (Inr True, req, schedule_replacement_ack t st)
      else
        (case on_world (qw_ack W (Some t)) st of
           (Inr _, st1) \<Rightarrow> (Inr True, req\<lparr>rq_token := None\<rparr>, st1)
         | (Inl e, st1) \<Rightarrow> (if ordinary e then Inr True else Inl e, req, st1)))"

definition commit_push ::
  "('o, 'tok, 't, 'd) qconf \<Rightarrow> ('tok, 's) qworld \<Rightarrow> rat \<times> rat \<times> codes \<Rightarrow> bytes \<Rightarrow> ('o, 'tok, 't, 'd) request \<Rightarrow> ('tok, 's) qstate
    \<Rightarrow> (bool, ('o, 'tok, 't, 'd) request \<times> ('tok, 's) qstate) outcome" where
  "commit_push C W route data req st =
     (case route of (prio, delay, source) \<Rightarrow>
        (case on_world (qw_commit W prio delay source data (rq_token req \<noteq> None)) st of
           (Inl e, st1) \<Rightarrow> (Inl e, req, st1)
         | (Inr durable, st1) \<Rightarrow>
             (case rq_token req of
                None \<Rightarrow> (Inr durable, consume_routing req, st1)
              | Some t \<Rightarrow> if \<not> durable then (Inl QueueError, req, st1) else settle_replacement C W t (consume_routing req) st1)))"

text \<open>\<open>_push\<close>, under an operation lease.\<close>

definition push_admitted ::
  "('o, 'tok, 't, 'd) qconf \<Rightarrow> ('tok, 's) qworld \<Rightarrow> pyval \<Rightarrow> ('o, 'tok, 't, 'd) request \<Rightarrow> ('tok, 's) qstate
    \<Rightarrow> (bool, ('o, 'tok, 't, 'd) request \<times> ('tok, 's) qstate) outcome" where
  "push_admitted C W priority req st =
     (case push_routing C req priority of
        Inl e \<Rightarrow> if ordinary e then reject_push W e req st else (Inl e, req, st)
      | Inr (prio, delay, source) \<Rightarrow>
          (case on_world (qw_prepare W prio delay source) st of
             (Inl e, st1) \<Rightarrow> (Inl e, req, st1)
           | (Inr backend_route, st1) \<Rightarrow>
               if rq_token req \<noteq> None \<and> \<not> backend_route then (Inl QueueError, req, st1)
               else
                 (case push_payload C req of
                    Inl e \<Rightarrow> if ordinary e then reject_push W SerializationError req st1 else (Inl e, req, st1)
                  | Inr data \<Rightarrow>
                      if qf_max_item_bytes C < length data then reject_push W SerializationError req st1
                      else commit_push C W (prio, delay, source) data req st1)))"

definition end_lease :: "nat \<Rightarrow> ('tok, 's) qstate \<Rightarrow> ('tok, 's) qstate" where
  "end_lease thread st = st\<lparr>qs_gate := end_operation thread (qs_gate st)\<rparr>"

definition queue_push ::
  "('o, 'tok, 't, 'd) qconf \<Rightarrow> ('tok, 's) qworld \<Rightarrow> nat \<Rightarrow> pyval \<Rightarrow> ('o, 'tok, 't, 'd) request \<Rightarrow> ('tok, 's) qstate
    \<Rightarrow> (bool, ('o, 'tok, 't, 'd) request \<times> ('tok, 's) qstate) outcome" where
  "queue_push C W thread priority req st =
     (case begin_operation thread (qs_gate st) of
        (Inl e, g) \<Rightarrow> (Inl e, req, st\<lparr>qs_gate := g\<rparr>)
      | (Inr _, g) \<Rightarrow>
          (case push_admitted C W priority req (st\<lparr>qs_gate := g\<rparr>) of (r, req1, st1) \<Rightarrow> (r, req1, end_lease thread st1)))"

section \<open>Popping\<close>

definition read_pop :: "('tok, 's) qworld \<Rightarrow> rat \<Rightarrow> ('tok, 's) qstate \<Rightarrow> (bytes option \<times> 'tok option, ('tok, 's) qstate) outcome" where
  "read_pop W timeout st =
     (case on_world (qw_pop_with_ack W timeout) st of
        (Inl e, st1) \<Rightarrow> (Inl e, st1)
      | (Inr (data, token), st1) \<Rightarrow>
          (case token of
             None \<Rightarrow> (Inr (data, token), st1)
           | Some t \<Rightarrow>
               if qw_bound W t then (Inr (data, token), st1)
               else
                 (case on_world (qw_requires_ack W) st1 of
                    (Inl e, st2) \<Rightarrow> (Inl e, st2)
                  | (Inr True, st2) \<Rightarrow> (Inl QueueError, st2)
                  | (Inr False, st2) \<Rightarrow> (Inr (data, token), st2))))"

text \<open>A delivery without a payload: terminated, and returned to the broker when that fails.\<close>

definition settle_empty :: "('tok, 's) qworld \<Rightarrow> 'tok option \<Rightarrow> ('tok, 's) qstate \<Rightarrow> ('a option, ('tok, 's) qstate) outcome" where
  "settle_empty W token st =
     (case token of
        None \<Rightarrow> (Inr None, st)
      | Some t \<Rightarrow>
          (case on_world (qw_ack W token) st of
             (Inr _, st1) \<Rightarrow> (Inr None, st1)
           | (Inl e, st1) \<Rightarrow>
               if \<not> ordinary e then (Inl e, st1)
               else
                 (case on_world (qw_nack W token) st1 of
                    (Inl e', st2) \<Rightarrow> (Inl (if ordinary e' then e else e'), st2)
                  | (Inr _, st2) \<Rightarrow> (Inl e, st2))))"

text \<open>Another spider's delivery: given back to the broker, or published again where a pop has removed it.\<close>

definition return_foreign ::
  "('tok, 's) qworld \<Rightarrow> bytes \<Rightarrow> ('t, 'd) pydict \<Rightarrow> 'tok option \<Rightarrow> ('tok, 's) qstate \<Rightarrow> ('a option, ('tok, 's) qstate) outcome" where
  "return_foreign W data d token st =
     (case on_world
             (if token \<noteq> None then qw_nack W token
              else qw_push W data
                (case dget d (codes ''priority'') of None \<Rightarrow> Some 0 | Some (OInt n) \<Rightarrow> Some (of_int n) | Some _ \<Rightarrow> None)) st of
        (Inl e, st1) \<Rightarrow> (Inl (if ordinary e then QueueError else e), st1)
      | (Inr _, st1) \<Rightarrow> (Inr None, st1))"

text \<open>A malformed delivery would be malformed again: it is terminated.\<close>

definition drop_poison :: "('tok, 's) qworld \<Rightarrow> 'tok option \<Rightarrow> ('tok, 's) qstate \<Rightarrow> ('a option, ('tok, 's) qstate) outcome" where
  "drop_poison W token st =
     (if token = None then (Inl SerializationError, st)
      else
        (case on_world (qw_ack W token) st of
           (Inl e, st1) \<Rightarrow> (Inl (if ordinary e then SerializationError else e), st1)
         | (Inr _, st1) \<Rightarrow> (Inl SerializationError, st1)))"

definition attach_token :: "'tok option \<Rightarrow> ('o, 'tok, 't, 'd) request \<Rightarrow> ('o, 'tok, 't, 'd) request" where
  "attach_token token req = (if token = None then req else req\<lparr>rq_token := token\<rparr>)"

definition process_pop ::
  "('o, 'tok, 't, 'd) qconf \<Rightarrow> ('tok, 's) qworld \<Rightarrow> bytes option \<Rightarrow> 'tok option \<Rightarrow> ('tok, 's) qstate
    \<Rightarrow> (('o, 'tok, 't, 'd) request option, ('tok, 's) qstate) outcome" where
  "process_pop C W data token st =
     (case data of
        None \<Rightarrow> settle_empty W token st
      | Some bs \<Rightarrow>
          (case open_payload (qf_texts C) (qf_depth C) (qf_max_item_bytes C) bs of
             Inl e \<Rightarrow> if ordinary e then drop_poison W token st else (Inl e, st)
           | Inr d \<Rightarrow>
               if validate_envelope_identity (qf_envelope C) d = Inl EnvelopeIdentityMismatch then return_foreign W bs d token st
               else
                 (case build_request (qf_scrapy C) d of
                    Inl e \<Rightarrow> if ordinary e then drop_poison W token st else (Inl e, st)
                  | Inr req \<Rightarrow> (Inr (Some (attach_token token req)), st))))"

text \<open>The depth of the queue, sampled while it is known not to be empty.\<close>

definition probe_depth :: "('o, 'tok, 't, 'd) qconf \<Rightarrow> ('tok, 's) qworld \<Rightarrow> ('tok, 's) qstate \<Rightarrow> (nat, ('tok, 's) qstate) outcome" where
  "probe_depth C W st =
     (let n = Suc (qs_probe_counter st) in
      case qs_cached_depth st of
        Some (Suc d) \<Rightarrow>
          if n < qf_sample_every C then (Inr (Suc d), st\<lparr>qs_probe_counter := n\<rparr>)
          else (case on_world (qw_queue_len W) (st\<lparr>qs_probe_counter := 0\<rparr>) of
                  (Inl e, st1) \<Rightarrow> (Inl e, st1)
                | (Inr m, st1) \<Rightarrow> (Inr m, st1\<lparr>qs_cached_depth := Some m\<rparr>))
      | _ \<Rightarrow>
          (case on_world (qw_queue_len W) (st\<lparr>qs_probe_counter := 0\<rparr>) of
             (Inl e, st1) \<Rightarrow> (Inl e, st1)
           | (Inr m, st1) \<Rightarrow> (Inr m, st1\<lparr>qs_cached_depth := Some m\<rparr>)))"

text \<open>After the lease: a confirmed pop lowers the cached depth, and the depth is sampled; a failed sample changes no result.\<close>

definition finish_pop_result ::
  "('o, 'tok, 't, 'd) qconf \<Rightarrow> ('tok, 's) qworld \<Rightarrow> 'a option result \<Rightarrow> ('tok, 's) qstate \<Rightarrow> ('a option, ('tok, 's) qstate) outcome" where
  "finish_pop_result C W r st =
     (let st1 = (case (r, qs_cached_depth st) of
                   (Inr (Some _), Some d) \<Rightarrow> st\<lparr>qs_cached_depth := Some (d - 1)\<rparr>
                 | _ \<Rightarrow> st)
      in case probe_depth C W st1 of
        (Inl e, st2) \<Rightarrow> (case r of Inl _ \<Rightarrow> r | Inr _ \<Rightarrow> if ordinary e then r else Inl e, st2)
      | (Inr _, st2) \<Rightarrow> (r, st2))"

definition queue_pop ::
  "('o, 'tok, 't, 'd) qconf \<Rightarrow> ('tok, 's) qworld \<Rightarrow> nat \<Rightarrow> pyval \<Rightarrow> ('tok, 's) qstate
    \<Rightarrow> (('o, 'tok, 't, 'd) request option, ('tok, 's) qstate) outcome" where
  "queue_pop C W thread timeout st =
     (case begin_operation thread (qs_gate st) of
        (Inl e, g) \<Rightarrow> (Inl e, st\<lparr>qs_gate := g\<rparr>)
      | (Inr _, g) \<Rightarrow>
          (let st0 = st\<lparr>qs_gate := g\<rparr> in
           case normalize_queue_timeout timeout of
             Inl _ \<Rightarrow> (Inl QueueError, end_lease thread st0)
           | Inr x \<Rightarrow>
               (case read_pop W x st0 of
                  (Inl e, st1) \<Rightarrow> finish_pop_result C W (Inl e) (end_lease thread st1)
                | (Inr (data, token), st1) \<Rightarrow>
                    (case process_pop C W data token st1 of
                       (r, st2) \<Rightarrow> finish_pop_result C W r (end_lease thread st2)))))"

section \<open>Settling, length and clearing\<close>

definition leased ::
  "nat \<Rightarrow> (('tok, 's) qstate \<Rightarrow> ('a, ('tok, 's) qstate) outcome) \<Rightarrow> ('tok, 's) qstate \<Rightarrow> ('a, ('tok, 's) qstate) outcome" where
  "leased thread f st =
     (case begin_operation thread (qs_gate st) of
        (Inl e, g) \<Rightarrow> (Inl e, st\<lparr>qs_gate := g\<rparr>)
      | (Inr _, g) \<Rightarrow> (case f (st\<lparr>qs_gate := g\<rparr>) of (r, st1) \<Rightarrow> (r, end_lease thread st1)))"

definition queue_ack :: "('tok, 's) qworld \<Rightarrow> nat \<Rightarrow> 'tok option \<Rightarrow> ('tok, 's) qstate \<Rightarrow> (unit, ('tok, 's) qstate) outcome" where
  "queue_ack W thread token = leased thread (on_world (qw_ack W token))"

definition queue_nack :: "('tok, 's) qworld \<Rightarrow> nat \<Rightarrow> 'tok option \<Rightarrow> ('tok, 's) qstate \<Rightarrow> (unit, ('tok, 's) qstate) outcome" where
  "queue_nack W thread token = leased thread (on_world (qw_nack W token))"

definition queue_length :: "('o, 'tok, 't, 'd) qconf \<Rightarrow> ('tok, 's) qworld \<Rightarrow> nat \<Rightarrow> ('tok, 's) qstate \<Rightarrow> (nat, ('tok, 's) qstate) outcome" where
  "queue_length C W thread = leased thread (probe_depth C W)"

definition queue_clear :: "('tok, 's) qworld \<Rightarrow> nat \<Rightarrow> ('tok, 's) qstate \<Rightarrow> (unit, ('tok, 's) qstate) outcome" where
  "queue_clear W thread =
     leased thread (\<lambda>st.
       case on_world (qw_clear W) st of
         (Inl e, st1) \<Rightarrow> (Inl e, st1)
       | (Inr u, st1) \<Rightarrow> (Inr u, st1\<lparr>qs_cached_depth := None, qs_probe_counter := 0\<rparr>))"

section \<open>What the broker sees\<close>

text \<open>
  The calls that change the broker, in order; the flag tells whether a call returned. A commit that
  returned has its durability receipt.
\<close>

datatype 'tok event = Commit bytes "bool option" | Ack "'tok option" bool | Nack "'tok option" bool | Publish bytes bool

definition noting :: "('a result \<Rightarrow> 'e) \<Rightarrow> ('s \<Rightarrow> ('a, 's) outcome) \<Rightarrow> 's \<times> 'e list \<Rightarrow> ('a, 's \<times> 'e list) outcome" where
  "noting ev f w = (case f (fst w) of (r, s) \<Rightarrow> (r, s, snd w @ [ev r]))"

definition silently :: "('s \<Rightarrow> ('a, 's) outcome) \<Rightarrow> 's \<times> 'e list \<Rightarrow> ('a, 's \<times> 'e list) outcome" where
  "silently f w = (case f (fst w) of (r, s) \<Rightarrow> (r, s, snd w))"

definition returned :: "'a result \<Rightarrow> bool" where
  "returned r \<longleftrightarrow> (case r of Inl _ \<Rightarrow> False | Inr _ \<Rightarrow> True)"

definition logged :: "('tok, 's) qworld \<Rightarrow> ('tok, 's \<times> 'tok event list) qworld" where
  "logged W =
     \<lparr>qw_prepare = (\<lambda>p d c. silently (qw_prepare W p d c)),
      qw_commit = (\<lambda>p d c data req. noting (\<lambda>r. Commit data (case r of Inl _ \<Rightarrow> None | Inr b \<Rightarrow> Some b)) (qw_commit W p d c data req)),
      qw_push = (\<lambda>data p. noting (\<lambda>r. Publish data (returned r)) (qw_push W data p)),
      qw_pop_with_ack = (\<lambda>t. silently (qw_pop_with_ack W t)),
      qw_ack = (\<lambda>t. noting (\<lambda>r. Ack t (returned r)) (qw_ack W t)),
      qw_nack = (\<lambda>t. noting (\<lambda>r. Nack t (returned r)) (qw_nack W t)),
      qw_requires_ack = silently (qw_requires_ack W), qw_bound = qw_bound W, qw_reactor_safe = qw_reactor_safe W,
      qw_queue_len = silently (qw_queue_len W), qw_clear = silently (qw_clear W)\<rparr>"

definition broker_log :: "('tok, 's \<times> 'tok event list) qstate \<Rightarrow> 'tok event list" where
  "broker_log st = snd (qs_world st)"

text \<open>The bytes a push may hand to the strategy: \<open>None\<close> when the request can never be pushed as it is.\<close>

definition pushable :: "('o, 'tok, 't, 'd) qconf \<Rightarrow> pyval \<Rightarrow> ('o, 'tok, 't, 'd) request \<Rightarrow> bytes option" where
  "pushable C priority req =
     (case (push_routing C req priority, push_payload C req) of
        (Inr _, Inr data) \<Rightarrow> if length data \<le> qf_max_item_bytes C then Some data else None
      | _ \<Rightarrow> None)"

text \<open>
  The outcomes of pushing a request that came from a delivery: refused for good, not committed, committed with the delivery
  settled at once, committed with the settlement handed to a worker.
\<close>

inductive push_outcome ::
  "('o, 'tok, 't, 'd) qconf \<Rightarrow> pyval \<Rightarrow> ('o, 'tok, 't, 'd) request \<Rightarrow> 'tok \<Rightarrow> 'tok list \<Rightarrow> bool result \<Rightarrow> ('o, 'tok, 't, 'd) request
    \<Rightarrow> ('tok, 's \<times> 'tok event list) qstate \<Rightarrow> 'tok event list \<Rightarrow> bool"
  for C priority req t workers where
  refused: "pushable C priority req = None \<Longrightarrow> qs_workers st' = workers \<Longrightarrow> rq_token req' = (if ok then None else Some t)
    \<Longrightarrow> push_outcome C priority req t workers (Inl e) req' st' [Ack (Some t) ok]"
| unsent: "qs_workers st' = workers \<Longrightarrow> rq_token req' = Some t \<Longrightarrow> push_outcome C priority req t workers (Inl e) req' st' []"
| unproven: "pushable C priority req = Some data \<Longrightarrow> receipt \<noteq> Some True \<Longrightarrow> qs_workers st' = workers \<Longrightarrow> rq_token req' = Some t
    \<Longrightarrow> push_outcome C priority req t workers (Inl e) req' st' [Commit data receipt]"
| settled: "pushable C priority req = Some data \<Longrightarrow> qs_workers st' = workers \<Longrightarrow> rq_token req' = (if ok then None else Some t)
    \<Longrightarrow> r = Inr True \<or> \<not> ok \<and> r = Inl ProcessSignal
    \<Longrightarrow> push_outcome C priority req t workers r req' st' [Commit data (Some True), Ack (Some t) ok]"
| handed_over: "pushable C priority req = Some data \<Longrightarrow> qs_workers st' = workers @ [t] \<Longrightarrow> rq_token req' = Some t
    \<Longrightarrow> \<not> close_drained (qs_gate st') \<Longrightarrow> push_outcome C priority req t workers (Inr True) req' st' [Commit data (Some True)]"

lemma on_world_logged:
  "on_world (noting ev f) st = (case f (fst (qs_world st)) of (r, s) \<Rightarrow> (r, st\<lparr>qs_world := (s, broker_log st @ [ev r])\<rparr>))"
  "on_world (silently f) st = (case f (fst (qs_world st)) of (r, s) \<Rightarrow> (r, st\<lparr>qs_world := (s, broker_log st)\<rparr>))"
  by (simp_all add: on_world_def noting_def silently_def broker_log_def split: prod.splits)

lemma logged_simps [simp]:
  "qw_prepare (logged W) p d c = silently (qw_prepare W p d c)"
  "qw_commit (logged W) p d c data b = noting (\<lambda>r. Commit data (case r of Inl _ \<Rightarrow> None | Inr b \<Rightarrow> Some b)) (qw_commit W p d c data b)"
  "qw_push (logged W) data pr = noting (\<lambda>r. Publish data (returned r)) (qw_push W data pr)"
  "qw_ack (logged W) t = noting (\<lambda>r. Ack t (returned r)) (qw_ack W t)"
  "qw_nack (logged W) t = noting (\<lambda>r. Nack t (returned r)) (qw_nack W t)"
  "qw_reactor_safe (logged W) = qw_reactor_safe W"
  by (simp_all add: logged_def)

lemma broker_log_simps [simp]: "broker_log (st\<lparr>qs_world := w\<rparr>) = snd w" "broker_log (st\<lparr>qs_gate := g\<rparr>) = broker_log st"
  by (simp_all add: broker_log_def)

lemma returned_simps [simp]: "returned (Inl e) = False" "returned (Inr x) = True"
  by (simp_all add: returned_def)

lemma reject_push_outcome:
  assumes "reject_push (logged W) e req st = (r, req', st')" "broker_log st = []" "rq_token req = Some t"
    and "pushable C priority req = None"
  shows "push_outcome C priority req t (qs_workers st) r req' st' (broker_log st')"
proof -
  obtain a s where a: "qw_ack W (Some t) (fst (qs_world st)) = (a, s)" by fastforce
  have "qs_workers st' = qs_workers st \<and> rq_token req' = (if returned a then None else Some t)
      \<and> broker_log st' = [Ack (Some t) (returned a)] \<and> (\<exists>e'. r = Inl e')"
    using assms(1-3) a by (cases a) (auto simp: reject_push_def terminate_invalid_replacement_def on_world_logged split: if_splits)
  then show ?thesis using push_outcome.refused [OF assms(4)] by metis
qed

lemma settle_replacement_outcome:
  assumes "settle_replacement C (logged W) t req1 st = (r, req', st')" "rq_token req1 = Some t"
    and "broker_log st = [Commit data (Some True)]" "pushable C priority req = Some data"
  shows "push_outcome C priority req t (qs_workers st) r req' st' (broker_log st')"
proof (cases "qf_reactor C \<and> \<not> qw_reactor_safe W t")
  case True
  then have st': "r = Inr True" "req' = req1" "st' = schedule_replacement_ack t st" using assms(1) by (simp_all add: settle_replacement_def)
  have "broker_log st' = [Commit data (Some True)]" using assms(3) st' by (simp add: schedule_replacement_ack_def broker_log_def)
  moreover have "qs_workers st' = qs_workers st @ [t]" "\<not> close_drained (qs_gate st')"
    using st' by (simp_all add: schedule_replacement_ack_def close_drained_def track_replacement_settlement_def)
  ultimately show ?thesis using push_outcome.handed_over [OF assms(4)] assms(2) st' by metis
next
  case False
  obtain a s where a: "qw_ack W (Some t) (fst (qs_world st)) = (a, s)" by fastforce
  have "qs_workers st' = qs_workers st \<and> rq_token req' = (if returned a then None else Some t)
      \<and> broker_log st' = [Commit data (Some True), Ack (Some t) (returned a)] \<and> (r = Inr True \<or> \<not> returned a \<and> r = Inl ProcessSignal)"
    using assms(1-3) a False by (cases a) (auto simp: settle_replacement_def on_world_logged ordinary_def split: if_splits)
  then show ?thesis using push_outcome.settled [OF assms(4)] by metis
qed

lemma commit_push_outcome:
  assumes "commit_push C (logged W) route data req st = (r, req', st')" "rq_token req = Some t"
    and "broker_log st = []" "pushable C priority req = Some data"
  shows "push_outcome C priority req t (qs_workers st) r req' st' (broker_log st')"
proof -
  obtain p d c where route: "route = (p, d, c)" by (metis prod_cases3)
  obtain b s where b: "qw_commit W p d c data True (fst (qs_world st)) = (b, s)" by fastforce
  let ?st1 = "st\<lparr>qs_world := (s, [Commit data (case b of Inl _ \<Rightarrow> None | Inr b \<Rightarrow> Some b)])\<rparr>"
  have run: "on_world (qw_commit (logged W) p d c data (rq_token req \<noteq> None)) st = (b, ?st1)"
    using assms(2,3) b by (simp add: on_world_logged)
  show ?thesis
  proof (cases "b = Inr True")
    case True
    then have "settle_replacement C (logged W) t (consume_routing req) ?st1 = (r, req', st')"
      using assms(1,2) route run by (simp add: commit_push_def)
    from settle_replacement_outcome [OF this _ _ assms(4)] show ?thesis using True assms(2) by (simp add: consume_routing_def)
  next
    case False
    then have "qs_workers st' = qs_workers st \<and> rq_token req' = Some t \<and> (\<exists>e'. r = Inl e')
        \<and> broker_log st' = [Commit data (case b of Inl _ \<Rightarrow> None | Inr b \<Rightarrow> Some b)]"
      using assms(1,2) route run by (cases b) (auto simp: commit_push_def)
    moreover have "(case b of Inl _ \<Rightarrow> None | Inr b \<Rightarrow> Some b) \<noteq> Some True" using False by (cases b) auto
    ultimately show ?thesis using push_outcome.unproven [OF assms(4)] by metis
  qed
qed

text \<open>
  C14. A source delivery is settled only when it is safe: pushing a request that came from a broker delivery
  has one of four outcomes. It is refused for good, which depends on the request alone, and then the delivery
  is terminated without any commit; or nothing, or nothing proven durable, was committed, and the push raises and leaves the delivery
  alone; or the request's bytes were committed with a durability receipt, and only then the delivery is
  acknowledged, once; or that acknowledgement was handed to a worker and the queue cannot be closed before it ended. The request keeps its token exactly as long as
  the delivery is not settled.
\<close>

theorem push_settles_after_commit:
  assumes "push_admitted C (logged W) priority req st = (r, req', st')" "broker_log st = []" "rq_token req = Some t"
  shows "push_outcome C priority req t (qs_workers st) r req' st' (broker_log st')"
proof (cases "push_routing C req priority")
  case (Inl e)
  show ?thesis
  proof (cases "ordinary e")
    case True
    then have "reject_push (logged W) e req st = (r, req', st')" using Inl assms(1) by (simp add: push_admitted_def)
    from reject_push_outcome [OF this assms(2,3)] show ?thesis using Inl by (simp add: pushable_def)
  next
    case False
    then show ?thesis using Inl assms push_outcome.unsent [of st _ req] by (auto simp: push_admitted_def)
  qed
next
  case (Inr route)
  then obtain p d c where route: "route = (p, d, c)" by (metis prod_cases3)
  obtain b s where b: "qw_prepare W p d c (fst (qs_world st)) = (b, s)" by fastforce
  let ?st1 = "st\<lparr>qs_world := (s, [])\<rparr>"
  have run: "on_world (qw_prepare (logged W) p d c) st = (b, ?st1)" using assms(2) b by (simp add: on_world_logged)
  show ?thesis
  proof (cases "b = Inr True")
    case False
    then have "st' = ?st1 \<and> req' = req \<and> (\<exists>e'. r = Inl e')"
      using assms(1,3) Inr route run by (cases b) (auto simp: push_admitted_def)
    then show ?thesis using push_outcome.unsent [of st' _ req'] assms(3) by auto
  next
    case True
    show ?thesis
    proof (cases "push_payload C req")
      case (Inl e)
      show ?thesis
      proof (cases "ordinary e")
        case o: True
        then have "reject_push (logged W) SerializationError req ?st1 = (r, req', st')"
          using True assms(1) Inr Inl route run by (simp add: push_admitted_def)
        from reject_push_outcome [OF this _ assms(3)] show ?thesis using Inl Inr by (simp add: pushable_def)
      next
        case False
        then show ?thesis using Inl Inr True route run assms push_outcome.unsent [of ?st1 _ req] by (auto simp: push_admitted_def)
      qed
    next
      case payload: (Inr data)
      show ?thesis
      proof (cases "length data \<le> qf_max_item_bytes C")
        case False
        then have "reject_push (logged W) SerializationError req ?st1 = (r, req', st')"
          using True assms(1) Inr route run payload by (simp add: push_admitted_def)
        from reject_push_outcome [OF this _ assms(3)] show ?thesis using False Inr payload by (simp add: pushable_def)
      next
        case fits: True
        then have "commit_push C (logged W) (p, d, c) data req ?st1 = (r, req', st')"
          using True assms(1) Inr route run payload by (simp add: push_admitted_def)
        from commit_push_outcome [OF this assms(3)] show ?thesis using fits Inr payload by (simp add: pushable_def)
      qed
    qed
  qed
qed

text \<open>What a delivery is, which depends on its bytes alone.\<close>

datatype 'r verdict = Good 'r | Foreign | Malformed | Blank

definition judge :: "('o, 'tok, 't, 'd) qconf \<Rightarrow> bytes option \<Rightarrow> ('o, 'tok, 't, 'd) request verdict" where
  "judge C data =
     (case data of
        None \<Rightarrow> Blank
      | Some bs \<Rightarrow>
          (case open_payload (qf_texts C) (qf_depth C) (qf_max_item_bytes C) bs of
             Inl _ \<Rightarrow> Malformed
           | Inr d \<Rightarrow>
               if validate_envelope_identity (qf_envelope C) d = Inl EnvelopeIdentityMismatch then Foreign
               else (case build_request (qf_scrapy C) d of Inl _ \<Rightarrow> Malformed | Inr req \<Rightarrow> Good req)))"

inductive pop_outcome ::
  "('o, 'tok, 't, 'd) qconf \<Rightarrow> bytes option \<Rightarrow> 'tok option \<Rightarrow> ('o, 'tok, 't, 'd) request option result \<Rightarrow> 'tok event list \<Rightarrow> bool"
  for C data token where
  delivered: "judge C data = Good req \<Longrightarrow> pop_outcome C data token (Inr (Some (attach_token token req))) []"
| nothing: "judge C data = Blank \<Longrightarrow> token = None \<Longrightarrow> pop_outcome C data token (Inr None) []"
| dropped: "judge C data = Blank \<Longrightarrow> token \<noteq> None \<Longrightarrow> pop_outcome C data token (Inr None) [Ack token True]"
| given_back: "judge C data = Blank \<Longrightarrow> token \<noteq> None \<Longrightarrow> pop_outcome C data token (Inl e) [Ack token False, Nack token ok]"
| returned: "judge C data = Foreign \<Longrightarrow> token \<noteq> None \<Longrightarrow> (if ok then r = Inr None else \<exists>e. r = Inl e) \<Longrightarrow> pop_outcome C data token r [Nack token ok]"
| republished: "judge C data = Foreign \<Longrightarrow> token = None \<Longrightarrow> data = Some bs \<Longrightarrow> (if ok then r = Inr None else \<exists>e. r = Inl e)
    \<Longrightarrow> pop_outcome C data token r [Publish bs ok]"
| poison: "judge C data = Malformed \<Longrightarrow> token \<noteq> None \<Longrightarrow> pop_outcome C data token (Inl e) [Ack token ok]"
| poison_gone: "judge C data = Malformed \<Longrightarrow> token = None \<Longrightarrow> pop_outcome C data token (Inl SerializationError) []"
| interrupted: "judge C data = Malformed \<Longrightarrow> pop_outcome C data token (Inl ProcessSignal) []"
| drop_interrupted: "judge C data = Blank \<Longrightarrow> token \<noteq> None \<Longrightarrow> pop_outcome C data token (Inl ProcessSignal) [Ack token False]"

lemma settle_empty_outcome:
  assumes "settle_empty (logged W) token st = (r, st')" "broker_log st = []" "judge C data = Blank"
  shows "pop_outcome C data token r (broker_log st')"
proof (cases "token")
  case None
  then show ?thesis using assms pop_outcome.nothing by (auto simp: settle_empty_def)
next
  case (Some t)
  obtain a s where a: "qw_ack W token (fst (qs_world st)) = (a, s)" by fastforce
  obtain b s' where b: "qw_nack W token s = (b, s')" by fastforce
  consider "a = Inr ()" | "a = Inl ProcessSignal" | e where "a = Inl e" "ordinary e" by (cases a) (auto simp: ordinary_def)
  then show ?thesis
  proof cases
    case 1
    then show ?thesis using assms a Some pop_outcome.dropped [of C data token] by (auto simp: settle_empty_def on_world_logged)
  next
    case 2
    then show ?thesis using assms a Some pop_outcome.drop_interrupted [of C data token] by (auto simp: settle_empty_def on_world_logged ordinary_def)
  next
    case 3
    then have "\<exists>e' ok. r = Inl e' \<and> broker_log st' = [Ack token False, Nack token ok]"
      using assms a b Some by (cases b) (auto simp: settle_empty_def on_world_logged)
    then show ?thesis using assms(3) Some pop_outcome.given_back [of C data token] by auto
  qed
qed

lemma return_foreign_log:
  assumes "return_foreign (logged W) bs d token st = (r, st')" "broker_log st = []"
  shows "\<exists>ok. broker_log st' = [if token = None then Publish bs ok else Nack token ok] \<and> (if ok then r = Inr None else \<exists>e. r = Inl e)"
proof (cases "token = None")
  case True
  define p :: "rat option" where "p = (case dget d (codes ''priority'') of None \<Rightarrow> Some 0 | Some (OInt n) \<Rightarrow> Some (of_int n) | Some _ \<Rightarrow> None)"
  obtain a s where a: "qw_push W bs p (fst (qs_world st)) = (a, s)" by fastforce
  have "(r, st') =
      (case on_world (qw_push (logged W) bs p) st of
         (Inl e, st1) \<Rightarrow> (Inl (if ordinary e then QueueError else e), st1) | (Inr _, st1) \<Rightarrow> (Inr None, st1))"
    unfolding assms(1) [symmetric] return_foreign_def p_def using True by simp
  moreover have "on_world (qw_push (logged W) bs p) st = (a, st\<lparr>qs_world := (s, [Publish bs (returned a)])\<rparr>)"
    using a assms(2) by (simp add: on_world_logged)
  ultimately have "\<exists>ok. broker_log st' = [Publish bs ok] \<and> (if ok then r = Inr None else \<exists>e. r = Inl e)"
    by (cases a) auto
  then show ?thesis using True by simp
next
  case False
  obtain a s where a: "qw_nack W token (fst (qs_world st)) = (a, s)" by fastforce
  have "(r, st') =
      (case on_world (qw_nack (logged W) token) st of
         (Inl e, st1) \<Rightarrow> (Inl (if ordinary e then QueueError else e), st1) | (Inr _, st1) \<Rightarrow> (Inr None, st1))"
    unfolding assms(1) [symmetric] return_foreign_def using False by simp
  moreover have "on_world (qw_nack (logged W) token) st = (a, st\<lparr>qs_world := (s, [Nack token (returned a)])\<rparr>)"
    using a assms(2) by (simp add: on_world_logged)
  ultimately have "\<exists>ok. broker_log st' = [Nack token ok] \<and> (if ok then r = Inr None else \<exists>e. r = Inl e)"
    by (cases a) auto
  then obtain ok where "broker_log st' = [Nack token ok] \<and> (if ok then r = Inr None else \<exists>e. r = Inl e)" by blast
  then show ?thesis using False by (intro exI [of _ ok]) simp
qed

lemma return_foreign_outcome:
  assumes "return_foreign (logged W) bs d token st = (r, st')" "broker_log st = []" "judge C (Some bs) = Foreign"
  shows "pop_outcome C (Some bs) token r (broker_log st')"
  using return_foreign_log [OF assms(1,2)] pop_outcome.republished [OF assms(3) _ refl] pop_outcome.returned [OF assms(3)] by metis

lemma drop_poison_outcome:
  assumes "drop_poison (logged W) token st = (r, st')" "broker_log st = []" "judge C data = Malformed"
  shows "pop_outcome C data token r (broker_log st')"
proof (cases "token = None")
  case True
  then show ?thesis using assms pop_outcome.poison_gone by (auto simp: drop_poison_def)
next
  case False
  obtain a s where a: "qw_ack W token (fst (qs_world st)) = (a, s)" by fastforce
  have "\<exists>ok e. broker_log st' = [Ack token ok] \<and> r = Inl e"
    using assms a False by (cases a) (auto simp: drop_poison_def on_world_logged)
  then show ?thesis using pop_outcome.poison [OF assms(3) False] by metis
qed

text \<open>
  C18. Every delivery is settled as its bytes deserve: a readable request is handed out with its token and the broker is not told
  anything; a delivery without payload is terminated, and given back when that fails; another spider's delivery is given back,
  or its bytes are published again, and never acknowledged; a malformed one is terminated and the
  error raised, so that it does not come again. Only an interruption of the process can leave one unsettled.
\<close>

theorem pop_settles_delivery:
  assumes "process_pop C (logged W) data token st = (r, st')" "broker_log st = []"
  shows "pop_outcome C data token r (broker_log st')"
proof (cases data)
  case None
  then show ?thesis using assms settle_empty_outcome [of W token st r st' C data] by (simp add: process_pop_def judge_def)
next
  case (Some bs)
  have bad: "pop_outcome C data token r (broker_log st')"
    if "(if ordinary e then drop_poison (logged W) token st else (Inl e, st)) = (r, st')" "judge C data = Malformed" for e
    using that pop_outcome.interrupted [of C data token] drop_poison_outcome [of W token st r st' C data] assms(2) by (auto simp: ordinary_def split: if_splits)
  show ?thesis
  proof (cases "open_payload (qf_texts C) (qf_depth C) (qf_max_item_bytes C) bs")
    case (Inl e)
    then show ?thesis using bad [of e] assms(1) Some by (simp add: process_pop_def judge_def)
  next
    case d: (Inr d)
    show ?thesis
    proof (cases "validate_envelope_identity (qf_envelope C) d = Inl EnvelopeIdentityMismatch")
      case True
      then show ?thesis using return_foreign_outcome [of W bs d token st r st' C] assms Some d by (simp add: process_pop_def judge_def)
    next
      case False
      then show ?thesis
      proof (cases "build_request (qf_scrapy C) d")
        case (Inl e)
        then show ?thesis using bad [of e] assms(1) Some d False by (simp add: process_pop_def judge_def)
      next
        case (Inr req)
        then show ?thesis using pop_outcome.delivered [of C data req token] assms Some d False by (auto simp: process_pop_def judge_def)
      qed
    qed
  qed
qed

text \<open>
  C39. A queue shared by several spiders delivers each request to its own: the bytes one spider's queue wrote, popped by the
  queue of another spider or project, never become a request there; they are given back to the broker, or published again
  unchanged where the pop has removed them, and never acknowledged; an error of giving them back is raised.
\<close>

theorem foreign_delivery_returned:
  assumes "texts_ok P" "sc_to_dict S req = Inr d0" "scrapy_dict_ok S d0" "request_to_dict E S req = Inr d"
    "serialize P (ODict d) = Inr bs" "obj_ok (ODict d)" "readable P (qf_depth C) (ODict d)" "length bs \<le> qf_max_item_bytes C"
    and "qf_texts C = P" "en_spider E = Some writer" "writer \<noteq> []" "en_spider (qf_envelope C) = Some reader" "\<not> en_cross (qf_envelope C)"
    and "(writer, en_project E) \<noteq> (reader, en_project (qf_envelope C))"
    and "process_pop C (logged W) (Some bs) token st = (r, st')" "broker_log st = []"
  shows "\<exists>ok. broker_log st' = [if token = None then Publish bs ok else Nack token ok] \<and> (if ok then r = Inr None else \<exists>e. r = Inl e)"
proof -
  obtain d' where d': "open_payload P (qf_depth C) (qf_max_item_bytes C) bs = Inr d'" "\<And>f. dget d' f = map_option wire_value (dget d f)"
    using open_sent_payload [OF assms(1-8)] by blast
  have "validate_envelope_identity (qf_envelope C) d' = Inl EnvelopeIdentityMismatch"
    using identity_of_sent [OF assms(2-4) d'(2), of "qf_envelope C"] assms(10-14) by auto
  then have "return_foreign (logged W) bs d' token st = (r, st')" using assms(9,15) d'(1) by (simp add: process_pop_def)
  from return_foreign_log [OF this assms(16)] show ?thesis .
qed

text \<open>
  A broker for the witnesses, which accepts everything, and a reader of another project.
\<close>

definition demo_broker :: "(nat, unit) qworld" where
  "demo_broker =
     \<lparr>qw_prepare = (\<lambda>p d c s. (Inr True, s)), qw_commit = (\<lambda>p d c data b s. (Inr True, s)), qw_push = (\<lambda>data p s. (Inr (), s)),
      qw_pop_with_ack = (\<lambda>t s. (Inr (None, None), s)), qw_ack = (\<lambda>t s. (Inr (), s)), qw_nack = (\<lambda>t s. (Inr (), s)),
      qw_requires_ack = (\<lambda>s. (Inr True, s)), qw_bound = (\<lambda>t. True), qw_reactor_safe = (\<lambda>t. False),
      qw_queue_len = (\<lambda>s. (Inr 0, s)), qw_clear = (\<lambda>s. (Inr (), s))\<rparr>"

definition demo_conf :: "codes \<Rightarrow> nat \<Rightarrow> (demo_object, nat, nat, nat) qconf" where
  "demo_conf project limit =
     \<lparr>qf_envelope = demo_envelope\<lparr>en_project := project\<rparr>, qf_scrapy = demo_scrapy, qf_texts = demo_texts, qf_source = (\<lambda>v. Inr []),
      qf_max_item_bytes = limit, qf_depth = 10, qf_sample_every = 1, qf_reactor = False\<rparr>"

definition demo_state :: "(nat, unit \<times> nat event list) qstate" where
  "demo_state = \<lparr>qs_gate = bq_init, qs_world = ((), []), qs_workers = [], qs_cached_depth = None, qs_probe_counter = 0\<rparr>"

lemma demo_simps [simp]:
  "qw_prepare demo_broker p d c u = (Inr True, u)" "qw_commit demo_broker p d c data b u = (Inr True, u)"
  "qw_ack demo_broker t u = (Inr (), u)" "qf_max_item_bytes (demo_conf project n) = n" "qf_reactor (demo_conf project n) = False"
  "qs_world demo_state = ((), [])" "broker_log demo_state = []" "qs_workers demo_state = []"
  by (simp_all add: demo_broker_def demo_conf_def demo_state_def broker_log_def)

lemma demo_payload: "serialize demo_texts (ODict demo_dict) = Inr data \<Longrightarrow> push_payload (demo_conf (codes ''p'') n) demo_request = Inr data"
  using demo_to_dict by (simp add: push_payload_def demo_conf_def demo_envelope_def)

theorem push_settles_after_commit_witness:
  "\<exists>data r req' st'. push_admitted (demo_conf (codes ''p'') (length data)) (logged demo_broker) (PyInt 0) demo_request demo_state = (r, req', st')
     \<and> push_outcome (demo_conf (codes ''p'') (length data)) (PyInt 0) demo_request 7 [] r req' st' (broker_log st')
     \<and> broker_log st' = [Commit data (Some True), Ack (Some 7) True] \<and> rq_token req' = None"
proof -
  obtain data where data: "serialize demo_texts (ODict demo_dict) = Inr data" by (rule demo_serialize)
  let ?C = "demo_conf (codes ''p'') (length data)"
  have f: "float_of_int 5 = Inr 5" "float_of_int 0 = Inr 0" by simp_all
  have "push_routing ?C demo_request (PyInt 0) = Inr (0, 5, codes ''default'')"
    by (simp add: push_routing_def push_delay_def push_priority_def push_source_def demo_request_def f)
  moreover have t: "rq_token demo_request = Some 7" by (simp add: demo_request_def)
  ultimately have "push_admitted ?C (logged demo_broker) (PyInt 0) demo_request demo_state
      = (Inr True, (consume_routing demo_request)\<lparr>rq_token := None\<rparr>,
         demo_state\<lparr>qs_world := ((), [Commit data (Some True), Ack (Some 7) True])\<rparr>)"
    using demo_payload [OF data, of "length data"]
    by (simp add: push_admitted_def on_world_logged commit_push_def settle_replacement_def)
  then obtain req' st' where run: "push_admitted ?C (logged demo_broker) (PyInt 0) demo_request demo_state = (Inr True, req', st')"
    "broker_log st' = [Commit data (Some True), Ack (Some 7) True]" "rq_token req' = None"
    by fastforce
  have "push_outcome ?C (PyInt 0) demo_request 7 (qs_workers demo_state) (Inr True) req' st' (broker_log st')"
    by (rule push_settles_after_commit [OF run(1)]) (simp_all add: t)
  then show ?thesis using run by fastforce
qed

theorem pop_settles_delivery_witness:
  "pop_outcome (demo_conf (codes ''p'') 0) (Some [65]) (Some 7) (Inl SerializationError :: (demo_object, nat, nat, nat) request option result)
     [Ack (Some 7) True]"
proof -
  have run: "process_pop (demo_conf (codes ''p'') 0) (logged demo_broker) (Some [65]) (Some 7) demo_state
      = (Inl SerializationError, demo_state\<lparr>qs_world := ((), [Ack (Some 7) True])\<rparr>)"
    by (simp add: process_pop_def open_payload_def drop_poison_def on_world_logged ordinary_def)
  from pop_settles_delivery [OF run] show ?thesis by (simp add: demo_state_def broker_log_def)
qed

theorem foreign_delivery_returned_witness:
  "\<exists>data r st'. process_pop (demo_conf (codes ''q'') (length data)) (logged demo_broker) (Some data) (Some 7) demo_state = (r, st')
     \<and> (\<exists>ok. broker_log st' = [Nack (Some 7) ok])"
proof -
  obtain data where data: "serialize demo_texts (ODict demo_dict) = Inr data" "readable demo_texts 10 (ODict demo_dict)"
    by (rule demo_serialize)
  obtain r st' where run: "process_pop (demo_conf (codes ''q'') (length data)) (logged demo_broker) (Some data) (Some 7) demo_state = (r, st')"
    by fastforce
  have "\<exists>ok. broker_log st' = [if (Some 7 :: nat option) = None then Publish data ok else Nack (Some 7) ok]
      \<and> (if ok then r = Inr None else \<exists>e. r = Inl e)"
    by (rule foreign_delivery_returned [where writer = "codes ''s''" and reader = "codes ''s''",
          OF texts_ok_demo demo_dict_ok(2,3) demo_to_dict data(1) demo_dict_ok(1) _ _ _ _ _ _ _ _ run])
       (simp_all add: data(2) demo_conf_def demo_envelope_def codes_simps)
  with run show ?thesis by auto
qed

end
