(* ===== verification/Spec2Isabelle.thy ===== *)
theory Spec2Isabelle
  imports Strategy_Factory Filter_Factory Circuit_Breaker Generation_Gate Support Json_Codec Snapshot_Safety Snapshot_Lease Dupe_Protocol Dupe_Ledger Dupe_Lifecycle Queue_Checkpoint Queue_Messages
begin

text \<open>
  \<^bold>\<open>A verification of the core of scrapy-extension.\<close> Paths below are relative to
  \<open>src/src/scrapy_extension/\<close>.

  \<^bold>\<open>The program.\<close> scrapy-extension replaces Scrapy's scheduler, duplicate filter and item pipeline
  by ones that keep their data in a shared backend (Redis, Kafka, SQS, and so on). A scheduler
  pushes each request it is given through a \<^emph>\<open>membership filter\<close>, which drops what was seen, and
  then through a \<^emph>\<open>queue strategy\<close>, which decides when and in which physical queue of the backend
  the request becomes visible; popped requests carry an \<^emph>\<open>acknowledgement token\<close> that is settled
  when their processing ends. A pipeline writes items through a \<^emph>\<open>storage strategy\<close>. Every call to
  a backend goes through a \<^emph>\<open>circuit breaker\<close> and holds a lease on the \<^emph>\<open>generation\<close> of its client.
  Strategies that hold items in the process write them into a snapshot at shutdown and read them
  back at the next start.

  \<^bold>\<open>Foundations.\<close>
  \<^item> \<open>Py_Float\<close>: Python's \<open>float\<close> as binary64 over exact rationals with round-half-even. Deadlines,
    delays, priorities, clock readings and backoff delays are such values.
  \<^item> \<open>Prelude\<close>: exceptions as values (\<open>exn\<close>, \<open>result\<close>, \<open>outcome\<close>), dynamically typed values (\<open>pyval\<close>),
    base64, list lemmas. A method that changes an object returns the changed object, also beside an
    exception.

  \<^bold>\<open>Queue strategies\<close> (\<open>queue/strategies/\<close>).
  \<^item> \<open>Queue_Base\<close>: validators of \<open>core/types.py\<close>, the \<open>QueueBackend\<close> interface of \<open>backends/base.py\<close> as a
    record of methods over the server's state, and of \<open>base.py\<close> the binding to one queue, prepared
    pushes and the ack token. \<open>token_step\<close> interleaves concurrent and re-entrant settlements: at
    most one succeeds, none overlap, a failed one can be retried.
  \<^item> \<open>Strategy_Spec\<close>: the contract \<open>bag_strategy\<close> of a strategy that holds its items in the process; the
    client lemmas (conservation of items over any sequence of calls, complete draining) are proved
    there once.
  \<^item> \<open>Ring_Buffer\<close> (\<open>ring_buffer.py\<close>) and \<open>Round_Robin\<close> (\<open>round_robin.py\<close>) interpret it. \<open>ring_step\<close>
    interleaves blocked pushers, consumers and lifecycle calls: capacity, first-in first-out,
    accounting of dropped items, no admission of a pusher of a closed lifecycle. Round robin serves
    the source at place \<open>i\<close> by the pop after \<open>i\<close> others whatever is pushed meanwhile.
  \<^item> \<open>Physical_Names\<close> (\<open>_names.py\<close>, \<open>backends/physical_naming.py\<close>): names of fan-out queues and topics;
    distinct identities have distinct names unless the digest, a parameter, collides on them.
  \<^item> \<open>Priority_Strategy\<close> (\<open>priority.py\<close>, \<open>passthrough.py\<close>) and \<open>Work_Stealing\<close> (\<open>work_stealing.py\<close>,
    \<open>throttle.py\<close>): strategies over physical queues of the backend. A pop takes from the highest
    non-empty level, or from the own queue and then the first non-empty peer after the cursor; the
    throttle spaces pops.
  \<^item> \<open>Held_Items\<close>: numeric validation, the heap of held tuples and the deadline loop that \<open>delay.py\<close> and
    \<open>time_wheel.py\<close> share. \<open>Delay_Queue\<close> and \<open>Time_Wheel\<close> model those two: a drain transfers exactly the
    due items in order, each once, and keeps the rest also when a push raises; pops return;
    durable commits never reach the process-local heap; snapshots restore with rebased deadlines.
  \<^item> \<open>Strategy_Factory\<close> (\<open>factory.py\<close>): what the setting selects is well-formed and empty.

  \<^bold>\<open>Membership filters\<close> (\<open>dupefilter/filters/\<close>).
  \<^item> \<open>Filter_Spec\<close>: the contract \<open>membership_filter\<close>; what was added is never denied again, over any
    sequence of calls that may raise.
  \<^item> \<open>Memory_Filter\<close> (\<open>memory_filter.py\<close>, \<open>set_filter.py\<close>), \<open>Bloom_Filter\<close> (\<open>bloom_filter.py\<close>) and
    \<open>Cuckoo_Filter\<close> (\<open>cuckoo_filter.py\<close>): LRU bound as a reference definition; distinct Bloom positions
    and least sizing; cuckoo insertion with its journal, which a full table leaves unchanged.
  \<^item> \<open>Filter_Factory\<close> (\<open>factory.py\<close>): the selection, with the strict mode, and the contract for what it
    returns.

  \<^bold>\<open>Backends and storage.\<close>
  \<^item> \<open>Circuit_Breaker\<close> (\<open>backends/circuit_breaker.py\<close>): the breaker object and its operations, \<open>cb_step\<close> for
    the interleavings of calls, a refinement of the abstract three-state breaker, the probe slot,
    and that a breaker never stays shut for more than two reset timeouts.
  \<^item> \<open>Generation_Gate\<close> (\<open>backends/_generation.py\<close>): leases and retirement; a client is closed once and
    only when idle.
  \<^item> \<open>Batched_Storage\<close> (\<open>storage/strategies/batched.py\<close>, \<open>passthrough.py\<close>): buffering, flush, close and the age flusher
    under every interleaving: nothing accepted is lost or reordered, what is unwritten is bounded.
  \<^item> \<open>Support\<close> (\<open>utils/_config.py\<close>, \<open>utils/identity.py\<close>, \<open>backends/_retry.py\<close>, \<open>backends/_close.py\<close>,
    \<open>storage/strategies/factory.py\<close>).

  \<^bold>\<open>Wire format and snapshots.\<close>
  \<^item> \<open>Py_Json\<close>: Python's \<open>json\<close> module, writing and reading with hooks, and the decoding of bytes to text; what was
    written is read back. \<open>Json_Codec\<close> (\<open>backends/_json_codec.py\<close>): tagged encoding of rich values; whatever is
    serialized comes back, even when a caller's keys are the codec's tags, and secrets are never written.
  \<^item> \<open>Snapshot_Store\<close> and \<open>Snapshot_Safety\<close> (\<open>queue/snapshot.py\<close>): the chunked repository with its manifest versions,
    commit, read and collection of unreachable chunks over a storage backend. An interrupted commit leaves the old or the new
    snapshot; maintenance changes none. \<open>Snapshot_Lease\<close>: the leases that keep readers and maintenance apart.

  \<^bold>\<open>Duplicate filter\<close> (\<open>dupefilter/dupefilter.py\<close>).
  \<^item> \<open>Dupe_Filter\<close>: reservations, commits and rollbacks, the ledger of markers and retry allowances of filters that cannot
    remove, quiescence, open, clear and release. \<open>Dupe_Protocol\<close> states the contract of an exact filter as a locale and
    shows what is a duplicate over any sequence of transactions; \<open>Dupe_Ledger\<close> interleaves legacy checks: the ledger
    respects its limit and loses no allowance; \<open>Dupe_Lifecycle\<close> interleaves lifecycle calls: the close is final in every orderly
    run, and a clear whose wait times out reopens a closing filter.

  \<^bold>\<open>Backend queue\<close> (\<open>queue/queue.py\<close>).
  \<^item> \<open>Request_Envelope\<close>: the dictionary of a request, its identity stamp and its validation on the way back. A request
    comes back with its class and fields; payloads can name only known classes and only plain methods of the spider.
  \<^item> \<open>Queue_Messages\<close>: push, pop, ack, nack, length and clear. A log of the calls that reach the broker shows that a
    source delivery is settled only after a durable commit of its replacement or when it can never be pushed, that every popped
    delivery is settled as its bytes deserve, and that another spider's delivery is returned.
  \<^item> \<open>Queue_Checkpoint\<close>: the checkpoint of the strategy over the repository: distinct keys, round trip, no checkpoint
    overwritten unread, no resurrection of an unversioned one. \<open>Queue_Close\<close>: admission and the close protocol
    under every interleaving; the strategy is destroyed once, after the checkpoint and when idle.

  \<^bold>\<open>Concurrency.\<close> A critical section of the code is one transition. Where a method leaves its lock to
  call a backend, a hook or to wait, the model either takes the call as a function that may change
  the object, or is a step relation with the threads' local data in its state.

  \<^bold>\<open>Loops, fuel and bounds.\<close> Loops are structural or carry a measure. The eviction chain of the cuckoo
  filter runs \<open>max_kicks\<close> = 500 times as in the code. The deadline loop of the holding strategies is a
  \<open>partial_function\<close> in the option type, because it ends only if time passes; \<open>pop_loop_returns\<close> of
  \<open>Held_Items\<close> shows that it does under a strictly advancing clock of doubles. The rejection sampling of
  the Bloom filter ends because its attempt number must fit four bytes and raises beyond that.

  \<^bold>\<open>Parameters.\<close> Backends, clocks, digests, the random generator, the monitor hooks with an effect and
  the transition observer are arguments. What is assumed of them is in the hypotheses of the
  theorems: \<open>conforming_backend\<close> for the documented queue semantics, a clock that does not go back, a
  digest without a collision on the inputs at hand.

  \<^bold>\<open>Not modelled.\<close> The drivers (\<open>backends/redis.py\<close>, \<open>kafka.py\<close>, \<open>pulsar.py\<close> and the others) and the connector
  manager are written against client libraries and servers that are not part of the repository. The
  scheduler, the pipeline and the spider mixin connect the components above with Scrapy's crawler, engine and
  deferreds. Settings models are pydantic declarations; monitors, statistics, gauges and log records have no effect on results.
  Messages of exceptions and their redaction are texts. Of the backend queue the support of strategies that do not derive
  from \<open>QueueStrategy\<close> and the waiting of concurrent close callers are left out, of the duplicate filter
  its construction from settings.
\<close>

end
